theory Spec2Isabelle
  imports Complex_Main
begin

section \<open>Process grid and block-cyclic layout\<close>

text \<open>
  The solver \<^verbatim>\<open>pdgstrs\<close> of \<^verbatim>\<open>SRC/pdgstrs.c\<close> runs on a two-dimensional mesh of
  \<open>nprow * npcol\<close> processes.  The layout macros it uses (\<^verbatim>\<open>MYROW\<close>, \<^verbatim>\<open>MYCOL\<close>,
  \<^verbatim>\<open>PROW\<close>, \<^verbatim>\<open>PCOL\<close>, \<^verbatim>\<open>PNUM\<close>, \<^verbatim>\<open>LBi\<close>, \<^verbatim>\<open>LBj\<close>, \<^verbatim>\<open>CEILING\<close>) come from a
  header that is not part of the source file; they are written here as the
  specification gives them (rank \<open>= MYROW * P_c + MYCOL\<close>, diagonal owner of
  supernode \<open>k\<close> is \<open>PNUM (k mod P_r) (k mod P_c)\<close>) and as the file itself inverts
  them (\<^verbatim>\<open>gb = myrow + lk * grid->nprow\<close>, \<^verbatim>\<open>jb = mycol + ljb * grid->npcol\<close>).
\<close>

record gridinfo_t =
  iam :: nat
  nprow :: nat
  npcol :: nat

definition MYROW :: "nat \<Rightarrow> gridinfo_t \<Rightarrow> nat" where
  "MYROW i grid = i div npcol grid"

definition MYCOL :: "nat \<Rightarrow> gridinfo_t \<Rightarrow> nat" where
  "MYCOL i grid = i mod npcol grid"

definition PROW :: "nat \<Rightarrow> gridinfo_t \<Rightarrow> nat" where
  "PROW bnum grid = bnum mod nprow grid"

definition PCOL :: "nat \<Rightarrow> gridinfo_t \<Rightarrow> nat" where
  "PCOL bnum grid = bnum mod npcol grid"

definition PNUM :: "nat \<Rightarrow> nat \<Rightarrow> gridinfo_t \<Rightarrow> nat" where
  "PNUM i j grid = i * npcol grid + j"

definition LBi :: "nat \<Rightarrow> gridinfo_t \<Rightarrow> nat" where
  "LBi bnum grid = bnum div nprow grid"

definition LBj :: "nat \<Rightarrow> gridinfo_t \<Rightarrow> nat" where
  "LBj bnum grid = bnum div npcol grid"

definition CEILING :: "nat \<Rightarrow> nat \<Rightarrow> nat" where
  "CEILING a b = (if a mod b \<noteq> 0 then a div b + 1 else a div b)"

section \<open>Receive counts of the backward sweep\<close>

text \<open>
  Before the U-solve every process of a process row flags, in \<^verbatim>\<open>mod_bit\<close>, the
  local block rows to which it contributes from off the diagonal, the flags are
  summed over the row scope into \<^verbatim>\<open>brecv\<close>, and the diagonal processes derive
  \<^verbatim>\<open>nbrecvmod\<close> and \<^verbatim>\<open>nroot\<close> (the block of \<^verbatim>\<open>pdgstrs\<close> commented
  ``Compute brecv[] and nbrecvmod counts on the diagonal processes'').
\<close>

text \<open>\<^verbatim>\<open>for (k = 0; k < nlb; ++k) mod_bit[k] = 0;\<close>\<close>

definition clear_mod_bit :: "nat \<Rightarrow> int list \<Rightarrow> int list" where
  "clear_mod_bit nlb mod_bit = fold (\<lambda>k mb. mb[k := 0]) [0..<nlb] mod_bit"

text \<open>The first loop over the supernodes: one iteration, then the loop.\<close>

definition mod_bit_step :: "gridinfo_t \<Rightarrow> int list \<Rightarrow> nat \<Rightarrow> int list \<Rightarrow> int list" where
  "mod_bit_step grid bmod k mod_bit =
     (let myrow = MYROW (iam grid) grid; mycol = MYCOL (iam grid) grid;
          krow = PROW k grid
      in if myrow = krow then
           (let lk = LBi k grid; kcol = PCOL k grid
            in if mycol \<noteq> kcol \<and> bmod ! lk \<noteq> 0 then mod_bit[lk := 1] else mod_bit)
         else mod_bit)"

definition set_mod_bit :: "gridinfo_t \<Rightarrow> nat \<Rightarrow> int list \<Rightarrow> int list \<Rightarrow> int list" where
  "set_mod_bit grid nsupers bmod mod_bit =
     fold (mod_bit_step grid bmod) [0..<nsupers] mod_bit"

text \<open>
  \<^verbatim>\<open>MPI_Allreduce(mod_bit, brecv, nlb, mpi_int_t, MPI_SUM, scp->comm)\<close>: entry
  \<open>i\<close> of the result is the sum of entry \<open>i\<close> of the send buffers of the members
  of the communicator, here the \<open>npcol\<close> processes of one process row, numbered
  by their column.
\<close>

definition MPI_Allreduce_SUM :: "(nat \<Rightarrow> int list) \<Rightarrow> nat \<Rightarrow> nat \<Rightarrow> int list" where
  "MPI_Allreduce_SUM sendbuf count nmemb =
     map (\<lambda>i. \<Sum>c\<leftarrow>[0..<nmemb]. sendbuf c ! i) [0..<count]"

text \<open>
  The row scope of the calling process: column \<open>c\<close> of the row runs the same code
  with its own rank, its own copy \<open>bmods c\<close> of the modification counts and its
  own \<^verbatim>\<open>mod_bit\<close> array.
\<close>

definition row_member :: "gridinfo_t \<Rightarrow> nat \<Rightarrow> gridinfo_t" where
  "row_member grid c = grid\<lparr>iam := PNUM (MYROW (iam grid) grid) c grid\<rparr>"

definition compute_brecv ::
  "gridinfo_t \<Rightarrow> nat \<Rightarrow> (nat \<Rightarrow> int list) \<Rightarrow> (nat \<Rightarrow> int list) \<Rightarrow> int list" where
  "compute_brecv grid nsupers bmods mod_bits =
     (let nlb = CEILING nsupers (nprow grid)
      in MPI_Allreduce_SUM
           (\<lambda>c. set_mod_bit (row_member grid c) nsupers (bmods c)
                  (clear_mod_bit nlb (mod_bits c)))
           nlb (npcol grid))"

text \<open>The second loop over the supernodes, on one process: \<^verbatim>\<open>nbrecvmod\<close> and \<^verbatim>\<open>nroot\<close>.\<close>

definition brecv_count_step ::
  "gridinfo_t \<Rightarrow> int list \<Rightarrow> int list \<Rightarrow> nat \<Rightarrow> int \<times> int \<Rightarrow> int \<times> int" where
  "brecv_count_step grid brecv bmod k acc =
     (let myrow = MYROW (iam grid) grid; mycol = MYCOL (iam grid) grid;
          krow = PROW k grid; nbrecvmod = fst acc; nroot = snd acc
      in if myrow = krow then
           (let lk = LBi k grid; kcol = PCOL k grid
            in if mycol = kcol then
                 (nbrecvmod + brecv ! lk,
                  if brecv ! lk = 0 \<and> bmod ! lk = 0 then nroot + 1 else nroot)
               else acc)
         else acc)"

definition brecv_counts :: "gridinfo_t \<Rightarrow> nat \<Rightarrow> int list \<Rightarrow> int list \<Rightarrow> int \<times> int" where
  "brecv_counts grid nsupers brecv bmod =
     fold (brecv_count_step grid brecv bmod) [0..<nsupers] (0, 0)"

text \<open>Supernode \<open>k\<close> is a diagonal block of the process \<open>grid\<close>.\<close>

definition diag_owned :: "gridinfo_t \<Rightarrow> nat \<Rightarrow> bool" where
  "diag_owned grid k \<longleftrightarrow>
     MYROW (iam grid) grid = PROW k grid \<and> MYCOL (iam grid) grid = PCOL k grid"


subsection \<open>What the pre-pass computes\<close>


lemma clear_mod_bit_0: "clear_mod_bit 0 mb = mb"
  by (simp add: clear_mod_bit_def)

lemma clear_mod_bit_Suc: "clear_mod_bit (Suc n) mb = (clear_mod_bit n mb)[n := 0]"
  by (simp add: clear_mod_bit_def)

lemma length_clear_mod_bit: "length (clear_mod_bit nlb mb) = length mb"
  by (induction nlb) (simp_all add: clear_mod_bit_0 clear_mod_bit_Suc)

lemma clear_mod_bit_nth: "i < nlb \<Longrightarrow> i < length mb \<Longrightarrow> clear_mod_bit nlb mb ! i = 0"
  by (induction nlb)
     (auto simp: clear_mod_bit_Suc length_clear_mod_bit nth_list_update less_Suc_eq)

lemma set_mod_bit_0: "set_mod_bit g 0 bm mb = mb"
  by (simp add: set_mod_bit_def)

lemma set_mod_bit_Suc:
  "set_mod_bit g (Suc n) bm mb = mod_bit_step g bm n (set_mod_bit g n bm mb)"
  by (simp add: set_mod_bit_def)

lemma length_mod_bit_step: "length (mod_bit_step g bm k mb) = length mb"
  by (simp add: mod_bit_step_def Let_def)

lemma length_set_mod_bit: "length (set_mod_bit g ns bm mb) = length mb"
  by (induction ns) (simp_all add: set_mod_bit_0 set_mod_bit_Suc length_mod_bit_step)

definition off_diag_flag :: "gridinfo_t \<Rightarrow> int list \<Rightarrow> nat \<Rightarrow> nat \<Rightarrow> bool" where
  "off_diag_flag g bm ns i \<longleftrightarrow> (\<exists>k<ns. MYROW (iam g) g = PROW k g \<and> LBi k g = i \<and>
       MYCOL (iam g) g \<noteq> PCOL k g \<and> bm ! i \<noteq> 0)"

lemma off_diag_flag_Suc: "off_diag_flag g bm (Suc n) i \<longleftrightarrow> off_diag_flag g bm n i \<or>
   (MYROW (iam g) g = PROW n g \<and> LBi n g = i \<and> MYCOL (iam g) g \<noteq> PCOL n g \<and> bm ! i \<noteq> 0)"
  by (auto simp: off_diag_flag_def less_Suc_eq)

lemma set_mod_bit_nth:
  "i < length mb \<Longrightarrow>
   set_mod_bit g ns bm mb ! i = (if off_diag_flag g bm ns i then 1 else mb ! i)"
proof (induction ns)
  case 0 then show ?case by (simp add: set_mod_bit_0 off_diag_flag_def)
next
  case (Suc n)
  have len: "i < length (set_mod_bit g n bm mb)" using Suc.prems by (simp add: length_set_mod_bit)
  show ?case
  proof (cases "LBi n g = i")
    case True
    then show ?thesis using Suc len
      by (auto simp: set_mod_bit_Suc off_diag_flag_Suc mod_bit_step_def Let_def)
  next
    case False
    then show ?thesis using Suc len
      by (auto simp: set_mod_bit_Suc off_diag_flag_Suc mod_bit_step_def Let_def)
  qed
qed

lemma div_mod_unique:
  fixes k k' :: nat
  shows "k div p = k' div p \<Longrightarrow> k mod p = k' mod p \<Longrightarrow> k = k'"
  by (metis div_mult_mod_eq)

lemma MYROW_PNUM: "c < npcol g \<Longrightarrow> MYROW (PNUM r c g) g = r"
  by (simp add: MYROW_def PNUM_def)

lemma MYCOL_PNUM: "c < npcol g \<Longrightarrow> MYCOL (PNUM r c g) g = c"
  by (simp add: MYCOL_def PNUM_def)

lemma LBi_less_CEILING: "0 < p \<Longrightarrow> k < ns \<Longrightarrow> k div p < CEILING ns p"
proof -
  assume p: "0 < p" and k: "k < ns"
  have "k div p \<le> ns div p" using k by (simp add: div_le_mono)
  moreover have "ns mod p = 0 \<Longrightarrow> k div p < ns div p"
    using k p by (metis div_mult_mod_eq add.right_neutral less_mult_imp_div_less mult.commute)
  ultimately show ?thesis by (auto simp: CEILING_def)
qed

lemma sum_list_indicator:
  "(\<Sum>c\<leftarrow>[0..<n]. (if P c then 1 else 0 :: int)) = int (card {c. c < n \<and> P c})"
proof (induction n)
  case 0 then show ?case by simp
next
  case (Suc n)
  have eq: "{c. c < Suc n \<and> P c} = (if P n then insert n {c. c < n \<and> P c} else {c. c < n \<and> P c})"
    by (auto simp: less_Suc_eq)
  show ?case using Suc by (simp add: eq)
qed


lemma row_member_simps:
  "nprow (row_member g c) = nprow g" "npcol (row_member g c) = npcol g"
  "iam (row_member g c) = PNUM (MYROW (iam g) g) c g"
  by (simp_all add: row_member_def)

lemma row_member_MYROW:
  "c < npcol g \<Longrightarrow> MYROW (iam (row_member g c)) (row_member g c) = MYROW (iam g) g"
  by (simp add: row_member_def MYROW_def PNUM_def)

lemma row_member_MYCOL:
  "c < npcol g \<Longrightarrow> MYCOL (iam (row_member g c)) (row_member g c) = c"
  by (simp add: row_member_def MYCOL_def PNUM_def)

lemma row_member_macros:
  "PROW k (row_member g c) = PROW k g" "PCOL k (row_member g c) = PCOL k g"
  "LBi k (row_member g c) = LBi k g"
  by (simp_all add: row_member_def PROW_def PCOL_def LBi_def)

lemma off_diag_flag_row_member:
  assumes c: "c < npcol g" and k: "k < ns" and row: "MYROW (iam g) g = PROW k g"
  shows "off_diag_flag (row_member g c) bm ns (LBi k g) \<longleftrightarrow> c \<noteq> PCOL k g \<and> bm ! LBi k g \<noteq> 0"
proof -
  have uniq: "k' = k" if "PROW k g = PROW k' g" "LBi k' g = LBi k g" for k'
    using that by (auto simp: PROW_def LBi_def intro: div_mod_unique)
  show ?thesis
    unfolding off_diag_flag_def row_member_MYROW[OF c] row_member_MYCOL[OF c] row_member_macros row
    using k uniq by auto
qed

lemma compute_brecv_nth:
  assumes pr: "0 < nprow grid" and k: "k < nsupers"
    and row: "MYROW (iam grid) grid = PROW k grid"
    and len: "\<forall>c<npcol grid. CEILING nsupers (nprow grid) \<le> length (mod_bits c)"
  shows "compute_brecv grid nsupers bmods mod_bits ! LBi k grid =
         int (card {c. c < npcol grid \<and> c \<noteq> PCOL k grid \<and> bmods c ! LBi k grid \<noteq> 0})"
proof -
  let ?nlb = "CEILING nsupers (nprow grid)"
  let ?lk = "LBi k grid"
  have lk: "?lk < ?nlb" using LBi_less_CEILING[OF pr k] by (simp add: LBi_def)
  have each: "set_mod_bit (row_member grid c) nsupers (bmods c) (clear_mod_bit ?nlb (mod_bits c)) ! ?lk
              = (if c \<noteq> PCOL k grid \<and> bmods c ! ?lk \<noteq> 0 then 1 else 0)"
    if c: "c < npcol grid" for c
  proof -
    have l: "?lk < length (mod_bits c)" using len c lk by fastforce
    have z: "clear_mod_bit ?nlb (mod_bits c) ! ?lk = 0"
      using l lk by (rule_tac clear_mod_bit_nth)
    have l': "?lk < length (clear_mod_bit ?nlb (mod_bits c))"
      using l by (simp add: length_clear_mod_bit)
    show ?thesis
      unfolding set_mod_bit_nth[OF l'] z off_diag_flag_row_member[OF c k row] by simp
  qed
  have "map (\<lambda>c. set_mod_bit (row_member grid c) nsupers (bmods c)
                 (clear_mod_bit ?nlb (mod_bits c)) ! ?lk) [0..<npcol grid]
        = map (\<lambda>c. if c \<noteq> PCOL k grid \<and> bmods c ! ?lk \<noteq> 0 then 1 else 0) [0..<npcol grid]"
    by (rule map_cong) (auto simp: each)
  then have "(\<Sum>c\<leftarrow>[0..<npcol grid]. set_mod_bit (row_member grid c) nsupers (bmods c)
                 (clear_mod_bit ?nlb (mod_bits c)) ! ?lk)
        = (\<Sum>c\<leftarrow>[0..<npcol grid]. if c \<noteq> PCOL k grid \<and> bmods c ! ?lk \<noteq> 0 then 1 else 0)"
    by (rule arg_cong)
  also have "\<dots> = int (card {c. c < npcol grid \<and> (c \<noteq> PCOL k grid \<and> bmods c ! ?lk \<noteq> 0)})"
    by (rule sum_list_indicator)
  finally show ?thesis
    using lk by (simp add: compute_brecv_def MPI_Allreduce_SUM_def Let_def)
qed

lemma brecv_counts_0: "brecv_counts g 0 br bm = (0, 0)"
  by (simp add: brecv_counts_def)

lemma brecv_counts_Suc:
  "brecv_counts g (Suc n) br bm = brecv_count_step g br bm n (brecv_counts g n br bm)"
  by (simp add: brecv_counts_def)

lemma brecv_counts_fst:
  "fst (brecv_counts g ns br bm) =
     (\<Sum>k\<leftarrow>[0..<ns]. if diag_owned g k then br ! LBi k g else 0)"
  by (induction ns)
     (auto simp: brecv_counts_0 brecv_counts_Suc brecv_count_step_def Let_def diag_owned_def)

lemma brecv_counts_snd:
  "snd (brecv_counts g ns br bm) =
     int (card {k. k < ns \<and> diag_owned g k \<and> br ! LBi k g = 0 \<and> bm ! LBi k g = 0})"
proof (induction ns)
  case 0 then show ?case by (simp add: brecv_counts_0)
next
  case (Suc n)
  let ?P = "\<lambda>k. diag_owned g k \<and> br ! LBi k g = 0 \<and> bm ! LBi k g = 0"
  have eq: "{k. k < Suc n \<and> ?P k} = (if ?P n then insert n {k. k < n \<and> ?P k} else {k. k < n \<and> ?P k})"
    by (auto simp: less_Suc_eq)
  show ?case unfolding eq using Suc
    by (auto simp: brecv_counts_Suc brecv_count_step_def Let_def diag_owned_def)
qed


text \<open>
  Claim C8.  On a process that owns the diagonal block of supernode \<open>k\<close>, after the
  single sum-reduction over the row scope, \<^verbatim>\<open>brecv[lk]\<close> is the number of
  processes of the row other than the diagonal one whose \<^verbatim>\<open>bmod[lk]\<close> is nonzero;
  \<^verbatim>\<open>nbrecvmod\<close> is the sum of \<^verbatim>\<open>brecv[lk]\<close> over the diagonal blocks of the
  process, and \<^verbatim>\<open>nroot\<close> counts exactly the diagonal blocks with
  \<^verbatim>\<open>brecv[lk] = 0\<close> and \<^verbatim>\<open>bmod[lk] = 0\<close>.
\<close>

theorem brecv_prepass:
  assumes "0 < nprow grid"
    and "\<forall>c<npcol grid. CEILING nsupers (nprow grid) \<le> length (mod_bits c)"
    and "k < nsupers" and "diag_owned grid k"
  shows "compute_brecv grid nsupers bmods mod_bits ! LBi k grid =
           int (card {c. c < npcol grid \<and> c \<noteq> PCOL k grid \<and> bmods c ! LBi k grid \<noteq> 0})
       \<and> fst (brecv_counts grid nsupers (compute_brecv grid nsupers bmods mod_bits)
                (bmods (MYCOL (iam grid) grid))) =
           (\<Sum>j\<leftarrow>[0..<nsupers]. if diag_owned grid j
                then compute_brecv grid nsupers bmods mod_bits ! LBi j grid else 0)
       \<and> snd (brecv_counts grid nsupers (compute_brecv grid nsupers bmods mod_bits)
                (bmods (MYCOL (iam grid) grid))) =
           int (card {j. j < nsupers \<and> diag_owned grid j \<and>
                  compute_brecv grid nsupers bmods mod_bits ! LBi j grid = 0 \<and>
                  bmods (MYCOL (iam grid) grid) ! LBi j grid = 0})"
proof -
  have row: "MYROW (iam grid) grid = PROW k grid"
    using assms(4) by (simp add: diag_owned_def)
  show ?thesis
    using compute_brecv_nth[OF assms(1) assms(3) row assms(2)]
    by (simp add: brecv_counts_fst brecv_counts_snd)
qed

theorem brecv_prepass_witness:
  "compute_brecv \<lparr>iam = 0, nprow = 2, npcol = 2\<rparr> 4
      (\<lambda>c. if c = 0 then [0, 0] else [2, 0]) (\<lambda>c. [7, 7]) = [1, 0]
   \<and> diag_owned \<lparr>iam = 0, nprow = 2, npcol = 2\<rparr> 0
   \<and> compute_brecv \<lparr>iam = 0, nprow = 2, npcol = 2\<rparr> 4
      (\<lambda>c. if c = 0 then [0, 0] else [2, 0]) (\<lambda>c. [7, 7]) ! LBi 0 \<lparr>iam = 0, nprow = 2, npcol = 2\<rparr> =
        int (card {c. c < npcol \<lparr>iam = 0, nprow = 2, npcol = 2\<rparr> \<and>
                 c \<noteq> PCOL 0 \<lparr>iam = 0, nprow = 2, npcol = 2\<rparr> \<and>
                 (\<lambda>c. if c = 0 then [0, 0] else [2, 0::int]) c !
                   LBi 0 \<lparr>iam = 0, nprow = 2, npcol = 2\<rparr> \<noteq> 0})
   \<and> brecv_counts \<lparr>iam = 0, nprow = 2, npcol = 2\<rparr> 4 [1, 0] [0, 0] = (1, 1)"
proof -
  let ?g = "\<lparr>iam = 0, nprow = 2, npcol = 2\<rparr>"
  let ?bm = "\<lambda>c::nat. if c = 0 then [0, 0] else [2, 0::int]"
  let ?mb = "\<lambda>c::nat. [7, 7::int]"
  have v: "compute_brecv ?g 4 ?bm ?mb = [1, 0]" by code_simp
  have d: "diag_owned ?g 0" by code_simp
  have c: "brecv_counts ?g 4 [1, 0] [0, 0] = (1, 1)" by code_simp
  have h1: "0 < nprow ?g" by simp
  have h2: "\<forall>c<npcol ?g. CEILING 4 (nprow ?g) \<le> length (?mb c)"
    by (simp add: CEILING_def)
  have h3: "(0::nat) < 4" by simp
  from brecv_prepass[OF h1 h2 h3 d, of ?bm] v d c show ?thesis by blast
qed


section \<open>Inverses of the diagonal blocks\<close>

text \<open>
  \<^verbatim>\<open>pdCompute_Diag_Inv\<close> copies, for every diagonal block owned by the process, the
  unit lower and the upper triangle of the supernodal block into \<^verbatim>\<open>Linv\<close> and
  \<^verbatim>\<open>Uinv\<close> and inverts them with the LAPACK kernel \<^verbatim>\<open>dtrtri_\<close>.  The kernel
  is external to the repository: it is a parameter of the model, a function from
  \<open>(uplo, diag, n, a, lda)\<close> to the overwritten triangle and the status it
  stores through its last argument.  Doubles are modelled by reals; the function
  does no arithmetic of its own on them.
\<close>

record Glu_persist_t =
  xsup :: "nat list"
  supno :: "nat list"

definition SuperSize :: "Glu_persist_t \<Rightarrow> nat \<Rightarrow> nat" where
  "SuperSize Glu bnum = xsup Glu ! (bnum + 1) - xsup Glu ! bnum"

definition FstBlockC :: "Glu_persist_t \<Rightarrow> nat \<Rightarrow> nat" where
  "FstBlockC Glu bnum = xsup Glu ! bnum"

definition BlockNum :: "Glu_persist_t \<Rightarrow> nat \<Rightarrow> nat" where
  "BlockNum Glu i = supno Glu ! i"

record diag_LU_t =
  Lrowind_bc_ptr :: "nat list list"
  Lnzval_bc_ptr :: "real list list"
  Linv_bc_ptr :: "real list list"
  Uinv_bc_ptr :: "real list list"
  inv :: int

type_synonym dtrtri_t = "string \<Rightarrow> string \<Rightarrow> nat \<Rightarrow> real list \<Rightarrow> nat \<Rightarrow> real list \<times> int"

text \<open>The build configurations the function distinguishes by preprocessor.\<close>

datatype blas_config = CRAY | USE_VENDOR_BLAS | INTERNAL_BLAS

text \<open>
  The copy loops of one block:
  \<^verbatim>\<open>for (j=0; j<knsupc; j++) { Linv[j*knsupc+j] = 1.0;
      for (i=j+1; i<knsupc; i++) Linv[j*knsupc+i] = lusup[j*nsupr+i];
      for (i=0; i<j+1; i++) Uinv[j*knsupc+i] = lusup[j*nsupr+i]; }\<close>
\<close>

definition copy_column ::
  "nat \<Rightarrow> nat \<Rightarrow> real list \<Rightarrow> nat \<Rightarrow> real list \<times> real list \<Rightarrow> real list \<times> real list" where
  "copy_column knsupc nsupr lusup j LU =
     (let Linv1 = (fst LU)[j * knsupc + j := 1];
          Linv2 = fold (\<lambda>i L. L[j * knsupc + i := lusup ! (j * nsupr + i)]) [j + 1..<knsupc] Linv1;
          Uinv2 = fold (\<lambda>i U. U[j * knsupc + i := lusup ! (j * nsupr + i)]) [0..<j + 1] (snd LU)
      in (Linv2, Uinv2))"

definition copy_triangles ::
  "nat \<Rightarrow> nat \<Rightarrow> real list \<Rightarrow> real list \<times> real list \<Rightarrow> real list \<times> real list" where
  "copy_triangles knsupc nsupr lusup LU = fold (copy_column knsupc nsupr lusup) [0..<knsupc] LU"

text \<open>
  The state of the loop over the supernodes: the factor structure, and the local
  variable \<^verbatim>\<open>INFO\<close> that receives the kernel's status.  \<^verbatim>\<open>ABORT\<close> ends the
  program with its message (\<open>Inl\<close>).
\<close>

definition diag_inv_block ::
  "blas_config \<Rightarrow> dtrtri_t \<Rightarrow> Glu_persist_t \<Rightarrow> gridinfo_t \<Rightarrow> nat \<Rightarrow>
   string + diag_LU_t \<times> int \<Rightarrow> string + diag_LU_t \<times> int" where
  "diag_inv_block cfg dtrtri Glu grid k st =
     (case st of
        Inl msg \<Rightarrow> Inl msg
      | Inr (Llu, INFO) \<Rightarrow>
          if MYROW (iam grid) grid = PROW k grid then
            if MYCOL (iam grid) grid = PCOL k grid then
              (let lk = LBj k grid;
                   lsub = Lrowind_bc_ptr Llu ! lk;
                   lusup = Lnzval_bc_ptr Llu ! lk;
                   nsupr = lsub ! 1;
                   knsupc = SuperSize Glu k;
                   LU = copy_triangles knsupc nsupr lusup
                          (Linv_bc_ptr Llu ! lk, Uinv_bc_ptr Llu ! lk)
               in case cfg of
                    CRAY \<Rightarrow> Inl ''Cray blas dtrtri not implemented''
                  | USE_VENDOR_BLAS \<Rightarrow>
                      (let r1 = dtrtri ''L'' ''U'' knsupc (fst LU) knsupc;
                           r2 = dtrtri ''U'' ''N'' knsupc (snd LU) knsupc
                       in Inr (Llu\<lparr>Linv_bc_ptr := (Linv_bc_ptr Llu)[lk := fst r1],
                                    Uinv_bc_ptr := (Uinv_bc_ptr Llu)[lk := fst r2]\<rparr>,
                               snd r2))
                  | INTERNAL_BLAS \<Rightarrow> Inl ''internal blas dtrtri not implemented'')
            else st
          else st)"

text \<open>
  The result: the factor structure, the cell \<^verbatim>\<open>*info\<close> of the caller, and for
  reference the last value of the local \<^verbatim>\<open>INFO\<close>.  \<open>INFO0\<close> is the
  indeterminate initial value of that local.  With \<open>n = 0\<close> the code reads
  \<^verbatim>\<open>supno[n-1]\<close> in front of the array: the model stops there, with \<open>Inl\<close>.
\<close>

record diag_inv_result =
  res_Llu :: diag_LU_t
  res_info :: int
  res_INFO :: int

definition pdCompute_Diag_Inv ::
  "blas_config \<Rightarrow> dtrtri_t \<Rightarrow> nat \<Rightarrow> Glu_persist_t \<Rightarrow> diag_LU_t \<Rightarrow> gridinfo_t \<Rightarrow>
   int \<Rightarrow> int \<Rightarrow> string + diag_inv_result" where
  "pdCompute_Diag_Inv cfg dtrtri n Glu Llu grid info INFO0 =
     (if n = 0 then Inl ''supno[-1] is read''
      else
        (let nsupers = supno Glu ! (n - 1) + 1;
             Llu1 = Llu\<lparr>inv := 1\<rparr>
         in case fold (diag_inv_block cfg dtrtri Glu grid) [0..<nsupers] (Inr (Llu1, INFO0)) of
              Inl msg \<Rightarrow> Inl msg
            | Inr (Llu2, INFO) \<Rightarrow> Inr \<lparr>res_Llu = Llu2, res_info = info, res_INFO = INFO\<rparr>))"

text \<open>
  A kernel that does what LAPACK documents for a singular triangle: with a
  non-unit diagonal, the status is the (one-based) index of the first diagonal
  entry that is exactly zero, and the triangle is left as it is; it is used to
  run the function on a singular block.
\<close>

definition zero_pivot :: "nat \<Rightarrow> real list \<Rightarrow> nat \<Rightarrow> int" where
  "zero_pivot n a lda =
     (case filter (\<lambda>i. a ! (i * lda + i) = 0) [0..<n] of [] \<Rightarrow> 0 | i # _ \<Rightarrow> int i + 1)"

definition singular_test_kernel :: dtrtri_t where
  "singular_test_kernel uplo diag n a lda =
     (a, if diag = ''N'' then zero_pivot n a lda else 0)"

lemma diag_inv_loop_info:
  "fold (diag_inv_block cfg dtrtri Glu grid) ks st = Inr (Llu2, INFO) \<Longrightarrow> \<exists>Llu1 I. st = Inr (Llu1, I)"
proof (induction ks arbitrary: st)
  case Nil then show ?case by simp
next
  case (Cons k ks)
  from Cons.IH[OF Cons.prems[simplified]]
  show ?case by (auto simp: diag_inv_block_def split: sum.splits)
qed

lemma pdCompute_Diag_Inv_info_unchanged:
  "pdCompute_Diag_Inv cfg dtrtri n Glu Llu grid info INFO0 = Inr r \<Longrightarrow> res_info r = info"
  by (auto simp: pdCompute_Diag_Inv_def Let_def split: sum.splits if_splits)

text \<open>
  Claim C3 asks that a zero pivot met by the inversion kernel reaches the caller
  as a nonzero \<^verbatim>\<open>*info\<close>.  On a single process with one \<open>1 \<times> 1\<close> supernode whose
  diagonal entry is zero, the kernel reports status \<open>1\<close> into the local
  \<^verbatim>\<open>INFO\<close>, and the function returns with \<^verbatim>\<open>*info\<close> still \<open>0\<close>, as the caller
  set it.
\<close>

theorem pdCompute_Diag_Inv_singular_block:
  "pdCompute_Diag_Inv USE_VENDOR_BLAS singular_test_kernel 1
     \<lparr>xsup = [0, 1], supno = [0]\<rparr>
     \<lparr>Lrowind_bc_ptr = [[1, 1, 0, 1, 0]], Lnzval_bc_ptr = [[0]],
      Linv_bc_ptr = [[0]], Uinv_bc_ptr = [[0]], inv = 0\<rparr>
     \<lparr>iam = 0, nprow = 1, npcol = 1\<rparr> 0 0
   = Inr \<lparr>res_Llu = \<lparr>Lrowind_bc_ptr = [[1, 1, 0, 1, 0]], Lnzval_bc_ptr = [[0]],
                     Linv_bc_ptr = [[1]], Uinv_bc_ptr = [[0]], inv = 1\<rparr>,
          res_info = 0, res_INFO = 1\<rparr>"
  by (simp add: pdCompute_Diag_Inv_def diag_inv_block_def copy_triangles_def copy_column_def
      singular_test_kernel_def zero_pivot_def SuperSize_def Let_def
      MYROW_def MYCOL_def PROW_def PCOL_def LBj_def)



section \<open>The forward sweep\<close>

text \<open>
  The communication trees are objects of a library outside this file; the solver
  only asks a tree whether the process is its root and how many destinations it
  has there.  A tree is modelled by these two answers, a NULL handle by \<open>None\<close>.
\<close>

record tree_t =
  IsRoot :: bool
  DestCount :: int

definition BcTree_getDestCount :: "tree_t option \<Rightarrow> int" where
  "BcTree_getDestCount t = (case t of Some tr \<Rightarrow> DestCount tr | None \<Rightarrow> 0)"

definition RdTree_GetDestCount :: "tree_t option \<Rightarrow> int" where
  "RdTree_GetDestCount t = (case t of Some tr \<Rightarrow> DestCount tr | None \<Rightarrow> 0)"

definition BcTree_IsRoot :: "tree_t option \<Rightarrow> bool" where
  "BcTree_IsRoot t = (case t of Some tr \<Rightarrow> IsRoot tr | None \<Rightarrow> False)"

definition RdTree_IsRoot :: "tree_t option \<Rightarrow> bool" where
  "RdTree_IsRoot t = (case t of Some tr \<Rightarrow> IsRoot tr | None \<Rightarrow> False)"

record LocalLU_t = diag_LU_t +
  LBtree_ptr :: "tree_t option list"
  LRtree_ptr :: "tree_t option list"
  bsendx_plist :: "int list list"
  Llu_nfrecvx :: int
  Llu_nbrecvx :: int
  Llu_nfsendx :: nat
  Llu_nbsendx :: nat
  ldalsum :: nat
  Llu_fmod :: nat
  Llu_bmod :: nat
  Llu_mod_bit :: nat
  Llu_frecv :: nat
  Llu_brecv :: nat
  SolveMsgSent :: int

text \<open>
  What the routines \<^verbatim>\<open>dlsum_fmod_inv\<close> and \<^verbatim>\<open>dlsum_bmod_inv\<close> (another file of
  the library) do to the counter array they are handed is a parameter: a function
  of the block number \<open>k\<close>, for the forward sweep the number \<open>nb\<close> of blocks to
  update (a signed number: the code passes \<^verbatim>\<open>lsub[0] - 1\<close>), the receive counts
  and the modification counts, to the new modification counts.  The message tags \<^verbatim>\<open>Xk\<close> and \<^verbatim>\<open>LSUM\<close> of the backward
  sweep are constants of a header of the library and parameters here too, as
  is \<^verbatim>\<open>Urbs\<close>, the number of row blocks in each local block column of U, which
  \<^verbatim>\<open>pdgstrs\<close> counts in a pass over the index arrays of U.
\<close>

type_synonym dlsum_t = "nat \<Rightarrow> int \<Rightarrow> int list \<Rightarrow> int list \<Rightarrow> int list"

type_synonym dlsum_b_t = "nat \<Rightarrow> int list \<Rightarrow> int list \<Rightarrow> int list"

record solve_ctx =
  grid :: gridinfo_t
  nsupers :: nat
  maxrecvsz :: nat
  Llu :: LocalLU_t
  dlsum_fmod_inv :: dlsum_t
  dlsum_bmod_inv :: dlsum_b_t
  Urbs :: "nat list"
  tag_Xk :: nat
  tag_LSUM :: nat

text \<open>
  A received message, as the loop looks at it: \<^verbatim>\<open>status.MPI_TAG\<close> and the first
  word of the payload, \<^verbatim>\<open>k = *recvbuf0\<close>.  MPI tags are not negative.
\<close>

record message =
  MPI_TAG :: nat
  hdr :: nat

text \<open>
  What the solver does to the outside, in order: in the forward sweep a receive
  into \<^verbatim>\<open>recvbuf_BC_fwd\<close> at an offset, the forwarding of a received block or
  of the block \<open>X[k]\<close> of the process down the broadcast tree \<open>lk\<close>, the forwarding
  of a partial sum up a reduction tree, the diagonal solve of a block and the
  waits on the trees; in the backward sweep a receive, \<^verbatim>\<open>MPI_Isend\<close> of the
  block \<open>X[k]\<close> to a process with a tag, and the diagonal solve; and the
  calls that frame the two sweeps.
\<close>

datatype event =
    Recv nat
  | BcForward nat nat
  | BcForwardX nat nat
  | RdForward nat
  | Solve nat
  | BcWait nat
  | RdWait nat
  | URecv
  | Isend nat nat nat
  | USolve nat
  | MPI_Wait nat
  | MPI_Barrier
  | Printf string
  | pxerr_dist string int
  | ReDistribute_B_to_X
  | ReDistribute_X_to_B

record lsolve_state =
  nfrecvx :: int
  nfrecvmod :: int
  nfrecvx_buf :: nat
  recvbuf0 :: nat
  fmod :: "int list"
  frecv :: "int list"
  trace :: "event list"

definition emit :: "event \<Rightarrow> lsolve_state \<Rightarrow> lsolve_state" where
  "emit e st = st\<lparr>trace := trace st @ [e]\<rparr>"

text \<open>
  The diagonal solve of \<open>X[k]\<close> and what follows it in \<^verbatim>\<open>pdgstrs\<close> (the leaf loop and
  the root branch of the service loop have this text twice): the solve, the
  broadcast of \<open>X[k]\<close> down its tree if there is one, and the local updates with
  \<^verbatim>\<open>nb = lsub[0] - 1\<close>.
\<close>

definition solve_and_update :: "solve_ctx \<Rightarrow> nat \<Rightarrow> lsolve_state \<Rightarrow> lsolve_state" where
  "solve_and_update C k st =
     (let lk = LBj k (grid C);
          lsub = Lrowind_bc_ptr (Llu C) ! lk;
          st1 = emit (Solve k) st;
          st2 = (if LBtree_ptr (Llu C) ! lk \<noteq> None then emit (BcForwardX lk k) st1 else st1);
          nb = int (lsub ! 0) - 1
      in st2\<lparr>fmod := dlsum_fmod_inv C k nb (frecv st2) (fmod st2)\<rparr>)"

text \<open>The branch \<^verbatim>\<open>status.MPI_TAG < nsupers\<close>: a block \<open>X[k]\<close> arrived.\<close>

definition recv_Xk :: "solve_ctx \<Rightarrow> message \<Rightarrow> lsolve_state \<Rightarrow> lsolve_state" where
  "recv_Xk C m st =
     (let k = hdr m;
          st1 = st\<lparr>nfrecvx := nfrecvx st - 1\<rparr>;
          lk = LBj (MPI_TAG m) (grid C);
          st2 = (if BcTree_getDestCount (LBtree_ptr (Llu C) ! lk) > 0
                 then (emit (BcForward lk (recvbuf0 st1)) st1)\<lparr>nfrecvx_buf := nfrecvx_buf st1 + 1\<rparr>
                 else st1);
          lk = LBj k (grid C);
          lsub = Lrowind_bc_ptr (Llu C) ! lk;
          st3 = (if lsub \<noteq> []
                 then st2\<lparr>fmod := dlsum_fmod_inv C k (int (lsub ! 0)) (frecv st2) (fmod st2)\<rparr>
                 else st2)
      in if BcTree_getDestCount (LBtree_ptr (Llu C) ! lk) > 0
         then st3\<lparr>recvbuf0 := nfrecvx_buf st3 * maxrecvsz C\<rparr>
         else st3)"

text \<open>The branch \<^verbatim>\<open>nsupers <= status.MPI_TAG < 2 * nsupers\<close>: a partial sum arrived.\<close>

definition recv_LSUM :: "solve_ctx \<Rightarrow> message \<Rightarrow> lsolve_state \<Rightarrow> lsolve_state" where
  "recv_LSUM C m st =
     (let k = hdr m;
          lk = LBi k (grid C);
          st1 = st\<lparr>nfrecvmod := nfrecvmod st - 1,
                    frecv := (frecv st)[lk := frecv st ! lk - 1]\<rparr>;
          st2 = (if RdTree_IsRoot (LRtree_ptr (Llu C) ! lk) then
                   (if frecv st1 ! lk = 0 \<and> fmod st1 ! lk = 0
                    then solve_and_update C k (st1\<lparr>fmod := (fmod st1)[lk := - 1]\<rparr>)
                    else st1)
                 else
                   (if frecv st1 ! lk = 0 \<and> fmod st1 ! lk = 0
                    then emit (RdForward lk) (st1\<lparr>fmod := (fmod st1)[lk := - 1]\<rparr>)
                    else st1))
      in st2\<lparr>recvbuf0 := nfrecvx_buf st2 * maxrecvsz C\<rparr>)"

text \<open>One turn of the service loop on the message that \<^verbatim>\<open>MPI_Recv\<close> delivers.\<close>

definition lsweep_step :: "solve_ctx \<Rightarrow> lsolve_state \<Rightarrow> message \<Rightarrow> lsolve_state" where
  "lsweep_step C st m =
     (let st0 = emit (Recv (recvbuf0 st)) st
      in if MPI_TAG m < nsupers C then recv_Xk C m st0
         else if nsupers C \<le> MPI_TAG m \<and> MPI_TAG m < nsupers C * 2 then recv_LSUM C m st0
         else st0)"

text \<open>
  \<^verbatim>\<open>while ( nfrecvx || nfrecvmod )\<close>, fed with the messages that arrive at the
  process, in their order.  With the counters not both zero and no message left,
  \<^verbatim>\<open>MPI_Recv\<close> does not return: the result is \<open>None\<close>.  Otherwise the loop
  returns its last state and the messages it has not taken.
\<close>

fun lsweep_loop ::
  "solve_ctx \<Rightarrow> lsolve_state \<Rightarrow> message list \<Rightarrow> (lsolve_state \<times> message list) option" where
  "lsweep_loop C st [] = (if nfrecvx st \<noteq> 0 \<or> nfrecvmod st \<noteq> 0 then None else Some (st, []))"
| "lsweep_loop C st (m # ms) =
     (if nfrecvx st \<noteq> 0 \<or> nfrecvmod st \<noteq> 0 then lsweep_loop C (lsweep_step C st m) ms
      else Some (st, m # ms))"


text \<open>The two classes of messages the loop knows.\<close>

definition is_Xk :: "solve_ctx \<Rightarrow> message \<Rightarrow> bool" where
  "is_Xk C m \<longleftrightarrow> MPI_TAG m < nsupers C"

definition is_LSUM :: "solve_ctx \<Rightarrow> message \<Rightarrow> bool" where
  "is_LSUM C m \<longleftrightarrow> nsupers C \<le> MPI_TAG m \<and> MPI_TAG m < nsupers C * 2"

text \<open>
  The messages \<open>pre\<close> are what the process expects: each is of one of the two
  classes, and their numbers per class are the two counters.
\<close>

definition expected :: "solve_ctx \<Rightarrow> lsolve_state \<Rightarrow> message list \<Rightarrow> bool" where
  "expected C st pre \<longleftrightarrow>
     list_all (\<lambda>m. MPI_TAG m < nsupers C * 2) pre \<and>
     int (length (filter (is_Xk C) pre)) = nfrecvx st \<and>
     int (length (filter (is_LSUM C) pre)) = nfrecvmod st"

text \<open>After the loop: \<^verbatim>\<open>BcTree_waitSendRequest\<close> and \<^verbatim>\<open>RdTree_waitSendRequest\<close> on every tree.\<close>

definition lsweep_waits :: "solve_ctx \<Rightarrow> lsolve_state \<Rightarrow> lsolve_state" where
  "lsweep_waits C st =
     (let nsupers_j = CEILING (nsupers C) (npcol (grid C));
          nsupers_i = CEILING (nsupers C) (nprow (grid C));
          st1 = fold (\<lambda>lk s. if LBtree_ptr (Llu C) ! lk \<noteq> None then emit (BcWait lk) s else s)
                  [0..<nsupers_j] st
      in fold (\<lambda>lk s. if LRtree_ptr (Llu C) ! lk \<noteq> None then emit (RdWait lk) s else s)
           [0..<nsupers_i] st1)"

definition lsweep_finish ::
  "solve_ctx \<Rightarrow> lsolve_state \<Rightarrow> message list \<Rightarrow> (lsolve_state \<times> message list) option" where
  "lsweep_finish C st ms =
     (case lsweep_loop C st ms of None \<Rightarrow> None | Some (st', rest) \<Rightarrow> Some (lsweep_waits C st', rest))"

lemma emit_simps:
  "nfrecvx (emit e st) = nfrecvx st" "nfrecvmod (emit e st) = nfrecvmod st"
  "nfrecvx_buf (emit e st) = nfrecvx_buf st" "recvbuf0 (emit e st) = recvbuf0 st"
  "fmod (emit e st) = fmod st" "frecv (emit e st) = frecv st"
  "trace (emit e st) = trace st @ [e]"
  by (simp_all add: emit_def)

lemma solve_and_update_simps:
  "nfrecvx (solve_and_update C k st) = nfrecvx st"
  "nfrecvmod (solve_and_update C k st) = nfrecvmod st"
  "nfrecvx_buf (solve_and_update C k st) = nfrecvx_buf st"
  "recvbuf0 (solve_and_update C k st) = recvbuf0 st"
  "frecv (solve_and_update C k st) = frecv st"
  by (simp_all add: solve_and_update_def Let_def emit_simps)

lemma recv_Xk_counters:
  "nfrecvx (recv_Xk C m st) = nfrecvx st - 1" "nfrecvmod (recv_Xk C m st) = nfrecvmod st"
  by (simp_all add: recv_Xk_def Let_def emit_simps)

lemma recv_LSUM_counters:
  "nfrecvx (recv_LSUM C m st) = nfrecvx st" "nfrecvmod (recv_LSUM C m st) = nfrecvmod st - 1"
  by (simp_all add: recv_LSUM_def Let_def emit_simps solve_and_update_simps)

lemma lsweep_step_Xk:
  "is_Xk C m \<Longrightarrow> nfrecvx (lsweep_step C st m) = nfrecvx st - 1 \<and>
                  nfrecvmod (lsweep_step C st m) = nfrecvmod st"
  by (simp add: lsweep_step_def is_Xk_def Let_def recv_Xk_counters emit_simps)

lemma lsweep_step_LSUM:
  "is_LSUM C m \<Longrightarrow> nfrecvx (lsweep_step C st m) = nfrecvx st \<and>
                    nfrecvmod (lsweep_step C st m) = nfrecvmod st - 1"
  by (simp add: lsweep_step_def is_LSUM_def Let_def recv_LSUM_counters emit_simps)

lemma class_cases:
  "MPI_TAG m < nsupers C * 2 \<Longrightarrow> (is_Xk C m \<and> \<not> is_LSUM C m) \<or> (is_LSUM C m \<and> \<not> is_Xk C m)"
  by (auto simp: is_Xk_def is_LSUM_def)

lemma expected_Nil: "expected C st [] \<longleftrightarrow> nfrecvx st = 0 \<and> nfrecvmod st = 0"
  by (auto simp: expected_def)

lemma expected_Cons:
  assumes "expected C st (m # pre)"
  shows "(nfrecvx st \<noteq> 0 \<or> nfrecvmod st \<noteq> 0) \<and> expected C (lsweep_step C st m) pre"
proof -
  have tag: "MPI_TAG m < nsupers C * 2" using assms by (simp add: expected_def)
  from class_cases[OF tag] show ?thesis
  proof
    assume c: "is_Xk C m \<and> \<not> is_LSUM C m"
    then show ?thesis using assms lsweep_step_Xk[of C m st]
      by (auto simp: expected_def)
  next
    assume c: "is_LSUM C m \<and> \<not> is_Xk C m"
    then show ?thesis using assms lsweep_step_LSUM[of C m st]
      by (auto simp: expected_def)
  qed
qed

lemma lsweep_loop_expected:
  "expected C st pre \<Longrightarrow>
   \<exists>st'. lsweep_loop C st (pre @ rest) = Some (st', rest) \<and> nfrecvx st' = 0 \<and> nfrecvmod st' = 0"
proof (induction pre arbitrary: st)
  case Nil
  then show ?case by (cases rest) (auto simp: expected_Nil)
next
  case (Cons m pre)
  from expected_Cons[OF Cons.prems] Cons.IH show ?case by auto
qed

lemma expected_length:
  "expected C st pre \<Longrightarrow> int (length pre) = nfrecvx st + nfrecvmod st"
proof (induction pre arbitrary: st)
  case Nil then show ?case by (simp add: expected_Nil)
next
  case (Cons m pre)
  have tag: "MPI_TAG m < nsupers C * 2" using Cons.prems by (simp add: expected_def)
  from expected_Cons[OF Cons.prems] have e: "expected C (lsweep_step C st m) pre" by simp
  from class_cases[OF tag] Cons.IH[OF e] lsweep_step_Xk[of C m st] lsweep_step_LSUM[of C m st]
  show ?case by auto
qed


fun recv_offsets :: "event list \<Rightarrow> nat list" where
  "recv_offsets [] = []"
| "recv_offsets (Recv off # es) = off # recv_offsets es"
| "recv_offsets (e # es) = recv_offsets es"

lemma recv_offsets_append: "recv_offsets (xs @ ys) = recv_offsets xs @ recv_offsets ys"
  by (induction xs rule: recv_offsets.induct) simp_all

lemma fold_emit:
  "fold (\<lambda>x s. if P x then emit (f x) s else s) xs st =
     st\<lparr>trace := trace st @ map f (filter P xs)\<rparr>"
  by (induction xs arbitrary: st) (simp_all add: emit_def)

lemma lsweep_waits_eq:
  "lsweep_waits C st =
     st\<lparr>trace := trace st
        @ map BcWait (filter (\<lambda>lk. LBtree_ptr (Llu C) ! lk \<noteq> None)
                       [0..<CEILING (nsupers C) (npcol (grid C))])
        @ map RdWait (filter (\<lambda>lk. LRtree_ptr (Llu C) ! lk \<noteq> None)
                       [0..<CEILING (nsupers C) (nprow (grid C))])\<rparr>"
  by (simp add: lsweep_waits_def Let_def fold_emit)

lemma recv_offsets_solve_and_update:
  "recv_offsets (trace (solve_and_update C k st)) = recv_offsets (trace st)"
  by (simp add: solve_and_update_def Let_def emit_simps recv_offsets_append)

lemma recv_offsets_recv_Xk:
  "recv_offsets (trace (recv_Xk C m st)) = recv_offsets (trace st)"
  by (simp add: recv_Xk_def Let_def emit_simps recv_offsets_append)

lemma recv_offsets_recv_LSUM:
  "recv_offsets (trace (recv_LSUM C m st)) = recv_offsets (trace st)"
  by (simp add: recv_LSUM_def Let_def emit_simps recv_offsets_append
      recv_offsets_solve_and_update)

lemma recv_offsets_step:
  "recv_offsets (trace (lsweep_step C st m)) = recv_offsets (trace st) @ [recvbuf0 st]"
  by (simp add: lsweep_step_def Let_def emit_simps recv_offsets_append
      recv_offsets_recv_Xk recv_offsets_recv_LSUM)


lemma lsweep_loop_run:
  "expected C st pre \<Longrightarrow>
   lsweep_loop C st (pre @ rest) = Some (foldl (lsweep_step C) st pre, rest)"
proof (induction pre arbitrary: st)
  case Nil
  then show ?case by (cases rest) (auto simp: expected_Nil)
next
  case (Cons m pre)
  from expected_Cons[OF Cons.prems] Cons.IH show ?case by auto
qed

lemma lsweep_loop_prefix:
  "lsweep_loop C st ms = Some (st', rest) \<Longrightarrow>
   \<exists>pre. ms = pre @ rest \<and> st' = foldl (lsweep_step C) st pre"
proof (induction ms arbitrary: st)
  case Nil
  then show ?case by (auto split: if_splits)
next
  case (Cons m ms)
  show ?case
  proof (cases "nfrecvx st \<noteq> 0 \<or> nfrecvmod st \<noteq> 0")
    case False
    then show ?thesis using Cons.prems by auto
  next
    case True
    then have "lsweep_loop C (lsweep_step C st m) ms = Some (st', rest)"
      using Cons.prems by simp
    from Cons.IH[OF this] obtain pre where
      "ms = pre @ rest" "st' = foldl (lsweep_step C) (lsweep_step C st m) pre" by blast
    then have "m # ms = (m # pre) @ rest \<and> st' = foldl (lsweep_step C) st (m # pre)" by simp
    then show ?thesis by blast
  qed
qed

lemma run_receives:
  "length (recv_offsets (trace (foldl (lsweep_step C) st pre))) =
     length (recv_offsets (trace st)) + length pre"
  by (induction pre arbitrary: st) (simp_all add: recv_offsets_step)

lemma run_counters:
  "list_all (\<lambda>m. MPI_TAG m < nsupers C * 2) pre \<Longrightarrow>
   nfrecvx (foldl (lsweep_step C) st pre) = nfrecvx st - int (length (filter (is_Xk C) pre)) \<and>
   nfrecvmod (foldl (lsweep_step C) st pre) = nfrecvmod st - int (length (filter (is_LSUM C) pre))"
proof (induction pre arbitrary: st)
  case Nil then show ?case by simp
next
  case (Cons m pre)
  have tag: "MPI_TAG m < nsupers C * 2" and rest: "list_all (\<lambda>m. MPI_TAG m < nsupers C * 2) pre"
    using Cons.prems by simp_all
  from class_cases[OF tag] Cons.IH[OF rest, of "lsweep_step C st m"]
    lsweep_step_Xk[of C m st] lsweep_step_LSUM[of C m st]
  show ?case by auto
qed


text \<open>An \<open>X\<close> message that the process has to pass on down its broadcast tree.\<close>

definition forwards :: "solve_ctx \<Rightarrow> message \<Rightarrow> bool" where
  "forwards C m \<longleftrightarrow> is_Xk C m \<and>
     BcTree_getDestCount (LBtree_ptr (Llu C) ! LBj (MPI_TAG m) (grid C)) > 0"

lemma nfrecvx_buf_step:
  "nfrecvx_buf (lsweep_step C st m) = nfrecvx_buf st + (if forwards C m then 1 else 0)"
  by (simp add: lsweep_step_def recv_Xk_def recv_LSUM_def Let_def emit_simps
      solve_and_update_simps forwards_def is_Xk_def)

lemma nfrecvx_buf_run:
  "nfrecvx_buf (foldl (lsweep_step C) st pre) = nfrecvx_buf st + length (filter (forwards C) pre)"
  by (induction pre arbitrary: st) (simp_all add: nfrecvx_buf_step)

text \<open>The receive pointer is always the start of a slot not beyond the slot counter.\<close>

definition slot_inv :: "solve_ctx \<Rightarrow> lsolve_state \<Rightarrow> bool" where
  "slot_inv C st \<longleftrightarrow> (\<exists>j\<le>nfrecvx_buf st. recvbuf0 st = j * maxrecvsz C)"

lemma slot_inv_step: "slot_inv C st \<Longrightarrow> slot_inv C (lsweep_step C st m)"
  unfolding slot_inv_def
  by (auto simp: lsweep_step_def recv_Xk_def recv_LSUM_def Let_def emit_simps
      solve_and_update_simps intro: le_SucI)

lemma filter_forwards_le:
  "length (filter (forwards C) pre) \<le> length (filter (is_Xk C) pre)"
  by (induction pre) (auto simp: forwards_def)

lemma run_recv_bound:
  assumes "expected C st pre" and "slot_inv C st"
    and "int (nfrecvx_buf st) + nfrecvx st \<le> int n0"
  shows "\<forall>off\<in>set (recv_offsets (trace (foldl (lsweep_step C) st pre))).
           off \<in> set (recv_offsets (trace st)) \<or> off + maxrecvsz C \<le> maxrecvsz C * (n0 + 1)"
  using assms
proof (induction pre arbitrary: st)
  case Nil then show ?case by simp
next
  case (Cons m pre)
  let ?st1 = "lsweep_step C st m"
  have e1: "expected C ?st1 pre" using expected_Cons[OF Cons.prems(1)] by simp
  have s1: "slot_inv C ?st1" using slot_inv_step[OF Cons.prems(2)] .
  have tag: "MPI_TAG m < nsupers C * 2" using Cons.prems(1) by (simp add: expected_def)
  have x0: "0 \<le> nfrecvx st" using Cons.prems(1) by (simp add: expected_def)
  have b1: "int (nfrecvx_buf ?st1) + nfrecvx ?st1 \<le> int n0"
    using class_cases[OF tag] lsweep_step_Xk[of C m st] lsweep_step_LSUM[of C m st]
      Cons.prems(3) nfrecvx_buf_step[of C st m]
    by (auto simp: forwards_def)
  from Cons.prems(2) obtain j where j: "j \<le> nfrecvx_buf st" "recvbuf0 st = j * maxrecvsz C"
    by (auto simp: slot_inv_def)
  have "j \<le> n0" using j(1) Cons.prems(3) x0 by linarith
  then have "j * maxrecvsz C + maxrecvsz C \<le> maxrecvsz C * (n0 + 1)"
    by (metis Suc_eq_plus1 Suc_le_mono mult.commute mult_Suc mult_le_mono1 add.commute)
  then have here: "recvbuf0 st + maxrecvsz C \<le> maxrecvsz C * (n0 + 1)" using j(2) by simp
  from Cons.IH[OF e1 s1 b1] here show ?case
    by (auto simp: recv_offsets_step)
qed


lemma expected_drop:
  "expected C st pre \<Longrightarrow> i \<le> length pre \<Longrightarrow>
   expected C (foldl (lsweep_step C) st (take i pre)) (drop i pre)"
proof (induction pre arbitrary: st i)
  case Nil then show ?case by simp
next
  case (Cons m pre)
  show ?case
  proof (cases i)
    case 0 then show ?thesis using Cons.prems by simp
  next
    case (Suc j)
    from expected_Cons[OF Cons.prems(1)] have "expected C (lsweep_step C st m) pre" by simp
    from Cons.IH[OF this, of j] Cons.prems(2) Suc show ?thesis by simp
  qed
qed

lemma expected_nonneg: "expected C st pre \<Longrightarrow> 0 \<le> nfrecvx st \<and> 0 \<le> nfrecvmod st"
  by (simp add: expected_def)

lemma foldl_take_Suc:
  "i < length pre \<Longrightarrow> foldl f st (take (Suc i) pre) = f (foldl f st (take i pre)) (pre ! i)"
  by (simp add: take_Suc_conv_app_nth)

text \<open>One turn of the loop takes one from exactly one of the two counters.\<close>

definition one_less :: "lsolve_state \<Rightarrow> lsolve_state \<Rightarrow> bool" where
  "one_less s s' \<longleftrightarrow>
     (nfrecvx s' = nfrecvx s - 1 \<and> nfrecvmod s' = nfrecvmod s) \<or>
     (nfrecvx s' = nfrecvx s \<and> nfrecvmod s' = nfrecvmod s - 1)"

text \<open>The loop condition as the claim words it.\<close>

definition unfinished :: "lsolve_state \<Rightarrow> bool" where
  "unfinished s \<longleftrightarrow> 0 < nfrecvx s \<or> 0 < nfrecvmod s"

text \<open>The run of the loop on the expected messages.\<close>

lemma lsweep_loop_expected_turns:
  assumes "expected C st pre"
  shows "lsweep_finish C st (pre @ rest) =
           Some (lsweep_waits C (foldl (lsweep_step C) st pre), rest)
       \<and> int (length pre) = nfrecvx st + nfrecvmod st
       \<and> nfrecvx (foldl (lsweep_step C) st pre) = 0
       \<and> nfrecvmod (foldl (lsweep_step C) st pre) = 0
       \<and> length (recv_offsets (trace (foldl (lsweep_step C) st pre))) =
           length (recv_offsets (trace st)) + length pre
       \<and> (\<forall>i<length pre.
             unfinished (foldl (lsweep_step C) st (take i pre)) \<and>
             one_less (foldl (lsweep_step C) st (take i pre))
                      (foldl (lsweep_step C) st (take (Suc i) pre)))
       \<and> trace (lsweep_waits C (foldl (lsweep_step C) st pre)) =
           trace (foldl (lsweep_step C) st pre)
           @ map BcWait (filter (\<lambda>lk. LBtree_ptr (Llu C) ! lk \<noteq> None)
                          [0..<CEILING (nsupers C) (npcol (grid C))])
           @ map RdWait (filter (\<lambda>lk. LRtree_ptr (Llu C) ! lk \<noteq> None)
                          [0..<CEILING (nsupers C) (nprow (grid C))])"
proof -
  let ?run = "\<lambda>ms. foldl (lsweep_step C) st ms"
  have fin: "lsweep_finish C st (pre @ rest) = Some (lsweep_waits C (?run pre), rest)"
    by (simp add: lsweep_finish_def lsweep_loop_run[OF assms])
  have tags: "list_all (\<lambda>m. MPI_TAG m < nsupers C * 2) pre"
    using assms by (simp add: expected_def)
  have zero: "nfrecvx (?run pre) = 0 \<and> nfrecvmod (?run pre) = 0"
    using run_counters[OF tags, of st] assms by (simp add: expected_def)
  have turn: "unfinished (?run (take i pre)) \<and> one_less (?run (take i pre)) (?run (take (Suc i) pre))"
    if i: "i < length pre" for i
  proof -
    have e: "expected C (?run (take i pre)) (drop i pre)"
      using expected_drop[OF assms, of i] i by simp
    have d: "drop i pre = pre ! i # drop (Suc i) pre"
      using i by (simp add: Cons_nth_drop_Suc)
    have tag: "MPI_TAG (pre ! i) < nsupers C * 2"
      using tags i by (simp add: list_all_length)
    have nn: "0 \<le> nfrecvx (?run (take i pre)) \<and> 0 \<le> nfrecvmod (?run (take i pre))"
      using expected_nonneg[OF e] .
    have "nfrecvx (?run (take i pre)) \<noteq> 0 \<or> nfrecvmod (?run (take i pre)) \<noteq> 0"
      using expected_Cons[of C "?run (take i pre)" "pre ! i" "drop (Suc i) pre"] e d by simp
    then have u: "unfinished (?run (take i pre))" using nn by (auto simp: unfinished_def)
    have "one_less (?run (take i pre)) (lsweep_step C (?run (take i pre)) (pre ! i))"
      using class_cases[OF tag] lsweep_step_Xk[of C "pre ! i" "?run (take i pre)"]
        lsweep_step_LSUM[of C "pre ! i" "?run (take i pre)"]
      by (auto simp: one_less_def)
    then show ?thesis using u foldl_take_Suc[OF i, of "lsweep_step C" st] by simp
  qed
  show ?thesis
    using fin expected_length[OF assms] zero run_receives[of C st pre] turn
    by (simp add: lsweep_waits_eq)
qed

text \<open>
  Claim C7, amended.  Every turn of the service loop receives one message.  A
  message of the class \<open>X\<close> (tag below \<^verbatim>\<open>nsupers\<close>) takes one from \<^verbatim>\<open>nfrecvx\<close>, a
  message of the class \<open>LSUM\<close> (tag from \<^verbatim>\<open>nsupers\<close> and below \<^verbatim>\<open>2*nsupers\<close>) takes
  one from \<^verbatim>\<open>nfrecvmod\<close>, and a message with any other tag leaves both counters
  as they are.  When the messages that arrive are the expected ones
  (\<^verbatim>\<open>nfrecvx\<close> blocks \<open>X[k]\<close> and \<^verbatim>\<open>nfrecvmod\<close> partial sums, in any order, and no
  other), the loop returns after exactly \<^verbatim>\<open>nfrecvx + nfrecvmod\<close> turns with
  both counters at zero; every turn is entered with one of the counters
  positive and takes one from exactly one of the two; and after the loop every
  broadcast tree and every reduction tree of the process is waited for.
\<close>

theorem lsweep_loop_terminates:
  "recv_offsets (trace (lsweep_step C st m)) = recv_offsets (trace st) @ [recvbuf0 st]
   \<and> (is_Xk C m \<longrightarrow>
        nfrecvx (lsweep_step C st m) = nfrecvx st - 1 \<and>
        nfrecvmod (lsweep_step C st m) = nfrecvmod st)
   \<and> (is_LSUM C m \<longrightarrow>
        nfrecvx (lsweep_step C st m) = nfrecvx st \<and>
        nfrecvmod (lsweep_step C st m) = nfrecvmod st - 1)
   \<and> (\<not> is_Xk C m \<and> \<not> is_LSUM C m \<longrightarrow>
        nfrecvx (lsweep_step C st m) = nfrecvx st \<and>
        nfrecvmod (lsweep_step C st m) = nfrecvmod st)
   \<and> (expected C st pre \<longrightarrow>
         lsweep_finish C st (pre @ rest) =
           Some (lsweep_waits C (foldl (lsweep_step C) st pre), rest)
       \<and> int (length pre) = nfrecvx st + nfrecvmod st
       \<and> nfrecvx (foldl (lsweep_step C) st pre) = 0
       \<and> nfrecvmod (foldl (lsweep_step C) st pre) = 0
       \<and> length (recv_offsets (trace (foldl (lsweep_step C) st pre))) =
           length (recv_offsets (trace st)) + length pre
       \<and> (\<forall>i<length pre.
             unfinished (foldl (lsweep_step C) st (take i pre)) \<and>
             one_less (foldl (lsweep_step C) st (take i pre))
                      (foldl (lsweep_step C) st (take (Suc i) pre)))
       \<and> trace (lsweep_waits C (foldl (lsweep_step C) st pre)) =
           trace (foldl (lsweep_step C) st pre)
           @ map BcWait (filter (\<lambda>lk. LBtree_ptr (Llu C) ! lk \<noteq> None)
                          [0..<CEILING (nsupers C) (npcol (grid C))])
           @ map RdWait (filter (\<lambda>lk. LRtree_ptr (Llu C) ! lk \<noteq> None)
                          [0..<CEILING (nsupers C) (nprow (grid C))]))"
proof -
  have a: "recv_offsets (trace (lsweep_step C st m)) = recv_offsets (trace st) @ [recvbuf0 st]"
    by (rule recv_offsets_step)
  have b: "is_Xk C m \<longrightarrow>
        nfrecvx (lsweep_step C st m) = nfrecvx st - 1 \<and>
        nfrecvmod (lsweep_step C st m) = nfrecvmod st"
    using lsweep_step_Xk[of C m st] by blast
  have c: "is_LSUM C m \<longrightarrow>
        nfrecvx (lsweep_step C st m) = nfrecvx st \<and>
        nfrecvmod (lsweep_step C st m) = nfrecvmod st - 1"
    using lsweep_step_LSUM[of C m st] by blast
  have d: "\<not> is_Xk C m \<and> \<not> is_LSUM C m \<longrightarrow>
        nfrecvx (lsweep_step C st m) = nfrecvx st \<and>
        nfrecvmod (lsweep_step C st m) = nfrecvmod st"
    by (simp add: lsweep_step_def is_Xk_def is_LSUM_def Let_def emit_simps)
  show ?thesis
    by (rule conjI[OF a conjI[OF b conjI[OF c conjI[OF d]]]])
      (rule impI, rule lsweep_loop_expected_turns)
qed

text \<open>
  The receives stay within \<^verbatim>\<open>maxrecvsz * (nfrecvx + 1)\<close> words, the size meant
  for \<^verbatim>\<open>recvbuf_BC_fwd\<close>: with the slot counter at zero and the receive
  pointer at the start of the buffer on entry, and the expected messages, the
  slot counter is the number of \<open>X\<close> messages received so far that the process
  had to forward, it never exceeds the initial \<^verbatim>\<open>nfrecvx\<close>, and every receive of
  \<^verbatim>\<open>maxrecvsz\<close> words at the receive pointer ends within that size.
\<close>

lemma recv_within_intended_size:
  assumes "expected C st pre"
    and "nfrecvx_buf st = 0" and "recvbuf0 st = 0" and "recv_offsets (trace st) = []"
    and "i \<le> length pre"
  shows "lsweep_loop C st (pre @ rest) = Some (foldl (lsweep_step C) st pre, rest)
       \<and> nfrecvx_buf (foldl (lsweep_step C) st (take i pre)) =
           length (filter (forwards C) (take i pre))
       \<and> int (nfrecvx_buf (foldl (lsweep_step C) st (take i pre))) \<le> nfrecvx st
       \<and> list_all (\<lambda>off. off + maxrecvsz C \<le> maxrecvsz C * (nat (nfrecvx st) + 1))
           (recv_offsets (trace (foldl (lsweep_step C) st pre)))"
proof -
  have x: "int (length (filter (is_Xk C) pre)) = nfrecvx st"
    using assms(1) by (simp add: expected_def)
  have "length (filter (forwards C) (take i pre)) \<le> length (filter (forwards C) pre)"
    by (metis append_take_drop_id filter_append le_add1 length_append)
  also have "\<dots> \<le> length (filter (is_Xk C) pre)" by (rule filter_forwards_le)
  finally have le: "int (length (filter (forwards C) (take i pre))) \<le> nfrecvx st"
    using x by linarith
  have inv: "slot_inv C st" using assms(2,3) by (simp add: slot_inv_def)
  have b: "int (nfrecvx_buf st) + nfrecvx st \<le> int (nat (nfrecvx st))"
    using assms(2) x by simp
  from run_recv_bound[OF assms(1) inv b] assms(4)
  have "list_all (\<lambda>off. off + maxrecvsz C \<le> maxrecvsz C * (nat (nfrecvx st) + 1))
           (recv_offsets (trace (foldl (lsweep_step C) st pre)))"
    by (simp add: list_all_iff)
  then show ?thesis
    using lsweep_loop_run[OF assms(1)] le assms(2) by (simp add: nfrecvx_buf_run)
qed


section \<open>Counters of the forward sweep\<close>

text \<open>
  The one thing asked of \<^verbatim>\<open>dlsum_fmod_inv\<close>: it keeps the length of the counter
  array and raises none of its entries.
\<close>

definition dlsum_nonincreasing :: "dlsum_t \<Rightarrow> bool" where
  "dlsum_nonincreasing d \<longleftrightarrow>
     (\<forall>k nb fr fm. length (d k nb fr fm) = length fm \<and>
        (\<forall>i<length fm. d k nb fr fm ! i \<le> fm ! i))"

fun is_solve_of :: "gridinfo_t \<Rightarrow> nat \<Rightarrow> event \<Rightarrow> bool" where
  "is_solve_of g lk (Solve k) = (LBi k g = lk)"
| "is_solve_of g lk e = False"

definition solve_count :: "gridinfo_t \<Rightarrow> nat \<Rightarrow> event list \<Rightarrow> nat" where
  "solve_count g lk tr = length (filter (is_solve_of g lk) tr)"

text \<open>
  The message \<open>m\<close> makes the loop solve its block: it is a partial sum for a
  block row of which the process is the root of the reduction, it is the last
  one expected, and no local update is outstanding.
\<close>

definition fires :: "solve_ctx \<Rightarrow> lsolve_state \<Rightarrow> message \<Rightarrow> bool" where
  "fires C s m \<longleftrightarrow>
     is_LSUM C m \<and> RdTree_IsRoot (LRtree_ptr (Llu C) ! LBi (hdr m) (grid C)) \<and>
     frecv s ! LBi (hdr m) (grid C) = 1 \<and> fmod s ! LBi (hdr m) (grid C) = 0"

lemma solve_count_append:
  "solve_count g lk (xs @ ys) = solve_count g lk xs + solve_count g lk ys"
  by (simp add: solve_count_def)

lemma solve_count_single:
  "solve_count g lk [] = 0"
  "solve_count g lk (e # es) = (if is_solve_of g lk e then 1 else 0) + solve_count g lk es"
  by (simp_all add: solve_count_def)

lemma dlsum_length: "dlsum_nonincreasing d \<Longrightarrow> length (d k nb fr fm) = length fm"
  by (simp add: dlsum_nonincreasing_def)

lemma dlsum_le: "dlsum_nonincreasing d \<Longrightarrow> i < length fm \<Longrightarrow> d k nb fr fm ! i \<le> fm ! i"
  by (simp add: dlsum_nonincreasing_def)

lemma solve_and_update_fmod:
  assumes "dlsum_nonincreasing (dlsum_fmod_inv C)"
  shows "length (fmod (solve_and_update C k st)) = length (fmod st)"
    and "i < length (fmod st) \<Longrightarrow> fmod (solve_and_update C k st) ! i \<le> fmod st ! i"
  using dlsum_length[OF assms] dlsum_le[OF assms]
  by (simp_all add: solve_and_update_def Let_def emit_simps)

lemma solve_and_update_trace:
  "solve_count g lk (trace (solve_and_update C k st)) =
     solve_count g lk (trace st) + (if LBi k g = lk then 1 else 0)"
  by (simp add: solve_and_update_def Let_def emit_simps solve_count_append solve_count_single)

lemma recv_Xk_fmod:
  assumes "dlsum_nonincreasing (dlsum_fmod_inv C)"
  shows "length (fmod (recv_Xk C m st)) = length (fmod st)"
    and "i < length (fmod st) \<Longrightarrow> fmod (recv_Xk C m st) ! i \<le> fmod st ! i"
  using dlsum_length[OF assms] dlsum_le[OF assms]
  by (simp_all add: recv_Xk_def Let_def emit_simps)

lemma recv_Xk_frecv: "frecv (recv_Xk C m st) = frecv st"
  by (simp add: recv_Xk_def Let_def emit_simps)

lemma recv_Xk_trace: "solve_count g lk (trace (recv_Xk C m st)) = solve_count g lk (trace st)"
  by (simp add: recv_Xk_def Let_def emit_simps solve_count_append solve_count_single)

lemma recv_LSUM_frecv:
  "frecv (recv_LSUM C m st) = (frecv st)[LBi (hdr m) (grid C) := frecv st ! LBi (hdr m) (grid C) - 1]"
  by (simp add: recv_LSUM_def Let_def emit_simps solve_and_update_simps)

lemma recv_LSUM_fmod:
  assumes "dlsum_nonincreasing (dlsum_fmod_inv C)"
  shows "length (fmod (recv_LSUM C m st)) = length (fmod st)"
    and "i < length (fmod st) \<Longrightarrow> fmod (recv_LSUM C m st) ! i \<le> fmod st ! i"
proof -
  let ?lk = "LBi (hdr m) (grid C)"
  let ?s1 = "st\<lparr>nfrecvmod := nfrecvmod st - 1, frecv := (frecv st)[?lk := frecv st ! ?lk - 1]\<rparr>"
  let ?s2 = "?s1\<lparr>fmod := (fmod ?s1)[?lk := - 1]\<rparr>"
  have l2: "length (fmod ?s2) = length (fmod st)" by simp
  have le2: "fmod ?s1 ! ?lk = 0 \<Longrightarrow> j < length (fmod st) \<Longrightarrow> fmod ?s2 ! j \<le> fmod st ! j" for j
    by (cases "j = ?lk") simp_all
  show "length (fmod (recv_LSUM C m st)) = length (fmod st)"
    using solve_and_update_fmod(1)[OF assms, of "hdr m" ?s2]
    by (simp add: recv_LSUM_def Let_def emit_simps)
  show "i < length (fmod st) \<Longrightarrow> fmod (recv_LSUM C m st) ! i \<le> fmod st ! i"
    using solve_and_update_fmod(2)[OF assms, of i ?s2 "hdr m"] le2[of i]
    by (auto simp: recv_LSUM_def Let_def emit_simps)
qed

lemma recv_LSUM_trace:
  assumes "LBi (hdr m) (grid C) < length (frecv st)"
  shows "solve_count (grid C) lk (trace (recv_LSUM C m st)) =
     solve_count (grid C) lk (trace st) +
     (if RdTree_IsRoot (LRtree_ptr (Llu C) ! LBi (hdr m) (grid C)) \<and>
         frecv st ! LBi (hdr m) (grid C) = 1 \<and> fmod st ! LBi (hdr m) (grid C) = 0 \<and>
         LBi (hdr m) (grid C) = lk then 1 else 0)"
  using assms
  by (auto simp: recv_LSUM_def Let_def emit_simps solve_and_update_trace
      solve_count_append solve_count_single)

lemma recv_LSUM_fired:
  assumes d: "dlsum_nonincreasing (dlsum_fmod_inv C)"
    and lf: "LBi (hdr m) (grid C) < length (fmod st)"
    and lr: "LBi (hdr m) (grid C) < length (frecv st)"
    and f: "RdTree_IsRoot (LRtree_ptr (Llu C) ! LBi (hdr m) (grid C))"
           "frecv st ! LBi (hdr m) (grid C) = 1" "fmod st ! LBi (hdr m) (grid C) = 0"
  shows "fmod (recv_LSUM C m st) ! LBi (hdr m) (grid C) < 0"
proof -
  let ?lk = "LBi (hdr m) (grid C)"
  let ?s1 = "st\<lparr>nfrecvmod := nfrecvmod st - 1, frecv := (frecv st)[?lk := frecv st ! ?lk - 1]\<rparr>"
  let ?s2 = "?s1\<lparr>fmod := (fmod ?s1)[?lk := - 1]\<rparr>"
  have "fmod (solve_and_update C (hdr m) ?s2) ! ?lk \<le> fmod ?s2 ! ?lk"
    using solve_and_update_fmod(2)[OF d, of ?lk ?s2 "hdr m"] lf by simp
  moreover have "fmod ?s2 ! ?lk = - 1" using lf by simp
  moreover have "fmod (recv_LSUM C m st) = fmod (solve_and_update C (hdr m) ?s2)"
    using f lr by (simp add: recv_LSUM_def Let_def)
  ultimately show ?thesis by simp
qed


text \<open>The block row named by a partial-sum message is one of the counter arrays.\<close>

definition in_range :: "solve_ctx \<Rightarrow> lsolve_state \<Rightarrow> message \<Rightarrow> bool" where
  "in_range C st m \<longleftrightarrow>
     (is_LSUM C m \<longrightarrow> LBi (hdr m) (grid C) < length (fmod st) \<and>
                       LBi (hdr m) (grid C) < length (frecv st))"

text \<open>The state before turn \<open>i\<close> of the loop run on the messages \<open>ms\<close>.\<close>

definition before_turn :: "solve_ctx \<Rightarrow> lsolve_state \<Rightarrow> message list \<Rightarrow> nat \<Rightarrow> lsolve_state" where
  "before_turn C st ms i = foldl (lsweep_step C) st (take i ms)"

lemma step_lengths:
  assumes "dlsum_nonincreasing (dlsum_fmod_inv C)"
  shows "length (fmod (lsweep_step C s m)) = length (fmod s)"
    and "length (frecv (lsweep_step C s m)) = length (frecv s)"
  using recv_Xk_fmod(1)[OF assms] recv_LSUM_fmod(1)[OF assms]
  by (simp_all add: lsweep_step_def Let_def emit_simps recv_Xk_frecv recv_LSUM_frecv)

lemma step_fmod_le:
  assumes "dlsum_nonincreasing (dlsum_fmod_inv C)" and "i < length (fmod s)"
  shows "fmod (lsweep_step C s m) ! i \<le> fmod s ! i"
  using recv_Xk_fmod(2)[OF assms(1), of i "emit (Recv (recvbuf0 s)) s" m]
    recv_LSUM_fmod(2)[OF assms(1), of i "emit (Recv (recvbuf0 s)) s" m] assms(2)
  by (simp add: lsweep_step_def Let_def emit_simps)

lemma step_frecv_nth:
  assumes "i < length (frecv s)"
  shows "frecv (lsweep_step C s m) ! i =
           frecv s ! i - (if is_LSUM C m \<and> LBi (hdr m) (grid C) = i then 1 else 0)"
  using assms
  by (auto simp: lsweep_step_def Let_def emit_simps recv_Xk_frecv recv_LSUM_frecv
      is_LSUM_def nth_list_update)

lemma step_solve_count:
  assumes "in_range C s m"
  shows "solve_count (grid C) lk (trace (lsweep_step C s m)) =
           solve_count (grid C) lk (trace s) +
           (if fires C s m \<and> LBi (hdr m) (grid C) = lk then 1 else 0)"
proof -
  let ?s0 = "emit (Recv (recvbuf0 s)) s"
  have c0: "solve_count (grid C) lk (trace ?s0) = solve_count (grid C) lk (trace s)"
    by (simp add: emit_simps solve_count_append solve_count_single)
  show ?thesis
  proof (cases "is_LSUM C m")
    case True
    then have r: "LBi (hdr m) (grid C) < length (frecv ?s0)"
      using assms by (simp add: in_range_def emit_simps)
    have "lsweep_step C s m = recv_LSUM C m ?s0"
      using True by (auto simp: lsweep_step_def Let_def is_LSUM_def)
    then show ?thesis
      using recv_LSUM_trace[OF r, of lk] c0 True by (simp add: fires_def emit_simps)
  next
    case False
    then have "lsweep_step C s m = recv_Xk C m ?s0 \<or> lsweep_step C s m = ?s0"
      by (auto simp: lsweep_step_def Let_def is_LSUM_def)
    then show ?thesis using False c0 by (auto simp: recv_Xk_trace fires_def)
  qed
qed

lemma step_fired_neg:
  assumes "dlsum_nonincreasing (dlsum_fmod_inv C)" and "in_range C s m" and "fires C s m"
  shows "fmod (lsweep_step C s m) ! LBi (hdr m) (grid C) < 0"
proof -
  let ?s0 = "emit (Recv (recvbuf0 s)) s"
  have L: "is_LSUM C m" using assms(3) by (simp add: fires_def)
  have "lsweep_step C s m = recv_LSUM C m ?s0"
    using L by (auto simp: lsweep_step_def Let_def is_LSUM_def)
  then show ?thesis
    using recv_LSUM_fired[OF assms(1), of m ?s0] assms(2,3) L
    by (simp add: fires_def in_range_def emit_simps)
qed

lemma run_lengths:
  assumes "dlsum_nonincreasing (dlsum_fmod_inv C)"
  shows "length (fmod (foldl (lsweep_step C) st ms)) = length (fmod st) \<and>
         length (frecv (foldl (lsweep_step C) st ms)) = length (frecv st)"
  by (induction ms rule: rev_induct) (simp_all add: step_lengths[OF assms])

lemma run_fmod_le:
  assumes "dlsum_nonincreasing (dlsum_fmod_inv C)" and "i < length (fmod st)"
  shows "fmod (foldl (lsweep_step C) st ms) ! i \<le> fmod st ! i"
proof (induction ms rule: rev_induct)
  case Nil then show ?case by simp
next
  case (snoc m ms)
  have "i < length (fmod (foldl (lsweep_step C) st ms))"
    using run_lengths[OF assms(1), of st ms] assms(2) by simp
  from step_fmod_le[OF assms(1) this, of m] snoc show ?case by simp
qed

lemma run_frecv_nth:
  assumes "dlsum_nonincreasing (dlsum_fmod_inv C)" and "i < length (frecv st)"
  shows "frecv (foldl (lsweep_step C) st ms) ! i =
           frecv st ! i - int (length (filter (\<lambda>m. is_LSUM C m \<and> LBi (hdr m) (grid C) = i) ms))"
proof (induction ms rule: rev_induct)
  case Nil then show ?case by simp
next
  case (snoc m ms)
  have "i < length (frecv (foldl (lsweep_step C) st ms))"
    using run_lengths[OF assms(1), of st ms] assms(2) by simp
  from step_frecv_nth[OF this, of C m] snoc show ?case by simp
qed

lemma in_range_run:
  assumes "dlsum_nonincreasing (dlsum_fmod_inv C)" and "in_range C st m"
  shows "in_range C (foldl (lsweep_step C) st ms) m"
  using assms(2) run_lengths[OF assms(1), of st ms] by (simp add: in_range_def)

lemma run_solve_once:
  assumes d: "dlsum_nonincreasing (dlsum_fmod_inv C)"
    and r: "list_all (in_range C st) ms" and lk: "lk < length (fmod st)"
  shows "solve_count (grid C) lk (trace (foldl (lsweep_step C) st ms))
           \<le> solve_count (grid C) lk (trace st) + 1 \<and>
         (solve_count (grid C) lk (trace (foldl (lsweep_step C) st ms))
            = solve_count (grid C) lk (trace st) + 1 \<longrightarrow>
          fmod (foldl (lsweep_step C) st ms) ! lk < 0)"
  using r
proof (induction ms rule: rev_induct)
  case Nil then show ?case by simp
next
  case (snoc m ms)
  let ?s = "foldl (lsweep_step C) st ms"
  have ih: "solve_count (grid C) lk (trace ?s) \<le> solve_count (grid C) lk (trace st) + 1"
       "solve_count (grid C) lk (trace ?s) = solve_count (grid C) lk (trace st) + 1
          \<Longrightarrow> fmod ?s ! lk < 0"
    using snoc by simp_all
  have ir: "in_range C ?s m" using in_range_run[OF d, of st m ms] snoc.prems by simp
  have lk': "lk < length (fmod ?s)" using run_lengths[OF d, of st ms] lk by simp
  note cnt = step_solve_count[OF ir, of lk]
  show ?case
  proof (cases "fires C ?s m \<and> LBi (hdr m) (grid C) = lk")
    case True
    then have z: "fmod ?s ! lk = 0" by (auto simp: fires_def)
    then have "solve_count (grid C) lk (trace ?s) \<le> solve_count (grid C) lk (trace st)"
      using ih by fastforce
    moreover have "fmod (lsweep_step C ?s m) ! lk < 0"
      using step_fired_neg[OF d ir] True by auto
    ultimately show ?thesis using cnt True by simp
  next
    case False
    have "fmod (lsweep_step C ?s m) ! lk \<le> fmod ?s ! lk" by (rule step_fmod_le[OF d lk'])
    then show ?thesis using cnt False ih by auto
  qed
qed


text \<open>
  Claim C5, as the code has it.  Over the turns of the service loop, and for
  every local block row \<open>lk\<close>: \<^verbatim>\<open>fmod[lk]\<close> does not increase; \<^verbatim>\<open>frecv[lk]\<close> goes
  down by one at each partial-sum message for \<open>lk\<close> and is changed by nothing
  else (it is never set to \<open>-1\<close>); the loop solves the block of \<open>lk\<close> in a turn
  exactly when the message is the last partial sum expected at the root with no
  local update outstanding, that is when after the decrement \<^verbatim>\<open>frecv[lk] = 0\<close>
  and \<^verbatim>\<open>fmod[lk] = 0\<close>, and \<^verbatim>\<open>fmod[lk]\<close> is negative from then on; so the loop
  solves the block at most once.
\<close>

theorem lsweep_counters:
  assumes "dlsum_nonincreasing (dlsum_fmod_inv C)"
    and "list_all (in_range C st) ms"
    and "lk < length (fmod st)" and "lk < length (frecv st)"
    and "i < length ms"
  shows "fmod (before_turn C st ms (Suc i)) ! lk \<le> fmod (before_turn C st ms i) ! lk
       \<and> frecv (before_turn C st ms (Suc i)) ! lk =
           frecv (before_turn C st ms i) ! lk -
           (if is_LSUM C (ms ! i) \<and> LBi (hdr (ms ! i)) (grid C) = lk then 1 else 0)
       \<and> solve_count (grid C) lk (trace (before_turn C st ms (Suc i))) =
           solve_count (grid C) lk (trace (before_turn C st ms i)) +
           (if fires C (before_turn C st ms i) (ms ! i) \<and> LBi (hdr (ms ! i)) (grid C) = lk
            then 1 else 0)
       \<and> (fires C (before_turn C st ms i) (ms ! i) \<and> LBi (hdr (ms ! i)) (grid C) = lk \<longrightarrow>
             frecv (before_turn C st ms (Suc i)) ! lk = 0 \<and>
             fmod (before_turn C st ms i) ! lk = 0 \<and>
             fmod (before_turn C st ms (Suc i)) ! lk < 0)
       \<and> fmod (foldl (lsweep_step C) st ms) ! lk \<le> fmod (before_turn C st ms (Suc i)) ! lk
       \<and> solve_count (grid C) lk (trace (foldl (lsweep_step C) st ms))
           \<le> solve_count (grid C) lk (trace st) + 1"
proof -
  let ?s = "before_turn C st ms i"
  let ?m = "ms ! i"
  have nxt: "before_turn C st ms (Suc i) = lsweep_step C ?s ?m"
    using assms(5) by (simp add: before_turn_def foldl_take_Suc)
  have len: "length (fmod ?s) = length (fmod st)" "length (frecv ?s) = length (frecv st)"
    using run_lengths[OF assms(1), of st "take i ms"] by (simp_all add: before_turn_def)
  have ir: "in_range C ?s ?m"
    using assms(2,5) in_range_run[OF assms(1), of st ?m "take i ms"]
    by (simp add: list_all_length before_turn_def)
  have a: "fmod (lsweep_step C ?s ?m) ! lk \<le> fmod ?s ! lk"
    using step_fmod_le[OF assms(1), of lk ?s ?m] len assms(3) by simp
  have b: "frecv (lsweep_step C ?s ?m) ! lk =
             frecv ?s ! lk - (if is_LSUM C ?m \<and> LBi (hdr ?m) (grid C) = lk then 1 else 0)"
    using step_frecv_nth[of lk ?s C ?m] len assms(4) by simp
  note c = step_solve_count[OF ir, of lk]
  have d: "frecv (lsweep_step C ?s ?m) ! lk = 0 \<and> fmod ?s ! lk = 0 \<and>
           fmod (lsweep_step C ?s ?m) ! lk < 0"
    if f: "fires C ?s ?m \<and> LBi (hdr ?m) (grid C) = lk"
    using f b step_fired_neg[OF assms(1) ir] by (auto simp: fires_def)
  have split: "ms = take (Suc i) ms @ drop (Suc i) ms" by simp
  have "foldl (lsweep_step C) st ms =
          foldl (lsweep_step C) (before_turn C st ms (Suc i)) (drop (Suc i) ms)"
    unfolding before_turn_def by (subst split, subst foldl_append) simp
  moreover have "lk < length (fmod (before_turn C st ms (Suc i)))"
    using run_lengths[OF assms(1), of st "take (Suc i) ms"] assms(3)
    by (simp add: before_turn_def)
  ultimately have e: "fmod (foldl (lsweep_step C) st ms) ! lk
                       \<le> fmod (before_turn C st ms (Suc i)) ! lk"
    using run_fmod_le[OF assms(1), of lk "before_turn C st ms (Suc i)" "drop (Suc i) ms"]
    by simp
  show ?thesis
    using a b c d e run_solve_once[OF assms(1,2,3)] by (simp add: nxt)
qed


section \<open>Start of the forward sweep\<close>

text \<open>
  The loop over the local block rows that fills \<^verbatim>\<open>frecv\<close> from the reduction
  trees, sums \<^verbatim>\<open>nfrecvmod\<close> and collects the leaves in \<^verbatim>\<open>leafsups\<close>.
\<close>

definition frecv_leaf_step ::
  "solve_ctx \<Rightarrow> int list \<Rightarrow> nat \<Rightarrow> int list \<times> int \<times> nat list \<Rightarrow> int list \<times> int \<times> nat list" where
  "frecv_leaf_step C fmod0 lk acc =
     (case acc of (frecv0, nfrecvmod0, leafsups) \<Rightarrow>
        if LRtree_ptr (Llu C) ! lk \<noteq> None then
          (let frecv1 = frecv0[lk := RdTree_GetDestCount (LRtree_ptr (Llu C) ! lk)]
           in (frecv1, nfrecvmod0 + frecv1 ! lk, leafsups))
        else
          (let gb = MYROW (iam (grid C)) (grid C) + lk * nprow (grid C)
           in if gb < nsupers C then
                (let kcol = PCOL gb (grid C)
                 in if MYCOL (iam (grid C)) (grid C) = kcol then
                      (if fmod0 ! lk = 0 then (frecv0, nfrecvmod0, leafsups @ [gb]) else acc)
                    else acc)
              else acc))"

definition lsweep_setup :: "solve_ctx \<Rightarrow> int list \<Rightarrow> int list \<times> int \<times> nat list" where
  "lsweep_setup C fmod0 =
     (let nsupers_i = CEILING (nsupers C) (nprow (grid C))
      in fold (frecv_leaf_step C fmod0) [0..<nsupers_i] (replicate nsupers_i 0, 0, []))"

text \<open>One turn of the loop over the leaves.\<close>

definition leaf_solve :: "solve_ctx \<Rightarrow> nat \<Rightarrow> lsolve_state \<Rightarrow> lsolve_state" where
  "leaf_solve C k st =
     solve_and_update C k (st\<lparr>fmod := (fmod st)[LBi k (grid C) := - 1]\<rparr>)"

text \<open>
  The state in which the service loop is entered: \<^verbatim>\<open>nfrecvx\<close> from the factor
  structure, \<^verbatim>\<open>nfrecvx_buf = 0\<close>, the leaves solved, and
  \<^verbatim>\<open>recvbuf0 = &recvbuf_BC_fwd[nfrecvx_buf*maxrecvsz]\<close>.
\<close>

definition lsweep_start :: "solve_ctx \<Rightarrow> int list \<Rightarrow> lsolve_state" where
  "lsweep_start C fmod0 =
     (case lsweep_setup C fmod0 of (frecv0, nfrecvmod0, leafsups) \<Rightarrow>
        (let st0 = \<lparr>nfrecvx = Llu_nfrecvx (Llu C), nfrecvmod = nfrecvmod0, nfrecvx_buf = 0,
                    recvbuf0 = 0, fmod = fmod0, frecv = frecv0, trace = []\<rparr>;
             st1 = fold (leaf_solve C) leafsups st0
         in st1\<lparr>recvbuf0 := nfrecvx_buf st1 * maxrecvsz C\<rparr>))"

lemma leaf_solves_keep:
  "nfrecvx (fold (leaf_solve C) ks st) = nfrecvx st \<and>
   nfrecvx_buf (fold (leaf_solve C) ks st) = nfrecvx_buf st \<and>
   recv_offsets (trace (fold (leaf_solve C) ks st)) = recv_offsets (trace st)"
  by (induction ks arbitrary: st)
     (simp_all add: leaf_solve_def solve_and_update_simps recv_offsets_solve_and_update)

lemma lsweep_start_zero:
  "nfrecvx_buf (lsweep_start C fmod0) = 0 \<and> recvbuf0 (lsweep_start C fmod0) = 0 \<and>
   nfrecvx (lsweep_start C fmod0) = Llu_nfrecvx (Llu C) \<and>
   recv_offsets (trace (lsweep_start C fmod0)) = []"
  by (simp add: lsweep_start_def Let_def leaf_solves_keep split: prod.splits)

section \<open>A process of a \<open>2 \<times> 3\<close> grid\<close>

text \<open>
  Process \<open>0\<close> of a \<open>2 \<times> 3\<close> grid with seven supernodes.  It owns the diagonal
  blocks \<open>0\<close> and \<open>6\<close>, holds the block columns \<open>0\<close>, \<open>3\<close>, \<open>6\<close> and the block
  rows \<open>0\<close>, \<open>2\<close>, \<open>4\<close>, \<open>6\<close>; it receives \<open>X[3]\<close> from the owner of block \<open>3\<close>
  and two partial sums for block row \<open>6\<close>.
\<close>

definition ex_grid :: gridinfo_t where
  "ex_grid = \<lparr>iam = 0, nprow = 2, npcol = 3\<rparr>"

definition ex_Llu :: LocalLU_t where
  "ex_Llu = \<lparr>Lrowind_bc_ptr = [[3, 3], [2, 2], [1, 1]],
             Lnzval_bc_ptr = [[], [], []], Linv_bc_ptr = [[], [], []],
             Uinv_bc_ptr = [[], [], []], inv = 1,
             LBtree_ptr = [Some \<lparr>IsRoot = True, DestCount = 1\<rparr>,
                           Some \<lparr>IsRoot = False, DestCount = 0\<rparr>, None],
             LRtree_ptr = [None, Some \<lparr>IsRoot = False, DestCount = 0\<rparr>,
                           Some \<lparr>IsRoot = False, DestCount = 0\<rparr>,
                           Some \<lparr>IsRoot = True, DestCount = 2\<rparr>],
             bsendx_plist = [[- 1, - 1], [- 1, - 1], [- 1, 0]],
             Llu_nfrecvx = 1, Llu_nbrecvx = 1, Llu_nfsendx = 1, Llu_nbsendx = 1,
             ldalsum = 4, Llu_fmod = 0, Llu_bmod = 1, Llu_mod_bit = 2,
             Llu_frecv = 0, Llu_brecv = 0, SolveMsgSent = 0\<rparr>"

text \<open>Local updates that lower the count of every block row below the diagonal of the panel.\<close>

definition ex_rows :: "nat \<Rightarrow> nat list" where
  "ex_rows k = (if k = 0 then [1, 2, 3] else if k = 3 then [2, 3] else [])"

definition ex_dlsum :: dlsum_t where
  "ex_dlsum k nb fr fm = fold (\<lambda>lk f. f[lk := f ! lk - 1]) (ex_rows k) fm"

text \<open>In the backward sweep the block rows above the diagonal of the panel.\<close>

definition ex_rows_b :: "nat \<Rightarrow> nat list" where
  "ex_rows_b k = (if k = 6 then [0, 1, 2] else if k = 3 then [0, 1] else [])"

definition ex_dlsum_b :: dlsum_b_t where
  "ex_dlsum_b k br bm = fold (\<lambda>lk f. f[lk := f ! lk - 1]) (ex_rows_b k) bm"

definition ex_ctx :: solve_ctx where
  "ex_ctx = \<lparr>grid = ex_grid, nsupers = 7, maxrecvsz = 5, Llu = ex_Llu,
             dlsum_fmod_inv = ex_dlsum, dlsum_bmod_inv = ex_dlsum_b,
             Urbs = [0, 2, 3], tag_Xk = 21, tag_LSUM = 23\<rparr>"

definition ex_msgs :: "message list" where
  "ex_msgs = [\<lparr>MPI_TAG = 13, hdr = 6\<rparr>, \<lparr>MPI_TAG = 3, hdr = 3\<rparr>, \<lparr>MPI_TAG = 13, hdr = 6\<rparr>]"

definition ex_start :: lsolve_state where
  "ex_start = lsweep_start ex_ctx [0, 1, 2, 2]"

lemma ex_start_eq:
  "ex_start = \<lparr>nfrecvx = 1, nfrecvmod = 2, nfrecvx_buf = 0, recvbuf0 = 0,
               fmod = [- 1, 0, 1, 1], frecv = [0, 0, 0, 2],
               trace = [Solve 0, BcForwardX 0 0]\<rparr>"
  by code_simp



section \<open>The forward sweep on the example process\<close>

lemma dec_fold:
  "length (fold (\<lambda>lk f. f[lk := f ! lk - 1]) rows (fm::int list)) = length fm \<and>
   (\<forall>i<length fm. fold (\<lambda>lk f. f[lk := f ! lk - 1]) rows fm ! i \<le> fm ! i)"
proof (induction rows arbitrary: fm)
  case Nil then show ?case by simp
next
  case (Cons r rows)
  have "\<forall>i<length fm. fm[r := fm ! r - 1] ! i \<le> fm ! i"
  proof (intro allI impI)
    fix i assume "i < length fm"
    then show "fm[r := fm ! r - 1] ! i \<le> fm ! i"
      by (cases "i = r") simp_all
  qed
  with Cons[of "fm[r := fm ! r - 1]"] show ?case by fastforce
qed

lemma ex_dlsum_nonincreasing: "dlsum_nonincreasing ex_dlsum"
  unfolding dlsum_nonincreasing_def ex_dlsum_def using dec_fold by blast

lemma ex_expected: "expected ex_ctx ex_start ex_msgs"
  by code_simp

lemma ex_final:
  "foldl (lsweep_step ex_ctx) ex_start ex_msgs =
     \<lparr>nfrecvx = 0, nfrecvmod = 0, nfrecvx_buf = 0, recvbuf0 = 0,
      fmod = [- 1, 0, 0, - 1], frecv = [0, 0, 0, 0],
      trace = [Solve 0, BcForwardX 0 0, Recv 0, Recv 0, Recv 0, Solve 6]\<rparr>"
  by code_simp

theorem lsweep_loop_terminates_witness:
  "expected ex_ctx ex_start ex_msgs
   \<and> nfrecvmod (lsweep_step ex_ctx ex_start \<lparr>MPI_TAG = 13, hdr = 6\<rparr>) = nfrecvmod ex_start - 1
   \<and> nfrecvx (lsweep_step ex_ctx ex_start \<lparr>MPI_TAG = 13, hdr = 6\<rparr>) = nfrecvx ex_start
   \<and> lsweep_finish ex_ctx ex_start (ex_msgs @ []) =
       Some (lsweep_waits ex_ctx (foldl (lsweep_step ex_ctx) ex_start ex_msgs), [])
   \<and> int (length ex_msgs) = nfrecvx ex_start + nfrecvmod ex_start
   \<and> nfrecvx (foldl (lsweep_step ex_ctx) ex_start ex_msgs) = 0
   \<and> nfrecvmod (foldl (lsweep_step ex_ctx) ex_start ex_msgs) = 0
   \<and> trace (lsweep_waits ex_ctx (foldl (lsweep_step ex_ctx) ex_start ex_msgs)) =
       [Solve 0, BcForwardX 0 0, Recv 0, Recv 0, Recv 0, Solve 6,
        BcWait 0, BcWait 1, RdWait 1, RdWait 2, RdWait 3]"
proof -
  have w: "trace (lsweep_waits ex_ctx (foldl (lsweep_step ex_ctx) ex_start ex_msgs)) =
       [Solve 0, BcForwardX 0 0, Recv 0, Recv 0, Recv 0, Solve 6,
        BcWait 0, BcWait 1, RdWait 1, RdWait 2, RdWait 3]"
    by code_simp
  have c: "is_LSUM ex_ctx \<lparr>MPI_TAG = 13, hdr = 6\<rparr>"
    by (simp add: is_LSUM_def ex_ctx_def)
  from lsweep_loop_terminates[where C = ex_ctx and st = ex_start and pre = ex_msgs
      and rest = "[]" and m = "\<lparr>MPI_TAG = 13, hdr = 6\<rparr>"] ex_expected w c
  show ?thesis by blast
qed

text \<open>
  Claim C7 as it is worded fails on messages that the process does not expect.
  A message with the tag \<^verbatim>\<open>2*nsupers = 14\<close> is received and takes from neither
  counter, so that the loop, which is entered with \<^verbatim>\<open>nfrecvx + nfrecvmod = 3\<close>,
  makes four receives before it returns; and with one block \<open>X[3]\<close> more than
  expected \<^verbatim>\<open>nfrecvx\<close> passes zero, the counters are never both zero again and
  the loop does not return.
\<close>

theorem stray_message_takes_a_turn:
  "nfrecvx ex_start + nfrecvmod ex_start = 3
   \<and> nfrecvx (lsweep_step ex_ctx ex_start \<lparr>MPI_TAG = 14, hdr = 6\<rparr>) = nfrecvx ex_start
   \<and> nfrecvmod (lsweep_step ex_ctx ex_start \<lparr>MPI_TAG = 14, hdr = 6\<rparr>) = nfrecvmod ex_start
   \<and> map_option (\<lambda>r. (length (recv_offsets (trace (fst r))), nfrecvx (fst r),
                       nfrecvmod (fst r), snd r))
        (lsweep_loop ex_ctx ex_start (\<lparr>MPI_TAG = 14, hdr = 6\<rparr> # ex_msgs))
       = Some (4, 0, 0, [])
   \<and> lsweep_loop ex_ctx ex_start (\<lparr>MPI_TAG = 3, hdr = 3\<rparr> # ex_msgs) = None"
  unfolding ex_start_eq by code_simp

lemma ex_in_range: "list_all (in_range ex_ctx ex_start) ex_msgs"
  by code_simp

lemma ex_fires: "fires ex_ctx (before_turn ex_ctx ex_start ex_msgs 2) (ex_msgs ! 2)"
  by code_simp

theorem lsweep_counters_witness:
  "fires ex_ctx (before_turn ex_ctx ex_start ex_msgs 2) (ex_msgs ! 2)
   \<and> LBi (hdr (ex_msgs ! 2)) (grid ex_ctx) = 3
   \<and> frecv (before_turn ex_ctx ex_start ex_msgs (Suc 2)) ! 3 = 0
   \<and> fmod (before_turn ex_ctx ex_start ex_msgs 2) ! 3 = 0
   \<and> fmod (before_turn ex_ctx ex_start ex_msgs (Suc 2)) ! 3 < 0
   \<and> solve_count (grid ex_ctx) 3 (trace (foldl (lsweep_step ex_ctx) ex_start ex_msgs))
       \<le> solve_count (grid ex_ctx) 3 (trace ex_start) + 1"
proof -
  have d: "dlsum_nonincreasing (dlsum_fmod_inv ex_ctx)"
    using ex_dlsum_nonincreasing by (simp add: ex_ctx_def)
  have l: "3 < length (fmod ex_start)" "3 < length (frecv ex_start)" "2 < length ex_msgs"
    by (simp_all add: ex_start_eq ex_msgs_def)
  have b: "LBi (hdr (ex_msgs ! 2)) (grid ex_ctx) = 3" by code_simp
  from lsweep_counters[OF d ex_in_range l] ex_fires b
  show ?thesis by blast
qed

text \<open>
  Claim C5 as it is worded fails for \<^verbatim>\<open>frecv\<close>: in this complete sweep the count
  of block row \<open>6\<close> (local row \<open>3\<close>) goes \<open>2, 1, 1, 0\<close> and is never \<open>-1\<close>, while
  \<^verbatim>\<open>fmod\<close> of that row goes \<open>1, 1, 0, -1\<close>.
\<close>

theorem frecv_never_minus_one:
  "lsweep_loop ex_ctx ex_start ex_msgs =
     Some (\<lparr>nfrecvx = 0, nfrecvmod = 0, nfrecvx_buf = 0, recvbuf0 = 0,
            fmod = [- 1, 0, 0, - 1], frecv = [0, 0, 0, 0],
            trace = [Solve 0, BcForwardX 0 0, Recv 0, Recv 0, Recv 0, Solve 6]\<rparr>, [])
   \<and> map (\<lambda>i. frecv (before_turn ex_ctx ex_start ex_msgs i) ! 3) [0..<4] = [2, 1, 1, 0]
   \<and> map (\<lambda>i. fmod (before_turn ex_ctx ex_start ex_msgs i) ! 3) [0..<4] = [1, 1, 0, - 1]
   \<and> - 1 \<notin> set (map (\<lambda>i. frecv (before_turn ex_ctx ex_start ex_msgs i) ! 3) [0..<4])"
proof -
  have 1: "lsweep_loop ex_ctx ex_start ex_msgs =
     Some (\<lparr>nfrecvx = 0, nfrecvmod = 0, nfrecvx_buf = 0, recvbuf0 = 0,
            fmod = [- 1, 0, 0, - 1], frecv = [0, 0, 0, 0],
            trace = [Solve 0, BcForwardX 0 0, Recv 0, Recv 0, Recv 0, Solve 6]\<rparr>, [])"
    by code_simp
  have 2: "map (\<lambda>i. frecv (before_turn ex_ctx ex_start ex_msgs i) ! 3) [0..<4] = [2, 1, 1, 0]"
    by code_simp
  have 3: "map (\<lambda>i. fmod (before_turn ex_ctx ex_start ex_msgs i) ! 3) [0..<4] = [1, 1, 0, - 1]"
    by code_simp
  show ?thesis unfolding 2 3 using 1 by simp
qed




section \<open>The backward sweep\<close>

text \<open>
  The backward sweep of \<^verbatim>\<open>pdgstrs\<close> sends the blocks \<open>X[k]\<close> with
  \<^verbatim>\<open>MPI_Isend\<close> and the tag \<^verbatim>\<open>Xk\<close>, to the process rows \<open>p\<close> with
  \<^verbatim>\<open>bsendx_plist[lk][p] != EMPTY\<close>; \<^verbatim>\<open>EMPTY\<close> is the library's \<open>-1\<close>.
\<close>

definition EMPTY :: int where
  "EMPTY = - 1"

record usolve_state =
  nbrecvx :: int
  nbrecvmod :: int
  nroot :: int
  bmod :: "int list"
  brecv :: "int list"
  msgsent :: int
  utrace :: "event list"

definition uemit :: "event \<Rightarrow> usolve_state \<Rightarrow> usolve_state" where
  "uemit e st = st\<lparr>utrace := utrace st @ [e]\<rparr>"

text \<open>
  \<^verbatim>\<open>for (p = 0; p < Pr; ++p) if ( bsendx_plist[lk][p] != EMPTY ) { pi = PNUM( p, kcol, grid );
  MPI_Isend( &x[ii - XK_H], knsupc * nrhs + XK_H, MPI_DOUBLE, pi, Xk, grid->comm,
  &send_req[Llu->SolveMsgSent++]); }\<close>
\<close>

definition send_Xk :: "solve_ctx \<Rightarrow> nat \<Rightarrow> usolve_state \<Rightarrow> usolve_state" where
  "send_Xk C k st =
     (let lk = LBj k (grid C); kcol = PCOL k (grid C)
      in fold (\<lambda>p s. if bsendx_plist (Llu C) ! lk ! p \<noteq> EMPTY
                      then (uemit (Isend k (PNUM p kcol (grid C)) (tag_Xk C)) s)
                             \<lparr>msgsent := msgsent s + 1\<rparr>
                      else s)
           [0..<nprow (grid C)] st)"

text \<open>The diagonal solve of \<open>X[k]\<close> in the backward sweep and what follows it.\<close>

definition usolve_and_update :: "solve_ctx \<Rightarrow> nat \<Rightarrow> usolve_state \<Rightarrow> usolve_state" where
  "usolve_and_update C k st =
     (let lk = LBj k (grid C);
          st1 = uemit (USolve k) st;
          st2 = send_Xk C k st1
      in if Urbs C ! lk \<noteq> 0
         then st2\<lparr>bmod := dlsum_bmod_inv C k (brecv st2) (bmod st2)\<rparr>
         else st2)"

text \<open>\<^verbatim>\<open>for (k = nsupers-1; k >= 0 && nroot; --k)\<close>: the roots are solved first.\<close>

definition root_step :: "solve_ctx \<Rightarrow> nat \<Rightarrow> usolve_state \<Rightarrow> usolve_state" where
  "root_step C k st =
     (if nroot st \<noteq> 0 then
        (if diag_owned (grid C) k then
           (let lk = LBi k (grid C)
            in if brecv st ! lk = 0 \<and> bmod st ! lk = 0
               then usolve_and_update C k
                      (st\<lparr>bmod := (bmod st)[lk := - 1], nroot := nroot st - 1\<rparr>)
               else st)
         else st)
      else st)"

definition usweep_roots :: "solve_ctx \<Rightarrow> usolve_state \<Rightarrow> usolve_state" where
  "usweep_roots C st = fold (root_step C) (rev [0..<nsupers C]) st"

text \<open>One turn of \<^verbatim>\<open>while ( nbrecvx || nbrecvmod )\<close>: the \<^verbatim>\<open>switch\<close> on the tag.\<close>

definition usweep_step :: "solve_ctx \<Rightarrow> usolve_state \<Rightarrow> message \<Rightarrow> usolve_state" where
  "usweep_step C st m =
     (let st0 = uemit URecv st; k = hdr m
      in if MPI_TAG m = tag_Xk C then
           st0\<lparr>nbrecvx := nbrecvx st0 - 1,
               bmod := dlsum_bmod_inv C k (brecv st0) (bmod st0)\<rparr>
         else if MPI_TAG m = tag_LSUM C then
           (let lk = LBi k (grid C);
                st1 = st0\<lparr>nbrecvmod := nbrecvmod st0 - 1,
                          brecv := (brecv st0)[lk := brecv st0 ! lk - 1]\<rparr>
            in if brecv st1 ! lk = 0 \<and> bmod st1 ! lk = 0
               then usolve_and_update C k (st1\<lparr>bmod := (bmod st1)[lk := - 1]\<rparr>)
               else st1)
         else st0)"

fun usweep_loop ::
  "solve_ctx \<Rightarrow> usolve_state \<Rightarrow> message list \<Rightarrow> (usolve_state \<times> message list) option" where
  "usweep_loop C st [] = (if nbrecvx st \<noteq> 0 \<or> nbrecvmod st \<noteq> 0 then None else Some (st, []))"
| "usweep_loop C st (m # ms) =
     (if nbrecvx st \<noteq> 0 \<or> nbrecvmod st \<noteq> 0 then usweep_loop C (usweep_step C st m) ms
      else Some (st, m # ms))"

text \<open>Every \<^verbatim>\<open>MPI_Isend\<close> of a trace carries the tag \<^verbatim>\<open>Xk\<close>.\<close>

fun sent_with :: "nat \<Rightarrow> event \<Rightarrow> bool" where
  "sent_with t (Isend k p t') = (t' = t)"
| "sent_with t e = True"

lemma uemit_simps:
  "nbrecvx (uemit e st) = nbrecvx st" "nbrecvmod (uemit e st) = nbrecvmod st"
  "nroot (uemit e st) = nroot st" "bmod (uemit e st) = bmod st" "brecv (uemit e st) = brecv st"
  "msgsent (uemit e st) = msgsent st" "utrace (uemit e st) = utrace st @ [e]"
  by (simp_all add: uemit_def)

lemma send_fold_fields:
  "(let s' = fold (\<lambda>p s. if P p then (uemit (Isend k (f p) t) s)\<lparr>msgsent := msgsent s + 1\<rparr> else s) ps st
    in nbrecvx s' = nbrecvx st \<and> nbrecvmod s' = nbrecvmod st
       \<and> brecv s' = brecv st \<and> bmod s' = bmod st \<and> nroot s' = nroot st)"
  by (induction ps arbitrary: st) (simp_all add: Let_def uemit_simps)

lemma send_fold_trace:
  "list_all (sent_with t) (utrace st) \<Longrightarrow>
   list_all (sent_with t) (utrace (fold (\<lambda>p s. if P p
       then (uemit (Isend k (f p) t) s)\<lparr>msgsent := msgsent s + 1\<rparr> else s) ps st))"
  by (induction ps arbitrary: st) (simp_all add: uemit_simps)

lemma send_Xk_simps:
  "nbrecvx (send_Xk C k st) = nbrecvx st" "nbrecvmod (send_Xk C k st) = nbrecvmod st"
  "brecv (send_Xk C k st) = brecv st" "bmod (send_Xk C k st) = bmod st"
  "nroot (send_Xk C k st) = nroot st"
  using send_fold_fields[of _ k _ "tag_Xk C" "[0..<nprow (grid C)]" st]
  by (simp_all add: send_Xk_def Let_def)

lemma send_Xk_trace:
  "list_all (sent_with (tag_Xk C)) (utrace st) \<Longrightarrow>
     list_all (sent_with (tag_Xk C)) (utrace (send_Xk C k st))"
  by (simp add: send_Xk_def Let_def send_fold_trace)

lemma usolve_and_update_simps:
  "nbrecvx (usolve_and_update C k st) = nbrecvx st"
  "nbrecvmod (usolve_and_update C k st) = nbrecvmod st"
  "brecv (usolve_and_update C k st) = brecv st"
  "nroot (usolve_and_update C k st) = nroot st"
  by (simp_all add: usolve_and_update_def Let_def send_Xk_simps uemit_simps)

lemma usolve_and_update_trace:
  "list_all (sent_with (tag_Xk C)) (utrace st) \<Longrightarrow>
     list_all (sent_with (tag_Xk C)) (utrace (usolve_and_update C k st))"
  using send_Xk_trace[of C "uemit (USolve k) st" k]
  by (simp add: usolve_and_update_def Let_def uemit_simps)

lemma root_step_trace:
  "list_all (sent_with (tag_Xk C)) (utrace st) \<Longrightarrow>
     list_all (sent_with (tag_Xk C)) (utrace (root_step C k st))"
  using usolve_and_update_trace[of C "st\<lparr>bmod := (bmod st)[LBi k (grid C) := - 1], nroot := nroot st - 1\<rparr>" k]
  by (simp add: root_step_def Let_def)

lemma fold_root_step_trace:
  "list_all (sent_with (tag_Xk C)) (utrace st) \<Longrightarrow>
     list_all (sent_with (tag_Xk C)) (utrace (fold (root_step C) ks st))"
  by (induction ks arbitrary: st) (simp_all add: root_step_trace)

lemma usweep_roots_trace:
  "list_all (sent_with (tag_Xk C)) (utrace st) \<Longrightarrow>
     list_all (sent_with (tag_Xk C)) (utrace (usweep_roots C st))"
  unfolding usweep_roots_def by (rule fold_root_step_trace)

lemma usweep_step_trace:
  "list_all (sent_with (tag_Xk C)) (utrace st) \<Longrightarrow>
     list_all (sent_with (tag_Xk C)) (utrace (usweep_step C st m))"
  using usolve_and_update_trace[of C _ "hdr m"]
  by (simp add: usweep_step_def Let_def uemit_simps)

lemma usweep_step_Xk:
  "MPI_TAG m = tag_Xk C \<Longrightarrow>
     nbrecvx (usweep_step C st m) = nbrecvx st - 1 \<and>
     nbrecvmod (usweep_step C st m) = nbrecvmod st \<and>
     brecv (usweep_step C st m) = brecv st"
  by (simp add: usweep_step_def Let_def uemit_simps)

lemma usweep_step_LSUM:
  "MPI_TAG m \<noteq> tag_Xk C \<Longrightarrow> MPI_TAG m = tag_LSUM C \<Longrightarrow>
     nbrecvx (usweep_step C st m) = nbrecvx st \<and>
     nbrecvmod (usweep_step C st m) = nbrecvmod st - 1 \<and>
     brecv (usweep_step C st m) =
       (brecv st)[LBi (hdr m) (grid C) := brecv st ! LBi (hdr m) (grid C) - 1]"
  by (simp add: usweep_step_def Let_def uemit_simps usolve_and_update_simps)

lemma usweep_step_other:
  "MPI_TAG m \<noteq> tag_Xk C \<Longrightarrow> MPI_TAG m \<noteq> tag_LSUM C \<Longrightarrow>
     usweep_step C st m = uemit URecv st"
  by (simp add: usweep_step_def Let_def)

lemma lsweep_step_other:
  "\<not> is_Xk C m \<Longrightarrow> \<not> is_LSUM C m \<Longrightarrow> lsweep_step C st m = emit (Recv (recvbuf0 st)) st"
  by (simp add: lsweep_step_def Let_def is_Xk_def is_LSUM_def)

lemma lsweep_step_frecv:
  "frecv (lsweep_step C st m) =
     (if is_LSUM C m then (frecv st)[LBi (hdr m) (grid C) := frecv st ! LBi (hdr m) (grid C) - 1]
      else frecv st)"
  by (auto simp: lsweep_step_def Let_def emit_simps recv_Xk_frecv recv_LSUM_frecv
      is_LSUM_def)


text \<open>
  The state in which the backward sweep starts: \<^verbatim>\<open>nbrecvx\<close> from the factor
  structure, the copy \<open>bmod0\<close> of the modification counts, the receive counts
  \<open>brecv0\<close> that the reduction over the row scope delivered, and the two counts
  derived from them.
\<close>

definition usweep_start :: "solve_ctx \<Rightarrow> int list \<Rightarrow> int list \<Rightarrow> usolve_state" where
  "usweep_start C bmod0 brecv0 =
     \<lparr>nbrecvx = Llu_nbrecvx (Llu C),
      nbrecvmod = fst (brecv_counts (grid C) (nsupers C) brecv0 bmod0),
      nroot = snd (brecv_counts (grid C) (nsupers C) brecv0 bmod0),
      bmod = bmod0, brecv = brecv0, msgsent = SolveMsgSent (Llu C), utrace = []\<rparr>"

definition ex_ustart :: usolve_state where
  "ex_ustart = usweep_start ex_ctx [2, 2, 1, 0] [2, 2, 2, 0]"

text \<open>
  Claim C6, as the code has it.  In the forward sweep the receiver looks at the
  tag alone to classify: a tag below \<^verbatim>\<open>nsupers\<close> is a block \<open>X\<close>, a tag from
  \<^verbatim>\<open>nsupers\<close> up to \<^verbatim>\<open>2*nsupers - 1\<close> is a partial sum for the block row of the
  first header word, and a message with any other tag is received and changes
  nothing else.  In the backward sweep the receiver dispatches on the two
  fixed tags \<^verbatim>\<open>Xk\<close> and \<^verbatim>\<open>LSUM\<close> and takes the block number from the first header
  word, and every block \<open>X[k]\<close> that the process sends carries the tag \<^verbatim>\<open>Xk\<close>.
\<close>

theorem tag_dispatch:
  assumes "list_all (sent_with (tag_Xk C)) (utrace u)"
  shows "(is_Xk C m \<longrightarrow>
            nfrecvx (lsweep_step C st m) = nfrecvx st - 1 \<and>
            nfrecvmod (lsweep_step C st m) = nfrecvmod st \<and>
            frecv (lsweep_step C st m) = frecv st)
       \<and> (is_LSUM C m \<longrightarrow>
            nfrecvx (lsweep_step C st m) = nfrecvx st \<and>
            nfrecvmod (lsweep_step C st m) = nfrecvmod st - 1 \<and>
            frecv (lsweep_step C st m) =
              (frecv st)[LBi (hdr m) (grid C) := frecv st ! LBi (hdr m) (grid C) - 1])
       \<and> (\<not> is_Xk C m \<and> \<not> is_LSUM C m \<longrightarrow>
            lsweep_step C st m = emit (Recv (recvbuf0 st)) st)
       \<and> (MPI_TAG m = tag_Xk C \<longrightarrow>
            nbrecvx (usweep_step C u m) = nbrecvx u - 1 \<and>
            nbrecvmod (usweep_step C u m) = nbrecvmod u \<and>
            brecv (usweep_step C u m) = brecv u)
       \<and> (MPI_TAG m \<noteq> tag_Xk C \<and> MPI_TAG m = tag_LSUM C \<longrightarrow>
            nbrecvx (usweep_step C u m) = nbrecvx u \<and>
            nbrecvmod (usweep_step C u m) = nbrecvmod u - 1 \<and>
            brecv (usweep_step C u m) =
              (brecv u)[LBi (hdr m) (grid C) := brecv u ! LBi (hdr m) (grid C) - 1])
       \<and> (MPI_TAG m \<noteq> tag_Xk C \<and> MPI_TAG m \<noteq> tag_LSUM C \<longrightarrow>
            usweep_step C u m = uemit URecv u)
       \<and> list_all (sent_with (tag_Xk C)) (utrace (usweep_roots C u))
       \<and> list_all (sent_with (tag_Xk C)) (utrace (usweep_step C u m))"
proof -
  have l1: "is_Xk C m \<Longrightarrow> frecv (lsweep_step C st m) = frecv st"
    by (auto simp: lsweep_step_frecv is_Xk_def is_LSUM_def)
  have l2: "is_LSUM C m \<Longrightarrow> frecv (lsweep_step C st m) =
              (frecv st)[LBi (hdr m) (grid C) := frecv st ! LBi (hdr m) (grid C) - 1]"
    by (simp add: lsweep_step_frecv)
  have a: "is_Xk C m \<longrightarrow>
            nfrecvx (lsweep_step C st m) = nfrecvx st - 1 \<and>
            nfrecvmod (lsweep_step C st m) = nfrecvmod st \<and>
            frecv (lsweep_step C st m) = frecv st"
    using lsweep_step_Xk[of C m st] l1 by simp
  have b: "is_LSUM C m \<longrightarrow>
            nfrecvx (lsweep_step C st m) = nfrecvx st \<and>
            nfrecvmod (lsweep_step C st m) = nfrecvmod st - 1 \<and>
            frecv (lsweep_step C st m) =
              (frecv st)[LBi (hdr m) (grid C) := frecv st ! LBi (hdr m) (grid C) - 1]"
    using lsweep_step_LSUM[of C m st] l2 by simp
  have c: "\<not> is_Xk C m \<and> \<not> is_LSUM C m \<longrightarrow>
            lsweep_step C st m = emit (Recv (recvbuf0 st)) st"
    using lsweep_step_other[of C m st] by simp
  have d: "MPI_TAG m = tag_Xk C \<longrightarrow>
            nbrecvx (usweep_step C u m) = nbrecvx u - 1 \<and>
            nbrecvmod (usweep_step C u m) = nbrecvmod u \<and>
            brecv (usweep_step C u m) = brecv u"
    using usweep_step_Xk[of m C u] by simp
  have e: "MPI_TAG m \<noteq> tag_Xk C \<and> MPI_TAG m = tag_LSUM C \<longrightarrow>
            nbrecvx (usweep_step C u m) = nbrecvx u \<and>
            nbrecvmod (usweep_step C u m) = nbrecvmod u - 1 \<and>
            brecv (usweep_step C u m) =
              (brecv u)[LBi (hdr m) (grid C) := brecv u ! LBi (hdr m) (grid C) - 1]"
    using usweep_step_LSUM[of m C u] by simp
  have f: "MPI_TAG m \<noteq> tag_Xk C \<and> MPI_TAG m \<noteq> tag_LSUM C \<longrightarrow>
            usweep_step C u m = uemit URecv u"
    using usweep_step_other[of m C u] by simp
  show ?thesis
    using a b c d e f usweep_roots_trace[OF assms] usweep_step_trace[OF assms, of m]
    by (intro conjI)
qed




lemma ex_ustart_eq:
  "ex_ustart = \<lparr>nbrecvx = 1, nbrecvmod = 2, nroot = 1, bmod = [2, 2, 1, 0],
                brecv = [2, 2, 2, 0], msgsent = 0, utrace = []\<rparr>"
  by code_simp

lemma ex_usweep_roots:
  "usweep_roots ex_ctx ex_ustart =
     \<lparr>nbrecvx = 1, nbrecvmod = 2, nroot = 0, bmod = [1, 1, 0, - 1],
      brecv = [2, 2, 2, 0], msgsent = 1, utrace = [USolve 6, Isend 6 3 21]\<rparr>"
proof -
  have n: "nsupers ex_ctx = 7" by (simp add: ex_ctx_def)
  have r: "rev [0..<7] = [6, 5, 4, 3, 2, 1, 0::nat]" by code_simp
  show ?thesis unfolding usweep_roots_def n r ex_ustart_eq by code_simp
qed

theorem tag_dispatch_witness:
  "nbrecvx (usweep_step ex_ctx ex_ustart \<lparr>MPI_TAG = 21, hdr = 3\<rparr>) = nbrecvx ex_ustart - 1
   \<and> brecv (usweep_step ex_ctx ex_ustart \<lparr>MPI_TAG = 21, hdr = 3\<rparr>) = brecv ex_ustart
   \<and> lsweep_step ex_ctx ex_start \<lparr>MPI_TAG = 21, hdr = 3\<rparr> = emit (Recv (recvbuf0 ex_start)) ex_start
   \<and> list_all (sent_with (tag_Xk ex_ctx)) (utrace (usweep_roots ex_ctx ex_ustart))
   \<and> utrace (usweep_roots ex_ctx ex_ustart) = [USolve 6, Isend 6 3 21]"
proof -
  let ?m = "\<lparr>MPI_TAG = 21, hdr = 3\<rparr>"
  have h: "list_all (sent_with (tag_Xk ex_ctx)) (utrace ex_ustart)"
    by (simp add: ex_ustart_eq)
  have c: "\<not> is_Xk ex_ctx ?m" "\<not> is_LSUM ex_ctx ?m" "MPI_TAG ?m = tag_Xk ex_ctx"
    by (simp_all add: is_Xk_def is_LSUM_def ex_ctx_def)
  have t: "utrace (usweep_roots ex_ctx ex_ustart) = [USolve 6, Isend 6 3 21]"
    by (simp add: ex_usweep_roots)
  from tag_dispatch[OF h, of ?m ex_start] c t show ?thesis by blast
qed



text \<open>
  Claim C6 as it is worded fails in the backward sweep: the process sends the
  block \<open>X[6]\<close> with the tag \<^verbatim>\<open>Xk\<close>, which is neither \<open>6\<close> nor below
  \<^verbatim>\<open>nsupers = 7\<close>, and a message with that same tag and first word \<open>3\<close> is taken
  as the block \<open>X[3]\<close>.  In the forward sweep a message whose tag is
  \<^verbatim>\<open>2*nsupers\<close>, so not below \<^verbatim>\<open>nsupers\<close>, is not taken as a partial sum: no
  counter moves.
\<close>

theorem backward_tag_is_not_block_number:
  "utrace (usweep_roots ex_ctx ex_ustart) = [USolve 6, Isend 6 3 (tag_Xk ex_ctx)]
   \<and> tag_Xk ex_ctx \<noteq> 6
   \<and> \<not> tag_Xk ex_ctx < nsupers ex_ctx
   \<and> nbrecvx (usweep_step ex_ctx ex_ustart \<lparr>MPI_TAG = tag_Xk ex_ctx, hdr = 3\<rparr>)
       = nbrecvx ex_ustart - 1
   \<and> nbrecvmod (usweep_step ex_ctx ex_ustart \<lparr>MPI_TAG = tag_Xk ex_ctx, hdr = 3\<rparr>)
       = nbrecvmod ex_ustart
   \<and> nfrecvx (lsweep_step ex_ctx ex_start \<lparr>MPI_TAG = 14, hdr = 6\<rparr>) = nfrecvx ex_start
   \<and> nfrecvmod (lsweep_step ex_ctx ex_start \<lparr>MPI_TAG = 14, hdr = 6\<rparr>) = nfrecvmod ex_start"
proof -
  have t: "tag_Xk ex_ctx = 21" "nsupers ex_ctx = 7" by (simp_all add: ex_ctx_def)
  have u: "nbrecvx (usweep_step ex_ctx ex_ustart \<lparr>MPI_TAG = 21, hdr = 3\<rparr>) = 0"
          "nbrecvmod (usweep_step ex_ctx ex_ustart \<lparr>MPI_TAG = 21, hdr = 3\<rparr>) = 2"
    unfolding ex_ustart_eq by code_simp+
  have l: "nfrecvx (lsweep_step ex_ctx ex_start \<lparr>MPI_TAG = 14, hdr = 6\<rparr>) = 1"
          "nfrecvmod (lsweep_step ex_ctx ex_start \<lparr>MPI_TAG = 14, hdr = 6\<rparr>) = 2"
    unfolding ex_start_eq by code_simp+
  show ?thesis
    unfolding t ex_usweep_roots u l by (simp add: ex_ustart_eq ex_start_eq)
qed



section \<open>The solver call: memory and order of events\<close>

text \<open>
  \<^verbatim>\<open>pdgstrs\<close> as a whole, on one process.  Memory is a list of blocks addressed
  by their position: an allocation appends a block and returns its position,
  \<^verbatim>\<open>SUPERLU_FREE\<close> empties the position.  A block carries the name of the
  variable it was allocated for.  Integer arrays keep their contents; of
  arrays of doubles and of requests only the size is kept, since the numerical
  kernels are outside the model.  A block that \<^verbatim>\<open>intMalloc_dist\<close> returns is
  filled with zeros in the model; the code writes every such block before
  it reads it.  Allocation does not fail in the model, so the \<^verbatim>\<open>ABORT\<close>
  branches after the allocations are not taken.  Timers and the statistics
  structure are left out.
\<close>

datatype payload = Ints "int list" | Doubles nat | Opaque nat

record cell =
  cname :: string
  content :: payload

type_synonym heap_t = "cell option list"

definition SUPERLU_MALLOC :: "string \<Rightarrow> payload \<Rightarrow> heap_t \<Rightarrow> nat \<times> heap_t" where
  "SUPERLU_MALLOC nm c h = (length h, h @ [Some \<lparr>cname = nm, content = c\<rparr>])"

definition intMalloc_dist :: "string \<Rightarrow> nat \<Rightarrow> heap_t \<Rightarrow> nat \<times> heap_t" where
  "intMalloc_dist nm n h = SUPERLU_MALLOC nm (Ints (replicate n 0)) h"

definition intCalloc_dist :: "string \<Rightarrow> nat \<Rightarrow> heap_t \<Rightarrow> nat \<times> heap_t" where
  "intCalloc_dist nm n h = SUPERLU_MALLOC nm (Ints (replicate n 0)) h"

definition doubleMalloc_dist :: "string \<Rightarrow> nat \<Rightarrow> heap_t \<Rightarrow> nat \<times> heap_t" where
  "doubleMalloc_dist nm n h = SUPERLU_MALLOC nm (Doubles n) h"

definition doubleCalloc_dist :: "string \<Rightarrow> nat \<Rightarrow> heap_t \<Rightarrow> nat \<times> heap_t" where
  "doubleCalloc_dist nm n h = SUPERLU_MALLOC nm (Doubles n) h"

definition SUPERLU_FREE :: "nat \<Rightarrow> heap_t \<Rightarrow> heap_t" where
  "SUPERLU_FREE p h = h[p := None]"

definition ints :: "heap_t \<Rightarrow> nat \<Rightarrow> int list" where
  "ints h p = (case h ! p of
                 Some c \<Rightarrow> (case content c of Ints xs \<Rightarrow> xs | Doubles n \<Rightarrow> [] | Opaque n \<Rightarrow> [])
               | None \<Rightarrow> [])"

definition store_ints :: "nat \<Rightarrow> int list \<Rightarrow> heap_t \<Rightarrow> heap_t" where
  "store_ints p xs h =
     (case h ! p of Some c \<Rightarrow> h[p := Some (c\<lparr>content := Ints xs\<rparr>)] | None \<Rightarrow> h)"

text \<open>
  The state of a call: memory, the factor structure \<^verbatim>\<open>*Llu\<close>, the cell \<^verbatim>\<open>*info\<close>,
  what the call has done to the outside, and the values of its two local
  pointers \<^verbatim>\<open>fmod\<close> and \<^verbatim>\<open>bmod\<close>.
\<close>

record pdgstrs_state =
  heap :: heap_t
  pLlu :: LocalLU_t
  info :: int
  ptrace :: "event list"
  fmod_loc :: nat
  bmod_loc :: nat

text \<open>
  What the call is given besides its arguments \<open>n\<close> and \<open>nrhs\<close> and the state:
  the grid, the supernode partition, the block size \<^verbatim>\<open>sp_ienv_dist(3)\<close>, the
  header sizes \<^verbatim>\<open>XK_H\<close> and \<^verbatim>\<open>LSUM_H\<close> (constants of a header of the library),
  the parameters of the two sweeps, the value that the local \<^verbatim>\<open>iam\<close> happens to
  hold before it is assigned (the code tests it for the thread-count message),
  the \<^verbatim>\<open>mod_bit\<close> arrays that the other members of the row scope
  contribute to the reduction, and the number of bits of the type \<^verbatim>\<open>int_t\<close>,
  which a header of the library fixes (\<open>32\<close> unless the library is built for
  long indices).
\<close>

record pdgstrs_env =
  env_grid :: gridinfo_t
  env_Glu :: Glu_persist_t
  sp_ienv_3 :: nat
  XK_H :: nat
  LSUM_H :: nat
  env_dlsum_fmod_inv :: dlsum_t
  env_dlsum_bmod_inv :: dlsum_b_t
  env_Urbs :: "nat list"
  env_tag_Xk :: nat
  env_tag_LSUM :: nat
  iam_before_init :: int
  row_mod_bits :: "nat \<Rightarrow> int list"
  int_t_bits :: nat

definition mk_ctx :: "pdgstrs_env \<Rightarrow> nat \<Rightarrow> nat \<Rightarrow> LocalLU_t \<Rightarrow> solve_ctx" where
  "mk_ctx E ns mx L =
     \<lparr>grid = env_grid E, nsupers = ns, maxrecvsz = mx, Llu = L,
      dlsum_fmod_inv = env_dlsum_fmod_inv E, dlsum_bmod_inv = env_dlsum_bmod_inv E,
      Urbs = env_Urbs E, tag_Xk = env_tag_Xk E, tag_LSUM = env_tag_LSUM E\<rparr>"

text \<open>
  Up to the test of the arguments: the array \<^verbatim>\<open>msgcnt\<close> allocated in its
  declaration, the thread-count message and the barrier.
\<close>

definition pdgstrs_entry :: "pdgstrs_env \<Rightarrow> pdgstrs_state \<Rightarrow> pdgstrs_state" where
  "pdgstrs_entry E s =
     (case SUPERLU_MALLOC ''msgcnt'' (Ints (replicate 4 0)) (heap s) of
        (msgcnt, h1) \<Rightarrow>
          s\<lparr>heap := h1,
            ptrace := ptrace s
              @ (if iam_before_init E = 0 then [Printf ''num_thread''] else [])
              @ [MPI_Barrier]\<rparr>)"

text \<open>\<^verbatim>\<open>*info = 0; if ( n < 0 ) *info = -1; else if ( nrhs < 0 ) *info = -9;\<close>\<close>

definition test_input :: "int \<Rightarrow> int \<Rightarrow> int" where
  "test_input n nrhs = (if n < 0 then - 1 else if nrhs < 0 then - 9 else 0)"

text \<open>
  The number of elements asked for \<^verbatim>\<open>recvbuf_BC_fwd\<close>,
  \<^verbatim>\<open>doubleMalloc_dist(maxrecvsz*(nfrecvx+1))\<close>: the product of the \<^verbatim>\<open>int\<close>
  \<^verbatim>\<open>maxrecvsz\<close> and the \<^verbatim>\<open>int_t\<close> \<^verbatim>\<open>nfrecvx+1\<close> is taken in \<^verbatim>\<open>int_t\<close>, with no
  conversion to \<^verbatim>\<open>size_t\<close> before it.  A product that does not fit the \<open>w\<close> bits
  wraps around (what compilers make of the signed overflow); a negative
  result is no size, and counts as \<open>0\<close> elements.
\<close>

definition wrap_signed :: "nat \<Rightarrow> int \<Rightarrow> int" where
  "wrap_signed w v = (v + 2 ^ (w - 1)) mod 2 ^ w - 2 ^ (w - 1)"

definition recvbuf_BC_fwd_size :: "nat \<Rightarrow> nat \<Rightarrow> int \<Rightarrow> nat" where
  "recvbuf_BC_fwd_size w mx nfx = nat (wrap_signed w (int mx * (nfx + 1)))"

text \<open>The pointers that the forward part leaves to the backward part.\<close>

record frame =
  send_req_p :: nat
  lsum_p :: nat
  x_p :: nat
  recvbuf_p :: nat
  rtemp_p :: nat

text \<open>The allocation of \<^verbatim>\<open>Llu->Lrowind_bc_2_lsum[ljb]\<close> for one local block column.\<close>

definition alloc_bc_2_lsum ::
  "pdgstrs_env \<Rightarrow> nat \<Rightarrow> LocalLU_t \<Rightarrow> nat \<Rightarrow> heap_t \<Rightarrow> heap_t" where
  "alloc_bc_2_lsum E nrhs L ljb h =
     (let g = env_grid E; lsub = Lrowind_bc_ptr L ! ljb
      in if lsub \<noteq> [] then
           (let jb = MYCOL (iam g) g + ljb * npcol g;
                knsupc = SuperSize (env_Glu E) jb;
                krow = PROW jb g;
                nrbl = lsub ! 0;
                nlb_nodiag = (if MYROW (iam g) g = krow then nrbl - 1 else nrbl);
                m = (if MYROW (iam g) g = krow then lsub ! 1 - knsupc else lsub ! 1)
            in if nlb_nodiag > 0
               then snd (intMalloc_dist ''Lrowind_bc_2_lsum[ljb]'' (m * nrhs) h)
               else h)
         else h)"

text \<open>
  The allocations of the forward part, in the order of the source, with the
  copy of \<^verbatim>\<open>Llu->fmod\<close> into the new array \<^verbatim>\<open>fmod\<close> right after its allocation:
  \<^verbatim>\<open>for (i = 0; i < nlb; ++i) fmod[i] = Llu->fmod[i];\<close>.  The result is the
  addresses of \<^verbatim>\<open>fmod\<close> and \<^verbatim>\<open>frecv\<close>, the pointers kept for the backward part,
  and the memory.
\<close>

definition forward_allocs ::
  "pdgstrs_env \<Rightarrow> nat \<Rightarrow> nat \<Rightarrow> LocalLU_t \<Rightarrow> heap_t \<Rightarrow> nat \<times> nat \<times> frame \<times> heap_t" where
  "forward_allocs E ns nrhs L1 h0 =
     (let g = env_grid E;
          nlb = CEILING ns (nprow g)
      in case intMalloc_dist ''fmod'' nlb h0 of (fmod_a, h1) \<Rightarrow>
         let fmod0 = map (\<lambda>i. ints h1 (Llu_fmod L1) ! i) [0..<nlb];
             h2 = store_ints fmod_a fmod0 h1
         in case intCalloc_dist ''frecv'' nlb h2 of (frecv_a, h3) \<Rightarrow>
         let k = max (Llu_nfsendx L1) (Llu_nbsendx L1) + nlb
         in case SUPERLU_MALLOC ''send_req'' (Opaque k) h3 of (send_req_a, h4) \<Rightarrow>
         let knsupc = sp_ienv_3 E;
             mx = knsupc * nrhs + max (XK_H E) (LSUM_H E)
         in case doubleCalloc_dist ''lsum'' (ldalsum L1 * nrhs + nlb * LSUM_H E) h4 of (lsum_a, h5) \<Rightarrow>
            case doubleCalloc_dist ''x'' (ldalsum L1 * nrhs + nlb * XK_H E) h5 of (x_a, h6) \<Rightarrow>
            case doubleMalloc_dist ''recvbuf'' mx h6 of (recvbuf_a, h7) \<Rightarrow>
            case doubleMalloc_dist ''recvbuf_on'' mx h7 of (recvbuf_on_a, h8) \<Rightarrow>
            case doubleCalloc_dist ''rtemp'' (ldalsum L1 * nrhs) h8 of (rtemp_a, h9) \<Rightarrow>
            case intCalloc_dist ''ipiv'' knsupc h9 of (ipiv_a, h10) \<Rightarrow>
         let nsupers_j = CEILING ns (npcol g);
             nsupers_i = CEILING ns (nprow g)
         in case SUPERLU_MALLOC ''Lrowind_bc_2_lsum'' (Opaque nsupers_j) h10 of (bc2_a, h11) \<Rightarrow>
         let h12 = fold (alloc_bc_2_lsum E nrhs L1) [0..<nsupers_j] h11
         in case intCalloc_dist ''LBTree_active'' nsupers_j h12 of (a1, h13) \<Rightarrow>
            case intCalloc_dist ''LBTree_finish'' nsupers_j h13 of (a2, h14) \<Rightarrow>
            case intCalloc_dist ''LRTree_active'' nsupers_i h14 of (a3, h15) \<Rightarrow>
            case intCalloc_dist ''LRTree_finish'' nsupers_i h15 of (a4, h16) \<Rightarrow>
            case intCalloc_dist ''leafsups'' nsupers_i h16 of (a5, h17) \<Rightarrow>
            case doubleMalloc_dist ''recvbuf_BC_fwd''
                   (recvbuf_BC_fwd_size (int_t_bits E) mx (Llu_nfrecvx L1)) h17
              of (fwd_a, h18) \<Rightarrow>
              (fmod_a, frecv_a,
               \<lparr>send_req_p = send_req_a, lsum_p = lsum_a, x_p = x_a,
                recvbuf_p = recvbuf_a, rtemp_p = rtemp_a\<rparr>, h18))"

text \<open>
  From the end of the test to the barrier after the forward sweep.  The sweep
  works on the contents of the new array \<^verbatim>\<open>fmod\<close>; \<^verbatim>\<open>Llu->frecv\<close> is pointed to
  the new array \<^verbatim>\<open>frecv\<close>; both arrays are released after the loop.  The
  result is \<open>None\<close> when the service loop waits for a message that does not
  come.
\<close>

definition forward_part ::
  "pdgstrs_env \<Rightarrow> nat \<Rightarrow> nat \<Rightarrow> pdgstrs_state \<Rightarrow> message list \<Rightarrow>
   (frame \<times> pdgstrs_state \<times> message list) option" where
  "forward_part E n nrhs s ms =
     (let nsupers = supno (env_Glu E) ! (n - 1) + 1;
          mx = sp_ienv_3 E * nrhs + max (XK_H E) (LSUM_H E);
          L1 = (pLlu s)\<lparr>SolveMsgSent := 0\<rparr>
      in case forward_allocs E nsupers nrhs L1 (heap s) of (fmod_a, frecv_a, fr, h18) \<Rightarrow>
         let L2 = L1\<lparr>Llu_frecv := frecv_a\<rparr>;
             C = mk_ctx E nsupers mx L2;
             st = lsweep_start C (ints h18 fmod_a)
         in case lsweep_finish C st ms of
              None \<Rightarrow> None
            | Some (st', rest) \<Rightarrow>
                let h19 = store_ints frecv_a (frecv st') (store_ints fmod_a (fmod st') h18);
                    h20 = SUPERLU_FREE frecv_a (SUPERLU_FREE fmod_a h19)
                in Some (fr,
                         s\<lparr>heap := h20, pLlu := L2, fmod_loc := fmod_a,
                           ptrace := ptrace s @ [ReDistribute_B_to_X] @ trace st' @ [MPI_Barrier]\<rparr>,
                         rest))"

text \<open>
  The allocation of \<^verbatim>\<open>Ucb_indptr[lb]\<close> and \<^verbatim>\<open>Ucb_valptr[lb]\<close> for one local block
  column; the addresses are collected for the release at the end.
\<close>

definition alloc_Ucb ::
  "pdgstrs_env \<Rightarrow> nat \<Rightarrow> heap_t \<times> nat list \<Rightarrow> heap_t \<times> nat list" where
  "alloc_Ucb E lb acc =
     (if env_Urbs E ! lb \<noteq> 0 then
        (case SUPERLU_MALLOC ''Ucb_indptr[lb]'' (Opaque (env_Urbs E ! lb)) (fst acc) of
           (p1, h1) \<Rightarrow>
             (case intMalloc_dist ''Ucb_valptr[lb]'' (env_Urbs E ! lb) h1 of
                (p2, h2) \<Rightarrow> (h2, snd acc @ [p1, p2])))
      else acc)"

text \<open>
  The allocations of the backward part, with the copy of \<^verbatim>\<open>Llu->bmod\<close> into the
  new array \<^verbatim>\<open>bmod\<close>, the computation of \<^verbatim>\<open>mod_bit\<close> in the array of the
  factor structure, and the reduction into the new array \<^verbatim>\<open>brecv\<close>.
\<close>

record bptrs =
  bmod_a :: nat
  brecv_a :: nat
  Urbs_a :: nat
  Ucb_indptr_a :: nat
  Ucb_valptr_a :: nat
  Ucb_rows :: "nat list"

definition backward_allocs ::
  "pdgstrs_env \<Rightarrow> nat \<Rightarrow> LocalLU_t \<Rightarrow> heap_t \<Rightarrow> bptrs \<times> heap_t" where
  "backward_allocs E ns L2 h0 =
     (let g = env_grid E;
          nlb = CEILING ns (nprow g)
      in case intMalloc_dist ''bmod'' nlb h0 of (bmod_p, h1) \<Rightarrow>
         let bmod0 = map (\<lambda>i. ints h1 (Llu_bmod L2) ! i) [0..<nlb];
             h2 = store_ints bmod_p bmod0 h1
         in case intMalloc_dist ''brecv'' nlb h2 of (brecv_p, h3) \<Rightarrow>
         let mod_bit = set_mod_bit g ns bmod0 (clear_mod_bit nlb (ints h3 (Llu_mod_bit L2)));
             h4 = store_ints (Llu_mod_bit L2) mod_bit h3;
             brecv0 = MPI_Allreduce_SUM
                        (\<lambda>c. if c = MYCOL (iam g) g then mod_bit else row_mod_bits E c)
                        nlb (npcol g);
             h5 = store_ints brecv_p brecv0 h4;
             nub = CEILING ns (npcol g)
         in case intCalloc_dist ''Urbs'' (2 * nub) h5 of (Urbs_p, h6) \<Rightarrow>
            case SUPERLU_MALLOC ''Ucb_indptr'' (Opaque nub) h6 of (Ucb_indptr_p, h7) \<Rightarrow>
            case SUPERLU_MALLOC ''Ucb_valptr'' (Opaque nub) h7 of (Ucb_valptr_p, h8) \<Rightarrow>
            case fold (alloc_Ucb E) [0..<nub] (h8, []) of (h9, rows) \<Rightarrow>
              (\<lparr>bmod_a = bmod_p, brecv_a = brecv_p, Urbs_a = Urbs_p,
                Ucb_indptr_a = Ucb_indptr_p, Ucb_valptr_a = Ucb_valptr_p, Ucb_rows = rows\<rparr>,
               h9))"

text \<open>
  From the copy of \<^verbatim>\<open>Llu->bmod\<close> to the last barrier.  The sweep works on the
  contents of the new arrays \<^verbatim>\<open>bmod\<close> and \<^verbatim>\<open>brecv\<close>.  The result is \<open>None\<close>
  when the service loop waits for a message that does not come.
\<close>

definition backward_part ::
  "pdgstrs_env \<Rightarrow> nat \<Rightarrow> nat \<Rightarrow> frame \<Rightarrow> pdgstrs_state \<Rightarrow> message list \<Rightarrow>
   (pdgstrs_state \<times> message list) option" where
  "backward_part E n nrhs fr s ms =
     (let ns = supno (env_Glu E) ! (n - 1) + 1;
          mx = sp_ienv_3 E * nrhs + max (XK_H E) (LSUM_H E)
      in case backward_allocs E ns (pLlu s) (heap s) of (B, h9) \<Rightarrow>
         let L3 = (pLlu s)\<lparr>Llu_brecv := brecv_a B\<rparr>;
             C = mk_ctx E ns mx L3;
             u1 = usweep_roots C (usweep_start C (ints h9 (bmod_a B)) (ints h9 (brecv_a B)))
         in case usweep_loop C u1 ms of
              None \<Rightarrow> None
            | Some (u2, rest) \<Rightarrow>
                let L4 = L3\<lparr>SolveMsgSent := msgsent u2\<rparr>;
                    h10 = store_ints (brecv_a B) (brecv u2) (store_ints (bmod_a B) (bmod u2) h9);
                    h11 = SUPERLU_FREE (recvbuf_p fr) (SUPERLU_FREE (x_p fr)
                            (SUPERLU_FREE (lsum_p fr) (SUPERLU_FREE (rtemp_p fr) h10)));
                    h12 = fold SUPERLU_FREE (Ucb_rows B) h11;
                    h13 = SUPERLU_FREE (brecv_a B) (SUPERLU_FREE (bmod_a B)
                            (SUPERLU_FREE (Urbs_a B) (SUPERLU_FREE (Ucb_valptr_a B)
                              (SUPERLU_FREE (Ucb_indptr_a B) h12))));
                    h14 = SUPERLU_FREE (send_req_p fr) h13
                in Some (s\<lparr>heap := h14, pLlu := L4, bmod_loc := bmod_a B,
                           ptrace := ptrace s @ utrace u2 @ [ReDistribute_X_to_B]
                             @ map MPI_Wait [0..<nat (SolveMsgSent L4)] @ [MPI_Barrier]\<rparr>,
                         rest))"

text \<open>
  The call.  With an illegal argument it reports through \<^verbatim>\<open>pxerr_dist\<close> and
  returns; otherwise it runs the two parts.  \<open>n\<close> and \<open>nrhs\<close> are the signed
  arguments of the C function.  With \<open>n = 0\<close> the code reads \<^verbatim>\<open>supno[n-1]\<close> in front
  of the array; the model gives no result there.
\<close>

definition pdgstrs ::
  "pdgstrs_env \<Rightarrow> int \<Rightarrow> int \<Rightarrow> pdgstrs_state \<Rightarrow> message list \<Rightarrow>
   (pdgstrs_state \<times> message list) option" where
  "pdgstrs E n nrhs s ms =
     (let s1 = pdgstrs_entry E s;
          s2 = s1\<lparr>info := test_input n nrhs\<rparr>
      in if info s2 \<noteq> 0 then
           Some (s2\<lparr>ptrace := ptrace s2 @ [pxerr_dist ''PDGSTRS'' (- info s2)]\<rparr>, ms)
         else if n = 0 then None
         else
           (case forward_part E (nat n) (nat nrhs) s2 ms of
              None \<Rightarrow> None
            | Some (fr, s3, ms1) \<Rightarrow> backward_part E (nat n) (nat nrhs) fr s3 ms1))"


subsection \<open>Memory below a level\<close>

lemma malloc_simps:
  "fst (SUPERLU_MALLOC nm c h) = length h"
  "length (snd (SUPERLU_MALLOC nm c h)) = Suc (length h)"
  "a < length h \<Longrightarrow> snd (SUPERLU_MALLOC nm c h) ! a = h ! a"
  "snd (SUPERLU_MALLOC nm c h) ! length h = Some \<lparr>cname = nm, content = c\<rparr>"
  by (simp_all add: SUPERLU_MALLOC_def nth_append)

lemma free_simps:
  "length (SUPERLU_FREE p h) = length h"
  "a \<noteq> p \<Longrightarrow> SUPERLU_FREE p h ! a = h ! a"
  "p < length h \<Longrightarrow> SUPERLU_FREE p h ! p = None"
  by (simp_all add: SUPERLU_FREE_def)

lemma store_simps:
  "length (store_ints p xs h) = length h"
  "a \<noteq> p \<Longrightarrow> store_ints p xs h ! a = h ! a"
  by (simp_all add: store_ints_def split: option.splits)

lemma store_None: "h ! p = None \<Longrightarrow> store_ints p xs h = h"
  by (simp add: store_ints_def)

lemma fold_free_simps:
  "length (fold SUPERLU_FREE ps h) = length h"
  "a \<notin> set ps \<Longrightarrow> fold SUPERLU_FREE ps h ! a = h ! a"
  "h ! a = None \<Longrightarrow> fold SUPERLU_FREE ps h ! a = None"
proof -
  show "length (fold SUPERLU_FREE ps h) = length h"
    by (induction ps arbitrary: h) (simp_all add: free_simps)
  show "a \<notin> set ps \<Longrightarrow> fold SUPERLU_FREE ps h ! a = h ! a"
    by (induction ps arbitrary: h) (simp_all add: free_simps)
  show "h ! a = None \<Longrightarrow> fold SUPERLU_FREE ps h ! a = None"
  proof (induction ps arbitrary: h)
    case Nil then show ?case by simp
  next
    case (Cons p ps)
    have "SUPERLU_FREE p h ! a = None"
      using Cons.prems by (cases "a = p"; cases "p < length h") (simp_all add: SUPERLU_FREE_def list_update_beyond)
    then show ?case using Cons.IH by simp
  qed
qed

lemma alloc_bc_2_lsum_simps:
  "length h \<le> length (alloc_bc_2_lsum E nrhs L ljb h)"
  "a < length h \<Longrightarrow> alloc_bc_2_lsum E nrhs L ljb h ! a = h ! a"
  by (simp_all add: alloc_bc_2_lsum_def Let_def intMalloc_dist_def malloc_simps)

lemma fold_alloc_bc_2_lsum:
  "length h \<le> length (fold (alloc_bc_2_lsum E nrhs L) ks h) \<and>
   (\<forall>a<length h. fold (alloc_bc_2_lsum E nrhs L) ks h ! a = h ! a)"
proof (induction ks arbitrary: h)
  case Nil then show ?case by simp
next
  case (Cons k ks)
  have l: "length h \<le> length (alloc_bc_2_lsum E nrhs L k h)"
    by (rule alloc_bc_2_lsum_simps)
  from Cons[of "alloc_bc_2_lsum E nrhs L k h"] l
  show ?case by (auto simp: alloc_bc_2_lsum_simps(2))
qed

lemma alloc_Ucb_simps:
  "length (fst acc) \<le> length (fst (alloc_Ucb E lb acc))"
  "a < length (fst acc) \<Longrightarrow> fst (alloc_Ucb E lb acc) ! a = fst acc ! a"
  "\<forall>p\<in>set (snd acc). p < length (fst acc) \<and> M \<le> p \<Longrightarrow> M \<le> length (fst acc) \<Longrightarrow>
     \<forall>p\<in>set (snd (alloc_Ucb E lb acc)). p < length (fst (alloc_Ucb E lb acc)) \<and> M \<le> p"
  by (auto simp: alloc_Ucb_def intMalloc_dist_def SUPERLU_MALLOC_def nth_append)

lemma fold_alloc_Ucb:
  "\<forall>p\<in>set (snd acc). p < length (fst acc) \<and> M \<le> p \<Longrightarrow> M \<le> length (fst acc) \<Longrightarrow>
   length (fst acc) \<le> length (fst (fold (alloc_Ucb E) ks acc)) \<and>
   (\<forall>a<length (fst acc). fst (fold (alloc_Ucb E) ks acc) ! a = fst acc ! a) \<and>
   (\<forall>p\<in>set (snd (fold (alloc_Ucb E) ks acc)).
       p < length (fst (fold (alloc_Ucb E) ks acc)) \<and> M \<le> p)"
proof (induction ks arbitrary: acc)
  case Nil then show ?case by simp
next
  case (Cons k ks)
  let ?a1 = "alloc_Ucb E k acc"
  have 1: "\<forall>p\<in>set (snd ?a1). p < length (fst ?a1) \<and> M \<le> p"
    using alloc_Ucb_simps(3)[OF Cons.prems] .
  have l: "length (fst acc) \<le> length (fst ?a1)" by (rule alloc_Ucb_simps)
  have 2: "M \<le> length (fst ?a1)" using l Cons.prems(2) by simp
  from Cons.IH[OF 1 2] l
  show ?case by (auto simp: alloc_Ucb_simps(2))
qed


lemma fold_bc_nth:
  "a < length h \<Longrightarrow> fold (alloc_bc_2_lsum E nrhs L) ks h ! a = h ! a"
  using fold_alloc_bc_2_lsum[of h E nrhs L ks] by simp

lemma fold_bc_less:
  "a < length h \<Longrightarrow> a < length (fold (alloc_bc_2_lsum E nrhs L) ks h)"
  using fold_alloc_bc_2_lsum[of h E nrhs L ks] by simp

lemmas heap_defs = intMalloc_dist_def intCalloc_dist_def doubleMalloc_dist_def
  doubleCalloc_dist_def SUPERLU_MALLOC_def

lemma forward_allocs_props:
  assumes "forward_allocs E ns nrhs L h = (fmod_a, frecv_a, fr, h')"
  shows "Suc (length h) < length h'"
    and "a < length h \<Longrightarrow> h' ! a = h ! a"
    and "fmod_a = length h" and "frecv_a = Suc (length h)"
    and "Suc (length h) < send_req_p fr \<and> Suc (length h) < lsum_p fr \<and>
         Suc (length h) < x_p fr \<and> Suc (length h) < recvbuf_p fr \<and>
         Suc (length h) < rtemp_p fr"
proof -
  show "Suc (length h) < length h'"
    using assms
    by (auto simp: forward_allocs_def Let_def heap_defs store_simps
        intro!: fold_bc_less less_SucI split: prod.splits)
  show "a < length h \<Longrightarrow> h' ! a = h ! a"
    using assms
    by (auto simp: forward_allocs_def Let_def heap_defs store_simps nth_append
        fold_bc_nth fold_bc_less split: prod.splits)
  show "fmod_a = length h" "frecv_a = Suc (length h)"
    using assms
    by (auto simp: forward_allocs_def Let_def heap_defs store_simps split: prod.splits)
  show "Suc (length h) < send_req_p fr \<and> Suc (length h) < lsum_p fr \<and>
         Suc (length h) < x_p fr \<and> Suc (length h) < recvbuf_p fr \<and>
         Suc (length h) < rtemp_p fr"
    using assms
    by (auto simp: forward_allocs_def Let_def heap_defs store_simps split: prod.splits)
qed

lemma forward_allocs_last:
  assumes "forward_allocs E ns nrhs L h = (fmod_a, frecv_a, fr, h')"
  shows "last h' = Some \<lparr>cname = ''recvbuf_BC_fwd'',
                          content = Doubles (recvbuf_BC_fwd_size (int_t_bits E)
                            (sp_ienv_3 E * nrhs + max (XK_H E) (LSUM_H E)) (Llu_nfrecvx L))\<rparr>"
  using assms
  by (auto simp: forward_allocs_def Let_def heap_defs split: prod.splits)

lemma wrap_signed_fits:
  "0 < w \<Longrightarrow> 0 \<le> v \<Longrightarrow> v < 2 ^ (w - 1) \<Longrightarrow> wrap_signed w v = v"
proof -
  assume w: "0 < w" and v: "0 \<le> v" "v < 2 ^ (w - 1)"
  have "(2::int) ^ w = 2 * 2 ^ (w - 1)" using w by (cases w) simp_all
  then have "0 \<le> v + 2 ^ (w - 1)" "v + 2 ^ (w - 1) < 2 ^ w" using v by simp_all
  then have "(v + 2 ^ (w - 1)) mod 2 ^ w = v + 2 ^ (w - 1)" by simp
  then show ?thesis by (simp add: wrap_signed_def)
qed

text \<open>
  When the product fits \<^verbatim>\<open>int_t\<close> the buffer has the size meant for it, and on
  the expected messages every receive of the service loop, entered as
  \<^verbatim>\<open>pdgstrs\<close> enters it, ends within the buffer.
\<close>

lemma recv_in_bounds_without_wrap:
  assumes e: "expected C (lsweep_start C fmod0) pre"
    and w: "0 < w" and fit: "int (maxrecvsz C) * (Llu_nfrecvx (Llu C) + 1) < 2 ^ (w - 1)"
  shows "list_all (\<lambda>off. off + maxrecvsz C
                    \<le> recvbuf_BC_fwd_size w (maxrecvsz C) (Llu_nfrecvx (Llu C)))
           (recv_offsets (trace (foldl (lsweep_step C) (lsweep_start C fmod0) pre)))"
proof -
  let ?st = "lsweep_start C fmod0"
  note z = lsweep_start_zero[of C fmod0]
  have n: "0 \<le> Llu_nfrecvx (Llu C)" using expected_nonneg[OF e] z by simp
  have "wrap_signed w (int (maxrecvsz C) * (Llu_nfrecvx (Llu C) + 1))
          = int (maxrecvsz C) * (Llu_nfrecvx (Llu C) + 1)"
    using n by (intro wrap_signed_fits[OF w _ fit]) simp
  then have sz: "recvbuf_BC_fwd_size w (maxrecvsz C) (Llu_nfrecvx (Llu C))
          = maxrecvsz C * (nat (Llu_nfrecvx (Llu C)) + 1)"
    using n by (simp add: recvbuf_BC_fwd_size_def nat_mult_distrib nat_add_distrib)
  have "list_all (\<lambda>off. off + maxrecvsz C \<le> maxrecvsz C * (nat (nfrecvx ?st) + 1))
           (recv_offsets (trace (foldl (lsweep_step C) ?st pre)))"
    using recv_within_intended_size[OF e, of "length pre" "[]"] z by simp
  then show ?thesis using z by (simp add: sz)
qed

lemma forward_part_frame:
  assumes "forward_part E n nrhs s ms = Some (fr, s', rest)"
  shows "length (heap s) < length (heap s')"
    and "a < length (heap s) \<Longrightarrow> heap s' ! a = heap s ! a"
    and "length (heap s) < send_req_p fr \<and> length (heap s) < lsum_p fr \<and>
         length (heap s) < x_p fr \<and> length (heap s) < recvbuf_p fr \<and>
         length (heap s) < rtemp_p fr"
    and "fmod_loc s' = length (heap s)" and "heap s' ! fmod_loc s' = None"
    and "pLlu s' = (pLlu s)\<lparr>SolveMsgSent := 0, Llu_frecv := Suc (length (heap s))\<rparr>"
    and "info s' = info s" and "bmod_loc s' = bmod_loc s"
proof -
  let ?ns = "supno (env_Glu E) ! (n - 1) + 1"
  let ?L1 = "(pLlu s)\<lparr>SolveMsgSent := 0\<rparr>"
  obtain fmod_a frecv_a fr0 h18 where
    al: "forward_allocs E ?ns nrhs ?L1 (heap s) = (fmod_a, frecv_a, fr0, h18)"
    by (metis prod_cases4)
  note p = forward_allocs_props[OF al]
  note defs = forward_part_def Let_def free_simps store_simps
  show "length (heap s) < length (heap s')"
    using assms al p(1) by (auto simp: defs split: option.splits)
  show "a < length (heap s) \<Longrightarrow> heap s' ! a = heap s ! a"
    using assms al p(2)[of a] p(3,4) by (auto simp: defs split: option.splits)
  show "length (heap s) < send_req_p fr \<and> length (heap s) < lsum_p fr \<and>
         length (heap s) < x_p fr \<and> length (heap s) < recvbuf_p fr \<and>
         length (heap s) < rtemp_p fr"
    using assms al p(5) by (auto simp: defs split: option.splits)
  show "fmod_loc s' = length (heap s)"
    using assms al p(3) by (auto simp: defs split: option.splits)
  show "heap s' ! fmod_loc s' = None"
    using assms al p(1,3,4) by (auto simp: defs split: option.splits)
  show "pLlu s' = (pLlu s)\<lparr>SolveMsgSent := 0, Llu_frecv := Suc (length (heap s))\<rparr>"
    using assms al p(4) by (auto simp: defs split: option.splits)
  show "info s' = info s" "bmod_loc s' = bmod_loc s"
    using assms al by (auto simp: defs split: option.splits)
qed


lemma free_None: "h ! a = None \<Longrightarrow> SUPERLU_FREE p h ! a = None"
  by (cases "a = p"; cases "p < length h") (simp_all add: SUPERLU_FREE_def list_update_beyond)

lemma fold_Ucb_from:
  assumes "fold (alloc_Ucb E) ks (H, []) = (h9, rows)"
  shows "length H \<le> length h9" and "\<And>a. a < length H \<Longrightarrow> h9 ! a = H ! a"
    and "\<And>p. p \<in> set rows \<Longrightarrow> length H \<le> p"
  using fold_alloc_Ucb[of "(H, [])" "length H" E ks] assms by auto

lemma backward_allocs_props:
  assumes "backward_allocs E ns L h = (B, h')"
  shows "Suc (length h) < length h'"
    and "a < length h \<Longrightarrow> a \<noteq> Llu_mod_bit L \<Longrightarrow> h' ! a = h ! a"
    and "bmod_a B = length h" and "brecv_a B = Suc (length h)"
    and "length h \<le> Urbs_a B \<and> length h \<le> Ucb_indptr_a B \<and> length h \<le> Ucb_valptr_a B"
    and "\<forall>p\<in>set (Ucb_rows B). length h \<le> p"
    and "Llu_bmod L < length h \<Longrightarrow> Llu_mod_bit L < length h \<Longrightarrow>
         ints h' (bmod_a B) =
           map (\<lambda>i. ints h (Llu_bmod L) ! i) [0..<CEILING ns (nprow (env_grid E))]"
    and "Llu_bmod L < length h \<Longrightarrow> Llu_mod_bit L < length h \<Longrightarrow>
         ints h' (brecv_a B) =
           MPI_Allreduce_SUM
             (\<lambda>c. if c = MYCOL (iam (env_grid E)) (env_grid E)
                  then set_mod_bit (env_grid E) ns
                         (map (\<lambda>i. ints h (Llu_bmod L) ! i) [0..<CEILING ns (nprow (env_grid E))])
                         (clear_mod_bit (CEILING ns (nprow (env_grid E))) (ints h (Llu_mod_bit L)))
                  else row_mod_bits E c)
             (CEILING ns (nprow (env_grid E))) (npcol (env_grid E))"
proof -
  let ?g = "env_grid E"
  let ?nlb = "CEILING ns (nprow ?g)"
  let ?nub = "CEILING ns (npcol ?g)"
  define h1 where "h1 = snd (intMalloc_dist ''bmod'' ?nlb h)"
  define bmod0 where "bmod0 = map (\<lambda>i. ints h1 (Llu_bmod L) ! i) [0..<?nlb]"
  define h2 where "h2 = store_ints (length h) bmod0 h1"
  define h3 where "h3 = snd (intMalloc_dist ''brecv'' ?nlb h2)"
  define mod_bit where
    "mod_bit = set_mod_bit ?g ns bmod0 (clear_mod_bit ?nlb (ints h3 (Llu_mod_bit L)))"
  define h4 where "h4 = store_ints (Llu_mod_bit L) mod_bit h3"
  define brecv0 where
    "brecv0 = MPI_Allreduce_SUM
                (\<lambda>c. if c = MYCOL (iam ?g) ?g then mod_bit else row_mod_bits E c) ?nlb (npcol ?g)"
  define h5 where "h5 = store_ints (Suc (length h)) brecv0 h4"
  define h8 where "h8 = h5 @ [Some \<lparr>cname = ''Urbs'', content = Ints (replicate (2 * ?nub) 0)\<rparr>,
                             Some \<lparr>cname = ''Ucb_indptr'', content = Opaque ?nub\<rparr>,
                             Some \<lparr>cname = ''Ucb_valptr'', content = Opaque ?nub\<rparr>]"
  obtain h9 rows where r: "fold (alloc_Ucb E) [0..<?nub] (h8, []) = (h9, rows)"
    by (cases "fold (alloc_Ucb E) [0..<?nub] (h8, [])") blast
  note f = fold_Ucb_from[OF r]
  have l1: "length h1 = Suc (length h)" by (simp add: h1_def heap_defs)
  have l5: "length h5 = Suc (Suc (length h))"
    by (simp add: h5_def h4_def h3_def h2_def l1 heap_defs store_simps)
  have l8: "length h8 = length h + 5" by (simp add: h8_def l5)
  have eq: "backward_allocs E ns L h =
      (\<lparr>bmod_a = length h, brecv_a = Suc (length h), Urbs_a = Suc (Suc (length h)),
        Ucb_indptr_a = length h + 3, Ucb_valptr_a = length h + 4, Ucb_rows = rows\<rparr>, h9)"
    using r unfolding h8_def h5_def brecv0_def h4_def mod_bit_def h3_def h2_def bmod0_def h1_def
      backward_allocs_def Let_def heap_defs snd_conv fst_conv
    by (simp add: store_simps(1))
  have B: "B = \<lparr>bmod_a = length h, brecv_a = Suc (length h), Urbs_a = Suc (Suc (length h)),
        Ucb_indptr_a = length h + 3, Ucb_valptr_a = length h + 4, Ucb_rows = rows\<rparr>"
    and h': "h' = h9" using assms eq by simp_all
  show "Suc (length h) < length h'" using f(1) l8 h' by simp
  show "bmod_a B = length h" "brecv_a B = Suc (length h)" by (simp_all add: B)
  show "length h \<le> Urbs_a B \<and> length h \<le> Ucb_indptr_a B \<and> length h \<le> Ucb_valptr_a B"
    by (simp add: B)
  show "\<forall>p\<in>set (Ucb_rows B). length h \<le> p" using f(3) l8 by (fastforce simp: B)
  show "h' ! a = h ! a" if a: "a < length h" "a \<noteq> Llu_mod_bit L"
  proof -
    have "h9 ! a = h8 ! a" using f(2)[of a] a l8 by simp
    also have "\<dots> = h5 ! a" using a l5 by (simp add: h8_def nth_append)
    also have "\<dots> = h ! a"
      using a by (simp add: h5_def h4_def h3_def h2_def h1_def heap_defs store_simps nth_append l1)
    finally show ?thesis by (simp add: h')
  qed
  have h1n: "h1 ! length h = Some \<lparr>cname = ''bmod'', content = Ints (replicate ?nlb 0)\<rparr>"
    by (simp add: h1_def heap_defs)
  have h2n: "h2 ! length h = Some \<lparr>cname = ''bmod'', content = Ints bmod0\<rparr>"
    using h1n l1 by (simp add: h2_def store_ints_def)
  have l2: "length h2 = Suc (length h)" by (simp add: h2_def store_simps l1)
  have h3n: "h3 ! length h = h2 ! length h"
    "h3 ! Suc (length h) = Some \<lparr>cname = ''brecv'', content = Ints (replicate ?nlb 0)\<rparr>"
    using l2 by (simp_all add: h3_def heap_defs nth_append)
  have l4: "length h4 = Suc (Suc (length h))"
    by (simp add: h4_def h3_def heap_defs store_simps l2)
  have up: "h9 ! a = h5 ! a" if "a < Suc (Suc (length h))" for a
  proof -
    have "h9 ! a = h8 ! a" using f(2)[of a] that l8 by simp
    then show ?thesis using that l5 by (simp add: h8_def nth_append)
  qed
  have b0: "bmod0 = map (\<lambda>i. ints h (Llu_bmod L) ! i) [0..<?nlb]" if "Llu_bmod L < length h"
    using that by (simp add: bmod0_def h1_def heap_defs ints_def nth_append)
  have m0: "ints h3 (Llu_mod_bit L) = ints h (Llu_mod_bit L)" if "Llu_mod_bit L < length h"
    using that
    by (simp add: h3_def h2_def h1_def heap_defs ints_def nth_append store_simps)
  have h5a: "h5 ! length h = h2 ! length h" if "Llu_mod_bit L < length h"
    using that by (simp add: h5_def h4_def store_simps h3n)
  have h5b: "h5 ! Suc (length h) = Some \<lparr>cname = ''brecv'', content = Ints brecv0\<rparr>"
    if "Llu_mod_bit L < length h"
  proof -
    have "h4 ! Suc (length h) = h3 ! Suc (length h)"
      using that by (simp add: h4_def store_simps)
    then show ?thesis using h3n(2) l4 by (simp add: h5_def store_ints_def)
  qed
  show "ints h' (bmod_a B) = map (\<lambda>i. ints h (Llu_bmod L) ! i) [0..<?nlb]"
    if b: "Llu_bmod L < length h" "Llu_mod_bit L < length h"
  proof -
    have "h9 ! length h = Some \<lparr>cname = ''bmod'', content = Ints bmod0\<rparr>"
      using up[of "length h"] h2n h5a[OF b(2)] by simp
    then show ?thesis by (simp add: h' B ints_def b0[OF b(1)])
  qed
  show "ints h' (brecv_a B) =
           MPI_Allreduce_SUM
             (\<lambda>c. if c = MYCOL (iam ?g) ?g
                  then set_mod_bit ?g ns
                         (map (\<lambda>i. ints h (Llu_bmod L) ! i) [0..<?nlb])
                         (clear_mod_bit ?nlb (ints h (Llu_mod_bit L)))
                  else row_mod_bits E c)
             ?nlb (npcol ?g)"
    if b: "Llu_bmod L < length h" "Llu_mod_bit L < length h"
  proof -
    have "h9 ! Suc (length h) = Some \<lparr>cname = ''brecv'', content = Ints brecv0\<rparr>"
      using up[of "Suc (length h)"] h5b[OF b(2)] by simp
    then have "ints h' (brecv_a B) = brecv0" by (simp add: h' B ints_def)
    then show ?thesis
      unfolding brecv0_def mod_bit_def m0[OF b(2)] b0[OF b(1)] .
  qed
qed

lemma backward_part_frame:
  assumes "backward_part E n nrhs fr s ms = Some (s', rest)"
    and "M \<le> length (heap s)"
    and "M \<le> send_req_p fr" "M \<le> lsum_p fr" "M \<le> x_p fr" "M \<le> recvbuf_p fr" "M \<le> rtemp_p fr"
  shows "a < M \<Longrightarrow> a \<noteq> Llu_mod_bit (pLlu s) \<Longrightarrow> heap s' ! a = heap s ! a"
    and "bmod_loc s' = length (heap s)" and "heap s' ! bmod_loc s' = None"
    and "Llu_fmod (pLlu s') = Llu_fmod (pLlu s)" and "Llu_bmod (pLlu s') = Llu_bmod (pLlu s)"
    and "Llu_mod_bit (pLlu s') = Llu_mod_bit (pLlu s)"
    and "info s' = info s" and "fmod_loc s' = fmod_loc s"
proof -
  let ?ns = "supno (env_Glu E) ! (n - 1) + 1"
  obtain B h9 where al: "backward_allocs E ?ns (pLlu s) (heap s) = (B, h9)"
    by (cases "backward_allocs E ?ns (pLlu s) (heap s)") blast
  note p = backward_allocs_props[OF al]
  note defs = backward_part_def Let_def
  let ?mx = "sp_ienv_3 E * nrhs + max (XK_H E) (LSUM_H E)"
  let ?L3 = "(pLlu s)\<lparr>Llu_brecv := brecv_a B\<rparr>"
  let ?C = "mk_ctx E ?ns ?mx ?L3"
  let ?u1 = "usweep_roots ?C (usweep_start ?C (ints h9 (bmod_a B)) (ints h9 (brecv_a B)))"
  obtain u2 where lp: "usweep_loop ?C ?u1 ms = Some (u2, rest)"
    using assms(1) al by (auto simp: defs split: option.splits)
  define h10 where "h10 = store_ints (brecv_a B) (brecv u2) (store_ints (bmod_a B) (bmod u2) h9)"
  define h11 where "h11 = SUPERLU_FREE (recvbuf_p fr) (SUPERLU_FREE (x_p fr)
                            (SUPERLU_FREE (lsum_p fr) (SUPERLU_FREE (rtemp_p fr) h10)))"
  define h12 where "h12 = fold SUPERLU_FREE (Ucb_rows B) h11"
  define h12b where "h12b = SUPERLU_FREE (Urbs_a B) (SUPERLU_FREE (Ucb_valptr_a B)
                              (SUPERLU_FREE (Ucb_indptr_a B) h12))"
  define h13 where "h13 = SUPERLU_FREE (bmod_a B) h12b"
  define h14 where "h14 = SUPERLU_FREE (send_req_p fr) (SUPERLU_FREE (brecv_a B) h13)"
  have s': "s' = s\<lparr>heap := h14, pLlu := ?L3\<lparr>SolveMsgSent := msgsent u2\<rparr>, bmod_loc := bmod_a B,
                   ptrace := ptrace s @ utrace u2 @ [ReDistribute_X_to_B]
                     @ map MPI_Wait [0..<nat (msgsent u2)] @ [MPI_Barrier]\<rparr>"
    using assms(1) al lp
    by (simp add: defs h10_def h11_def h12_def h12b_def h13_def h14_def)
  show "bmod_loc s' = length (heap s)" by (simp add: s' p(3))
  show "Llu_fmod (pLlu s') = Llu_fmod (pLlu s)" "Llu_bmod (pLlu s') = Llu_bmod (pLlu s)"
    "Llu_mod_bit (pLlu s') = Llu_mod_bit (pLlu s)" "info s' = info s" "fmod_loc s' = fmod_loc s"
    by (simp_all add: s')
  have len: "length h12b = length h9"
    by (simp add: h12b_def h12_def h11_def h10_def free_simps fold_free_simps store_simps)
  have "h13 ! bmod_a B = None"
    unfolding h13_def using len p(1,3) by (simp add: free_simps)
  then have "h14 ! bmod_a B = None" unfolding h14_def by (intro free_None)
  then show "heap s' ! bmod_loc s' = None" by (simp add: s')
  have low: "h14 ! a = h9 ! a" if "a < M" for a
  proof -
    have ne: "a \<noteq> recvbuf_p fr" "a \<noteq> x_p fr" "a \<noteq> lsum_p fr" "a \<noteq> rtemp_p fr"
      "a \<noteq> send_req_p fr" "a \<noteq> bmod_a B" "a \<noteq> brecv_a B" "a \<noteq> Urbs_a B"
      "a \<noteq> Ucb_valptr_a B" "a \<noteq> Ucb_indptr_a B"
      using that assms(2-) p(3,4,5) by auto
    have nr: "a \<notin> set (Ucb_rows B)" using p(6) that assms(2) by auto
    show ?thesis
      using ne nr
      by (simp add: h14_def h13_def h12b_def h12_def h11_def h10_def free_simps
          fold_free_simps store_simps)
  qed
  show "heap s' ! a = heap s ! a" if "a < M" "a \<noteq> Llu_mod_bit (pLlu s)"
    using low[OF that(1)] p(2)[of a] that assms(2) by (simp add: s')
qed


lemma pdgstrs_entry_simps:
  "heap (pdgstrs_entry E s) = heap s @ [Some \<lparr>cname = ''msgcnt'', content = Ints (replicate 4 0)\<rparr>]"
  "pLlu (pdgstrs_entry E s) = pLlu s"
  "fmod_loc (pdgstrs_entry E s) = fmod_loc s"
  "bmod_loc (pdgstrs_entry E s) = bmod_loc s"
  "ptrace (pdgstrs_entry E s) =
     ptrace s @ (if iam_before_init E = 0 then [Printf ''num_thread''] else []) @ [MPI_Barrier]"
  by (simp_all add: pdgstrs_entry_def SUPERLU_MALLOC_def)

lemma test_input_simps:
  "n < 0 \<Longrightarrow> test_input n nrhs = - 1"
  "0 \<le> n \<Longrightarrow> nrhs < 0 \<Longrightarrow> test_input n nrhs = - 9"
  "0 \<le> n \<Longrightarrow> 0 \<le> nrhs \<Longrightarrow> test_input n nrhs = 0"
  by (simp_all add: test_input_def)

lemma pdgstrs_illegal:
  assumes "n < 0 \<or> nrhs < 0"
  shows "pdgstrs E n nrhs s ms =
    Some (s\<lparr>heap := heap s @ [Some \<lparr>cname = ''msgcnt'', content = Ints (replicate 4 0)\<rparr>],
            info := (if n < 0 then - 1 else - 9),
            ptrace := ptrace s
              @ (if iam_before_init E = 0 then [Printf ''num_thread''] else [])
              @ [MPI_Barrier, pxerr_dist ''PDGSTRS'' (if n < 0 then 1 else 9)]\<rparr>, ms)"
  using assms
  by (auto simp: pdgstrs_def Let_def test_input_def pdgstrs_entry_def SUPERLU_MALLOC_def)

lemma pdgstrs_legal:
  assumes "pdgstrs E n nrhs s ms = Some (s', rest)" and "0 \<le> n" "0 \<le> nrhs"
  shows "\<exists>fr s3 ms1.
           forward_part E (nat n) (nat nrhs) ((pdgstrs_entry E s)\<lparr>info := 0\<rparr>) ms
             = Some (fr, s3, ms1) \<and>
           backward_part E (nat n) (nat nrhs) fr s3 ms1 = Some (s', rest)"
  using assms
  by (auto simp: pdgstrs_def Let_def test_input_def split: if_splits option.splits)

lemma pdgstrs_frame:
  assumes r: "pdgstrs E n nrhs s ms = Some (s', rest)" and n: "0 \<le> n" "0 \<le> nrhs"
    and mb: "Llu_mod_bit (pLlu s) < length (heap s)"
  shows "a < length (heap s) \<Longrightarrow> a \<noteq> Llu_mod_bit (pLlu s) \<Longrightarrow> heap s' ! a = heap s ! a"
    and "fmod_loc s' = Suc (length (heap s))" and "heap s' ! fmod_loc s' = None"
    and "Suc (length (heap s)) < bmod_loc s'" and "heap s' ! bmod_loc s' = None"
    and "Llu_fmod (pLlu s') = Llu_fmod (pLlu s)" and "Llu_bmod (pLlu s') = Llu_bmod (pLlu s)"
    and "info s' = 0"
proof -
  let ?s2 = "(pdgstrs_entry E s)\<lparr>info := 0\<rparr>"
  obtain fr s3 ms1 where
    f: "forward_part E (nat n) (nat nrhs) ?s2 ms = Some (fr, s3, ms1)" and
    b: "backward_part E (nat n) (nat nrhs) fr s3 ms1 = Some (s', rest)"
    using pdgstrs_legal[OF r n] by blast
  have l2: "length (heap ?s2) = Suc (length (heap s))" by (simp add: pdgstrs_entry_simps)
  note F = forward_part_frame[OF f]
  have M: "Suc (length (heap ?s2)) \<le> length (heap s3)" using F(1) by simp
  have P: "Suc (length (heap ?s2)) \<le> send_req_p fr" "Suc (length (heap ?s2)) \<le> lsum_p fr"
    "Suc (length (heap ?s2)) \<le> x_p fr" "Suc (length (heap ?s2)) \<le> recvbuf_p fr"
    "Suc (length (heap ?s2)) \<le> rtemp_p fr"
    using F(3) by simp_all
  note B = backward_part_frame[OF b M P]
  have mb3: "Llu_mod_bit (pLlu s3) = Llu_mod_bit (pLlu s)"
    by (simp add: F(6) pdgstrs_entry_simps)
  show "heap s' ! a = heap s ! a" if a: "a < length (heap s)" "a \<noteq> Llu_mod_bit (pLlu s)"
  proof -
    have "heap s' ! a = heap s3 ! a" using B(1)[of a] a l2 mb3 by simp
    also have "\<dots> = heap ?s2 ! a" using F(2)[of a] a l2 by simp
    also have "\<dots> = heap s ! a" using a by (simp add: pdgstrs_entry_simps nth_append)
    finally show ?thesis .
  qed
  have fl: "fmod_loc s3 = Suc (length (heap s))" using F(4) l2 by simp
  show "fmod_loc s' = Suc (length (heap s))" using B(8) fl by simp
  have "heap s' ! fmod_loc s3 = heap s3 ! fmod_loc s3"
    using B(1)[of "fmod_loc s3"] fl l2 mb mb3 by simp
  then show "heap s' ! fmod_loc s' = None" using F(5) B(8) by simp
  show "Suc (length (heap s)) < bmod_loc s'" using B(2) F(1) l2 by simp
  show "heap s' ! bmod_loc s' = None" by (rule B(3))
  show "Llu_fmod (pLlu s') = Llu_fmod (pLlu s)" "Llu_bmod (pLlu s') = Llu_bmod (pLlu s)"
    by (simp_all add: B(4,5) F(6) pdgstrs_entry_simps)
  show "info s' = 0" using B(7) F(7) by simp
qed

lemma forward_allocs_copy:
  assumes "forward_allocs E ns nrhs L h = (fmod_a, frecv_a, fr, h')"
    and "Llu_fmod L < length h"
  shows "ints h' fmod_a =
           map (\<lambda>i. ints h (Llu_fmod L) ! i) [0..<CEILING ns (nprow (env_grid E))]"
  using assms
  by (auto simp: forward_allocs_def Let_def heap_defs store_simps nth_append ints_def
      store_ints_def fold_bc_nth fold_bc_less split: prod.splits)


subsection \<open>When the call returns\<close>

text \<open>
  The sweeps start from the copies of the templates.  The two addresses that
  the call stores into \<^verbatim>\<open>Llu->frecv\<close> and \<^verbatim>\<open>Llu->brecv\<close> are arbitrary in the
  premises: the sweeps do not read them.
\<close>

lemma ints_cong: "h' ! p = h ! p \<Longrightarrow> ints h' p = ints h p"
  by (simp add: ints_def)

lemma forward_part_returns:
  assumes fm: "Llu_fmod (pLlu s) < length (heap s)"
    and run: "\<And>a. \<exists>st'.
      lsweep_finish
        (mk_ctx E (supno (env_Glu E) ! (n - 1) + 1)
           (sp_ienv_3 E * nrhs + max (XK_H E) (LSUM_H E))
           ((pLlu s)\<lparr>SolveMsgSent := 0, Llu_frecv := a\<rparr>))
        (lsweep_start
           (mk_ctx E (supno (env_Glu E) ! (n - 1) + 1)
              (sp_ienv_3 E * nrhs + max (XK_H E) (LSUM_H E))
              ((pLlu s)\<lparr>SolveMsgSent := 0, Llu_frecv := a\<rparr>))
           (map (\<lambda>i. ints (heap s) (Llu_fmod (pLlu s)) ! i)
              [0..<CEILING (supno (env_Glu E) ! (n - 1) + 1) (nprow (env_grid E))]))
        ms = Some (st', ms1)"
  shows "\<exists>fr s3. forward_part E n nrhs s ms = Some (fr, s3, ms1)"
proof -
  let ?ns = "supno (env_Glu E) ! (n - 1) + 1"
  let ?L1 = "(pLlu s)\<lparr>SolveMsgSent := 0\<rparr>"
  obtain fmod_a frecv_a fr0 h18 where
    al: "forward_allocs E ?ns nrhs ?L1 (heap s) = (fmod_a, frecv_a, fr0, h18)"
    by (metis prod_cases4)
  have c: "ints h18 fmod_a =
      map (\<lambda>i. ints (heap s) (Llu_fmod (pLlu s)) ! i) [0..<CEILING ?ns (nprow (env_grid E))]"
    using forward_allocs_copy[OF al] fm by simp
  obtain st' where "lsweep_finish
        (mk_ctx E ?ns (sp_ienv_3 E * nrhs + max (XK_H E) (LSUM_H E))
           ((pLlu s)\<lparr>SolveMsgSent := 0, Llu_frecv := frecv_a\<rparr>))
        (lsweep_start
           (mk_ctx E ?ns (sp_ienv_3 E * nrhs + max (XK_H E) (LSUM_H E))
              ((pLlu s)\<lparr>SolveMsgSent := 0, Llu_frecv := frecv_a\<rparr>))
           (ints h18 fmod_a))
        ms = Some (st', ms1)"
    using run[of frecv_a] unfolding c by blast
  then show ?thesis using al by (simp add: forward_part_def Let_def)
qed

lemma backward_part_returns:
  assumes bm: "Llu_bmod (pLlu s) < length (heap s)"
    and mb: "Llu_mod_bit (pLlu s) < length (heap s)"
    and run: "\<And>b.
      usweep_loop
        (mk_ctx E (supno (env_Glu E) ! (n - 1) + 1)
           (sp_ienv_3 E * nrhs + max (XK_H E) (LSUM_H E))
           ((pLlu s)\<lparr>Llu_brecv := b\<rparr>))
        (usweep_roots
           (mk_ctx E (supno (env_Glu E) ! (n - 1) + 1)
              (sp_ienv_3 E * nrhs + max (XK_H E) (LSUM_H E))
              ((pLlu s)\<lparr>Llu_brecv := b\<rparr>))
           (usweep_start
              (mk_ctx E (supno (env_Glu E) ! (n - 1) + 1)
                 (sp_ienv_3 E * nrhs + max (XK_H E) (LSUM_H E))
                 ((pLlu s)\<lparr>Llu_brecv := b\<rparr>))
              (map (\<lambda>i. ints (heap s) (Llu_bmod (pLlu s)) ! i)
                 [0..<CEILING (supno (env_Glu E) ! (n - 1) + 1) (nprow (env_grid E))])
              (MPI_Allreduce_SUM
                 (\<lambda>c. if c = MYCOL (iam (env_grid E)) (env_grid E)
                      then set_mod_bit (env_grid E) (supno (env_Glu E) ! (n - 1) + 1)
                             (map (\<lambda>i. ints (heap s) (Llu_bmod (pLlu s)) ! i)
                                [0..<CEILING (supno (env_Glu E) ! (n - 1) + 1)
                                       (nprow (env_grid E))])
                             (clear_mod_bit
                                (CEILING (supno (env_Glu E) ! (n - 1) + 1) (nprow (env_grid E)))
                                (ints (heap s) (Llu_mod_bit (pLlu s))))
                      else row_mod_bits E c)
                 (CEILING (supno (env_Glu E) ! (n - 1) + 1) (nprow (env_grid E)))
                 (npcol (env_grid E)))))
        ms \<noteq> None"
  shows "\<exists>s' rest. backward_part E n nrhs fr s ms = Some (s', rest)"
proof -
  let ?ns = "supno (env_Glu E) ! (n - 1) + 1"
  obtain B h9 where al: "backward_allocs E ?ns (pLlu s) (heap s) = (B, h9)"
    by (cases "backward_allocs E ?ns (pLlu s) (heap s)") blast
  note p = backward_allocs_props[OF al]
  note c = p(7)[OF bm mb] p(8)[OF bm mb]
  from run[of "brecv_a B"] obtain u2 rest where
    "usweep_loop
        (mk_ctx E ?ns (sp_ienv_3 E * nrhs + max (XK_H E) (LSUM_H E))
           ((pLlu s)\<lparr>Llu_brecv := brecv_a B\<rparr>))
        (usweep_roots
           (mk_ctx E ?ns (sp_ienv_3 E * nrhs + max (XK_H E) (LSUM_H E))
              ((pLlu s)\<lparr>Llu_brecv := brecv_a B\<rparr>))
           (usweep_start
              (mk_ctx E ?ns (sp_ienv_3 E * nrhs + max (XK_H E) (LSUM_H E))
                 ((pLlu s)\<lparr>Llu_brecv := brecv_a B\<rparr>))
              (ints h9 (bmod_a B)) (ints h9 (brecv_a B))))
        ms = Some (u2, rest)"
    unfolding c by fastforce
  then show ?thesis using al by (simp add: backward_part_def Let_def)
qed

lemma pdgstrs_returns:
  assumes n: "0 < n" "0 \<le> nrhs"
    and fm: "Llu_fmod (pLlu s) < length (heap s)"
    and bm: "Llu_bmod (pLlu s) < length (heap s)"
    and mb: "Llu_mod_bit (pLlu s) < length (heap s)"
    and frun: "\<And>a. \<exists>st'.
      lsweep_finish
        (mk_ctx E (supno (env_Glu E) ! (nat n - 1) + 1)
           (sp_ienv_3 E * nat nrhs + max (XK_H E) (LSUM_H E))
           ((pLlu s)\<lparr>SolveMsgSent := 0, Llu_frecv := a\<rparr>))
        (lsweep_start
           (mk_ctx E (supno (env_Glu E) ! (nat n - 1) + 1)
              (sp_ienv_3 E * nat nrhs + max (XK_H E) (LSUM_H E))
              ((pLlu s)\<lparr>SolveMsgSent := 0, Llu_frecv := a\<rparr>))
           (map (\<lambda>i. ints (heap s) (Llu_fmod (pLlu s)) ! i)
              [0..<CEILING (supno (env_Glu E) ! (nat n - 1) + 1) (nprow (env_grid E))]))
        ms = Some (st', ms1)"
    and brun: "\<And>a b.
      usweep_loop
        (mk_ctx E (supno (env_Glu E) ! (nat n - 1) + 1)
           (sp_ienv_3 E * nat nrhs + max (XK_H E) (LSUM_H E))
           ((pLlu s)\<lparr>SolveMsgSent := 0, Llu_frecv := a, Llu_brecv := b\<rparr>))
        (usweep_roots
           (mk_ctx E (supno (env_Glu E) ! (nat n - 1) + 1)
              (sp_ienv_3 E * nat nrhs + max (XK_H E) (LSUM_H E))
              ((pLlu s)\<lparr>SolveMsgSent := 0, Llu_frecv := a, Llu_brecv := b\<rparr>))
           (usweep_start
              (mk_ctx E (supno (env_Glu E) ! (nat n - 1) + 1)
                 (sp_ienv_3 E * nat nrhs + max (XK_H E) (LSUM_H E))
                 ((pLlu s)\<lparr>SolveMsgSent := 0, Llu_frecv := a, Llu_brecv := b\<rparr>))
              (map (\<lambda>i. ints (heap s) (Llu_bmod (pLlu s)) ! i)
                 [0..<CEILING (supno (env_Glu E) ! (nat n - 1) + 1) (nprow (env_grid E))])
              (MPI_Allreduce_SUM
                 (\<lambda>c. if c = MYCOL (iam (env_grid E)) (env_grid E)
                      then set_mod_bit (env_grid E) (supno (env_Glu E) ! (nat n - 1) + 1)
                             (map (\<lambda>i. ints (heap s) (Llu_bmod (pLlu s)) ! i)
                                [0..<CEILING (supno (env_Glu E) ! (nat n - 1) + 1)
                                       (nprow (env_grid E))])
                             (clear_mod_bit
                                (CEILING (supno (env_Glu E) ! (nat n - 1) + 1)
                                   (nprow (env_grid E)))
                                (ints (heap s) (Llu_mod_bit (pLlu s))))
                      else row_mod_bits E c)
                 (CEILING (supno (env_Glu E) ! (nat n - 1) + 1) (nprow (env_grid E)))
                 (npcol (env_grid E)))))
        ms1 \<noteq> None"
  shows "\<exists>s' rest. pdgstrs E n nrhs s ms = Some (s', rest)"
proof -
  let ?s2 = "(pdgstrs_entry E s)\<lparr>info := 0\<rparr>"
  have h2: "heap ?s2 = heap s @ [Some \<lparr>cname = ''msgcnt'', content = Ints (replicate 4 0)\<rparr>]"
    and L2: "pLlu ?s2 = pLlu s"
    by (simp_all add: pdgstrs_entry_simps)
  have low2: "ints (heap ?s2) a = ints (heap s) a" if "a < length (heap s)" for a
    using that by (intro ints_cong) (simp add: h2 nth_append)
  have fm2: "Llu_fmod (pLlu ?s2) < length (heap ?s2)" using fm by (simp add: h2 L2)
  obtain fr s3 where
    f: "forward_part E (nat n) (nat nrhs) ?s2 ms = Some (fr, s3, ms1)"
    using forward_part_returns[of ?s2 E "nat n" "nat nrhs" ms ms1, OF fm2]
      frun unfolding L2 low2[OF fm] by blast
  note F = forward_part_frame[OF f]
  have L3: "pLlu s3 = (pLlu s)\<lparr>SolveMsgSent := 0, Llu_frecv := Suc (length (heap ?s2))\<rparr>"
    using F(6) by (simp add: L2)
  have low3: "ints (heap s3) a = ints (heap s) a" if "a < length (heap s)" for a
  proof -
    have "heap s3 ! a = heap ?s2 ! a" using F(2)[of a] that by (simp add: h2)
    then have "ints (heap s3) a = ints (heap ?s2) a" by (rule ints_cong)
    then show ?thesis using low2[OF that] by simp
  qed
  have l3: "length (heap s) < length (heap s3)" using F(1) by (simp add: h2)
  have bm3: "Llu_bmod (pLlu s3) < length (heap s3)" using bm l3 by (simp add: L3)
  have mb3: "Llu_mod_bit (pLlu s3) < length (heap s3)" using mb l3 by (simp add: L3)
  have fb: "Llu_bmod (pLlu s3) = Llu_bmod (pLlu s)" "Llu_mod_bit (pLlu s3) = Llu_mod_bit (pLlu s)"
    by (simp_all add: L3)
  have "\<exists>s' rest. backward_part E (nat n) (nat nrhs) fr s3 ms1 = Some (s', rest)"
    apply (rule backward_part_returns[OF bm3 mb3])
    apply (unfold fb)
    apply (unfold low3[OF bm] low3[OF mb])
    apply (unfold L3)
    apply (rule brun)
    done
  then obtain s' rest where
    b: "backward_part E (nat n) (nat nrhs) fr s3 ms1 = Some (s', rest)"
    by blast
  have "pdgstrs E n nrhs s ms = Some (s', rest)"
    using n f b by (simp add: pdgstrs_def Let_def test_input_def)
  then show ?thesis by blast
qed


subsection \<open>A call on the example process\<close>

text \<open>
  The process of the example above with seven supernodes of one column each,
  one right-hand side, the two templates and \<^verbatim>\<open>mod_bit\<close> in memory at the
  addresses \<open>0\<close>, \<open>1\<close> and \<open>2\<close>, and the messages of both sweeps.
\<close>

definition ex_env :: pdgstrs_env where
  "ex_env = \<lparr>env_grid = ex_grid,
              env_Glu = \<lparr>xsup = [0, 1, 2, 3, 4, 5, 6, 7], supno = [0, 1, 2, 3, 4, 5, 6]\<rparr>,
              sp_ienv_3 = 3, XK_H = 2, LSUM_H = 2,
              env_dlsum_fmod_inv = ex_dlsum, env_dlsum_bmod_inv = ex_dlsum_b,
              env_Urbs = [0, 2, 3], env_tag_Xk = 21, env_tag_LSUM = 23,
              iam_before_init = 0,
              row_mod_bits = (\<lambda>c. if c = 1 then [1, 1, 0, 0] else [1, 0, 1, 0]),
              int_t_bits = 32\<rparr>"

definition ex_heap :: heap_t where
  "ex_heap = [Some \<lparr>cname = ''Llu->fmod'', content = Ints [0, 1, 2, 2]\<rparr>,
              Some \<lparr>cname = ''Llu->bmod'', content = Ints [2, 2, 1, 0]\<rparr>,
              Some \<lparr>cname = ''Llu->mod_bit'', content = Ints [0, 0, 0, 0]\<rparr>]"

definition ex_state :: pdgstrs_state where
  "ex_state = \<lparr>heap = ex_heap, pLlu = ex_Llu, info = 5, ptrace = [],
                fmod_loc = 0, bmod_loc = 0\<rparr>"

definition ex_umsgs :: "message list" where
  "ex_umsgs = [\<lparr>MPI_TAG = 21, hdr = 3\<rparr>, \<lparr>MPI_TAG = 23, hdr = 0\<rparr>, \<lparr>MPI_TAG = 23, hdr = 0\<rparr>]"

definition ex_all :: "message list" where
  "ex_all = ex_msgs @ ex_umsgs"




definition ex_cb :: "nat \<Rightarrow> nat \<Rightarrow> solve_ctx" where
  "ex_cb a b = mk_ctx ex_env 7 5 (ex_Llu\<lparr>SolveMsgSent := 0, Llu_frecv := a, Llu_brecv := b\<rparr>)"

definition ex_cf :: "nat \<Rightarrow> solve_ctx" where
  "ex_cf a = mk_ctx ex_env 7 5 (ex_Llu\<lparr>SolveMsgSent := 0, Llu_frecv := a\<rparr>)"


lemma ex_params:
  "supno (env_Glu ex_env) ! (nat 7 - 1) + 1 = 7"
  "sp_ienv_3 ex_env * nat 1 + max (XK_H ex_env) (LSUM_H ex_env) = 5"
  "CEILING 7 (nprow (env_grid ex_env)) = 4"
  "map (\<lambda>i. ints (heap ex_state) (Llu_fmod (pLlu ex_state)) ! i) [0..<4] = [0, 1, 2, 2]"
  "map (\<lambda>i. ints (heap ex_state) (Llu_bmod (pLlu ex_state)) ! i) [0..<4] = [2, 2, 1, 0]"
  "ints (heap ex_state) (Llu_mod_bit (pLlu ex_state)) = [0, 0, 0, 0]"
  by code_simp+

lemma ex_brecv0:
  "MPI_Allreduce_SUM
     (\<lambda>c. if c = MYCOL (iam (env_grid ex_env)) (env_grid ex_env)
          then set_mod_bit (env_grid ex_env) 7 [2, 2, 1, 0] (clear_mod_bit 4 [0, 0, 0, 0])
          else row_mod_bits ex_env c)
     4 (npcol (env_grid ex_env)) = [2, 2, 2, 0]"
  by code_simp


lemma ex_lstart:
  "lsweep_start (ex_cf a) [0, 1, 2, 2] =
     \<lparr>nfrecvx = 1, nfrecvmod = 2, nfrecvx_buf = 0, recvbuf0 = 0,
      fmod = [- 1, 0, 1, 1], frecv = [0, 0, 0, 2],
      trace = [Solve 0, BcForwardX 0 0]\<rparr>"
  by code_simp

lemma ex_frun:
  "lsweep_finish (ex_cf a) (lsweep_start (ex_cf a) [0, 1, 2, 2]) ex_all =
     Some (\<lparr>nfrecvx = 0, nfrecvmod = 0, nfrecvx_buf = 0, recvbuf0 = 0,
            fmod = [- 1, 0, 0, - 1], frecv = [0, 0, 0, 0],
            trace = [Solve 0, BcForwardX 0 0, Recv 0, Recv 0, Recv 0, Solve 6, BcWait 0,
                     BcWait 1, RdWait 1, RdWait 2, RdWait 3]\<rparr>, ex_umsgs)"
  unfolding ex_lstart by code_simp

lemma ex_ustart_b:
  "usweep_start (ex_cb a b) [2, 2, 1, 0] [2, 2, 2, 0] =
     \<lparr>nbrecvx = 1, nbrecvmod = 2, nroot = 1, bmod = [2, 2, 1, 0],
      brecv = [2, 2, 2, 0], msgsent = 0, utrace = []\<rparr>"
  by code_simp

lemma ex_uroots_b:
  "usweep_roots (ex_cb a b) (usweep_start (ex_cb a b) [2, 2, 1, 0] [2, 2, 2, 0]) =
     \<lparr>nbrecvx = 1, nbrecvmod = 2, nroot = 0, bmod = [1, 1, 0, - 1],
      brecv = [2, 2, 2, 0], msgsent = 1, utrace = [USolve 6, Isend 6 3 21]\<rparr>"
proof -
  have n: "nsupers (ex_cb a b) = 7" by (simp add: ex_cb_def mk_ctx_def)
  have r: "rev [0..<7] = [6, 5, 4, 3, 2, 1, 0::nat]" by code_simp
  show ?thesis unfolding usweep_roots_def n r ex_ustart_b by code_simp
qed

lemma ex_brun:
  "usweep_loop (ex_cb a b)
     (usweep_roots (ex_cb a b) (usweep_start (ex_cb a b) [2, 2, 1, 0] [2, 2, 2, 0])) ex_umsgs
   \<noteq> None"
  unfolding ex_uroots_b by code_simp


lemma ex_state_simps:
  "pLlu ex_state = ex_Llu" "heap ex_state = ex_heap" "length ex_heap = 3"
  "Llu_fmod ex_Llu = 0" "Llu_bmod ex_Llu = 1" "Llu_mod_bit ex_Llu = 2"
  by (simp_all add: ex_state_def ex_heap_def ex_Llu_def)

lemma ex_call_returns: "\<exists>s' rest. pdgstrs ex_env 7 1 ex_state ex_all = Some (s', rest)"
proof (rule pdgstrs_returns[where ?ms1.0 = ex_umsgs])
  show "(0::int) < 7" "(0::int) \<le> 1" by simp_all
  show "Llu_fmod (pLlu ex_state) < length (heap ex_state)"
    "Llu_bmod (pLlu ex_state) < length (heap ex_state)"
    "Llu_mod_bit (pLlu ex_state) < length (heap ex_state)"
    by (simp_all add: ex_state_simps)
next
  fix a
  show "\<exists>st'.
      lsweep_finish
        (mk_ctx ex_env (supno (env_Glu ex_env) ! (nat 7 - 1) + 1)
           (sp_ienv_3 ex_env * nat 1 + max (XK_H ex_env) (LSUM_H ex_env))
           ((pLlu ex_state)\<lparr>SolveMsgSent := 0, Llu_frecv := a\<rparr>))
        (lsweep_start
           (mk_ctx ex_env (supno (env_Glu ex_env) ! (nat 7 - 1) + 1)
              (sp_ienv_3 ex_env * nat 1 + max (XK_H ex_env) (LSUM_H ex_env))
              ((pLlu ex_state)\<lparr>SolveMsgSent := 0, Llu_frecv := a\<rparr>))
           (map (\<lambda>i. ints (heap ex_state) (Llu_fmod (pLlu ex_state)) ! i)
              [0..<CEILING (supno (env_Glu ex_env) ! (nat 7 - 1) + 1) (nprow (env_grid ex_env))]))
        ex_all = Some (st', ex_umsgs)"
    unfolding ex_params unfolding ex_state_simps(1) ex_cf_def[symmetric] ex_frun by blast
next
  fix a b
  show "usweep_loop
        (mk_ctx ex_env (supno (env_Glu ex_env) ! (nat 7 - 1) + 1)
           (sp_ienv_3 ex_env * nat 1 + max (XK_H ex_env) (LSUM_H ex_env))
           ((pLlu ex_state)\<lparr>SolveMsgSent := 0, Llu_frecv := a, Llu_brecv := b\<rparr>))
        (usweep_roots
           (mk_ctx ex_env (supno (env_Glu ex_env) ! (nat 7 - 1) + 1)
              (sp_ienv_3 ex_env * nat 1 + max (XK_H ex_env) (LSUM_H ex_env))
              ((pLlu ex_state)\<lparr>SolveMsgSent := 0, Llu_frecv := a, Llu_brecv := b\<rparr>))
           (usweep_start
              (mk_ctx ex_env (supno (env_Glu ex_env) ! (nat 7 - 1) + 1)
                 (sp_ienv_3 ex_env * nat 1 + max (XK_H ex_env) (LSUM_H ex_env))
                 ((pLlu ex_state)\<lparr>SolveMsgSent := 0, Llu_frecv := a, Llu_brecv := b\<rparr>))
              (map (\<lambda>i. ints (heap ex_state) (Llu_bmod (pLlu ex_state)) ! i)
                 [0..<CEILING (supno (env_Glu ex_env) ! (nat 7 - 1) + 1) (nprow (env_grid ex_env))])
              (MPI_Allreduce_SUM
                 (\<lambda>c. if c = MYCOL (iam (env_grid ex_env)) (env_grid ex_env)
                      then set_mod_bit (env_grid ex_env) (supno (env_Glu ex_env) ! (nat 7 - 1) + 1)
                             (map (\<lambda>i. ints (heap ex_state) (Llu_bmod (pLlu ex_state)) ! i)
                                [0..<CEILING (supno (env_Glu ex_env) ! (nat 7 - 1) + 1)
                                       (nprow (env_grid ex_env))])
                             (clear_mod_bit
                                (CEILING (supno (env_Glu ex_env) ! (nat 7 - 1) + 1)
                                   (nprow (env_grid ex_env)))
                                (ints (heap ex_state) (Llu_mod_bit (pLlu ex_state))))
                      else row_mod_bits ex_env c)
                 (CEILING (supno (env_Glu ex_env) ! (nat 7 - 1) + 1) (nprow (env_grid ex_env)))
                 (npcol (env_grid ex_env)))))
        ex_umsgs \<noteq> None"
    unfolding ex_params ex_brecv0 unfolding ex_state_simps(1) ex_cb_def[symmetric] by (rule ex_brun)
qed


text \<open>
  Claim C10 asks that every receive into \<^verbatim>\<open>recvbuf_BC_fwd\<close> stays within the
  \<^verbatim>\<open>maxrecvsz * (nfrecvx + 1)\<close> elements allocated for it.  With \<^verbatim>\<open>int_t\<close> of 32
  bits, \<^verbatim>\<open>sp_ienv_dist(3) = 128\<close>, \<open>8192\<close> right-hand sides and headers of two
  words, \<^verbatim>\<open>maxrecvsz\<close> is \<open>1048578\<close>; on a process that expects \<open>4095\<close> blocks
  the product \<open>1048578 * 4096\<close> is \<open>2^32 + 8192\<close> and the buffer is allocated
  with \<open>8192\<close> elements.  The service loop is entered with the receive pointer
  at the start of the buffer, and its first \<^verbatim>\<open>MPI_Recv\<close> takes up to
  \<^verbatim>\<open>maxrecvsz\<close> elements there, beyond the end of the buffer.
\<close>

theorem recvbuf_BC_fwd_overrun:
  "sp_ienv_3 (ex_env\<lparr>sp_ienv_3 := 128\<rparr>) * 8192
     + max (XK_H (ex_env\<lparr>sp_ienv_3 := 128\<rparr>)) (LSUM_H (ex_env\<lparr>sp_ienv_3 := 128\<rparr>)) = 1048578
   \<and> int_t_bits (ex_env\<lparr>sp_ienv_3 := 128\<rparr>) = 32
   \<and> (case forward_allocs (ex_env\<lparr>sp_ienv_3 := 128\<rparr>) 7 8192
              (ex_Llu\<lparr>Llu_nfrecvx := 4095\<rparr>) ex_heap
        of (fmod_a, frecv_a, fr, h) \<Rightarrow>
          last h = Some \<lparr>cname = ''recvbuf_BC_fwd'', content = Doubles 8192\<rparr>)
   \<and> nfrecvx (lsweep_start
          (mk_ctx (ex_env\<lparr>sp_ienv_3 := 128\<rparr>) 7 1048578 (ex_Llu\<lparr>Llu_nfrecvx := 4095\<rparr>))
          [0, 1, 2, 2]) = 4095
   \<and> recv_offsets (trace (lsweep_step
          (mk_ctx (ex_env\<lparr>sp_ienv_3 := 128\<rparr>) 7 1048578 (ex_Llu\<lparr>Llu_nfrecvx := 4095\<rparr>))
          (lsweep_start
             (mk_ctx (ex_env\<lparr>sp_ienv_3 := 128\<rparr>) 7 1048578 (ex_Llu\<lparr>Llu_nfrecvx := 4095\<rparr>))
             [0, 1, 2, 2])
          \<lparr>MPI_TAG = 3, hdr = 3\<rparr>)) = [0]
   \<and> maxrecvsz (mk_ctx (ex_env\<lparr>sp_ienv_3 := 128\<rparr>) 7 1048578
                   (ex_Llu\<lparr>Llu_nfrecvx := 4095\<rparr>)) = 1048578
   \<and> (8192::nat) < 0 + 1048578"
proof -
  let ?E = "ex_env\<lparr>sp_ienv_3 := 128\<rparr>"
  let ?L = "ex_Llu\<lparr>Llu_nfrecvx := 4095\<rparr>"
  let ?C = "mk_ctx ?E 7 1048578 ?L"
  have mx: "sp_ienv_3 ?E * 8192 + max (XK_H ?E) (LSUM_H ?E) = 1048578"
    and bits: "int_t_bits ?E = 32"
    by (simp_all add: ex_env_def)
  have sz: "recvbuf_BC_fwd_size 32 1048578 4095 = 8192"
    by (simp add: recvbuf_BC_fwd_size_def wrap_signed_def)
  obtain fmod_a frecv_a fr h where
    al: "forward_allocs ?E 7 8192 ?L ex_heap = (fmod_a, frecv_a, fr, h)"
    by (metis prod_cases4)
  have last: "last h = Some \<lparr>cname = ''recvbuf_BC_fwd'', content = Doubles 8192\<rparr>"
    using forward_allocs_last[OF al] unfolding mx bits by (simp add: sz)
  note z = lsweep_start_zero[of ?C "[0, 1, 2, 2]"]
  have n: "nfrecvx (lsweep_start ?C [0, 1, 2, 2]) = 4095"
    using z by (simp add: mk_ctx_def)
  have r: "recv_offsets (trace (lsweep_step ?C (lsweep_start ?C [0, 1, 2, 2])
             \<lparr>MPI_TAG = 3, hdr = 3\<rparr>)) = [0]"
    using z by (simp add: recv_offsets_step)
  have m: "maxrecvsz ?C = 1048578" by (simp add: mk_ctx_def)
  show ?thesis using mx bits al last n r m by simp
qed

text \<open>
  Claim C9.  A call that returns leaves the two counter templates of the
  factor structure as they were: \<^verbatim>\<open>Llu->fmod\<close> and \<^verbatim>\<open>Llu->bmod\<close> point to the same
  blocks and the blocks hold the same values.  When the arguments are legal
  the call has worked on two blocks of its own, allocated during the call,
  and both are released when it returns.  The templates and \<^verbatim>\<open>Llu->mod_bit\<close>
  are blocks allocated before the call, \<^verbatim>\<open>Llu->mod_bit\<close> (which the call does
  write) being a block other than the two templates.
\<close>

theorem pdgstrs_keeps_counter_templates:
  assumes "pdgstrs E n nrhs s ms = Some (s', rest)"
    and "Llu_fmod (pLlu s) < length (heap s)"
    and "Llu_bmod (pLlu s) < length (heap s)"
    and "Llu_mod_bit (pLlu s) < length (heap s)"
    and "Llu_mod_bit (pLlu s) \<noteq> Llu_fmod (pLlu s)"
    and "Llu_mod_bit (pLlu s) \<noteq> Llu_bmod (pLlu s)"
  shows "Llu_fmod (pLlu s') = Llu_fmod (pLlu s)
       \<and> Llu_bmod (pLlu s') = Llu_bmod (pLlu s)
       \<and> heap s' ! Llu_fmod (pLlu s') = heap s ! Llu_fmod (pLlu s)
       \<and> heap s' ! Llu_bmod (pLlu s') = heap s ! Llu_bmod (pLlu s)
       \<and> (0 \<le> n \<and> 0 \<le> nrhs \<longrightarrow>
            length (heap s) \<le> fmod_loc s' \<and> length (heap s) \<le> bmod_loc s'
          \<and> fmod_loc s' \<noteq> bmod_loc s'
          \<and> heap s' ! fmod_loc s' = None \<and> heap s' ! bmod_loc s' = None)"
proof (cases "n < 0 \<or> nrhs < 0")
  case True
  have "s' = s\<lparr>heap := heap s @ [Some \<lparr>cname = ''msgcnt'', content = Ints (replicate 4 0)\<rparr>],
            info := (if n < 0 then - 1 else - 9),
            ptrace := ptrace s
              @ (if iam_before_init E = 0 then [Printf ''num_thread''] else [])
              @ [MPI_Barrier, pxerr_dist ''PDGSTRS'' (if n < 0 then 1 else 9)]\<rparr>"
    using assms(1) pdgstrs_illegal[OF True, of E s ms] by simp
  then show ?thesis using True assms(2,3) by (auto simp: nth_append)
next
  case False
  then have n: "0 \<le> n" "0 \<le> nrhs" by simp_all
  note F = pdgstrs_frame[OF assms(1) n assms(4)]
  have "heap s' ! Llu_fmod (pLlu s) = heap s ! Llu_fmod (pLlu s)"
    "heap s' ! Llu_bmod (pLlu s) = heap s ! Llu_bmod (pLlu s)"
    using F(1) assms(2,3,5,6) by simp_all
  then show ?thesis using F(2-7) by simp
qed

theorem pdgstrs_keeps_counter_templates_witness:
  "\<exists>s' rest. pdgstrs ex_env 7 1 ex_state ex_all = Some (s', rest)
     \<and> Llu_fmod (pLlu s') = 0 \<and> Llu_bmod (pLlu s') = 1
     \<and> heap s' ! 0 = Some \<lparr>cname = ''Llu->fmod'', content = Ints [0, 1, 2, 2]\<rparr>
     \<and> heap s' ! 1 = Some \<lparr>cname = ''Llu->bmod'', content = Ints [2, 2, 1, 0]\<rparr>
     \<and> 3 \<le> fmod_loc s' \<and> 3 \<le> bmod_loc s' \<and> fmod_loc s' \<noteq> bmod_loc s'
     \<and> heap s' ! fmod_loc s' = None \<and> heap s' ! bmod_loc s' = None"
proof -
  obtain s' rest where r: "pdgstrs ex_env 7 1 ex_state ex_all = Some (s', rest)"
    using ex_call_returns by blast
  have h: "Llu_fmod (pLlu ex_state) < length (heap ex_state)"
    "Llu_bmod (pLlu ex_state) < length (heap ex_state)"
    "Llu_mod_bit (pLlu ex_state) < length (heap ex_state)"
    "Llu_mod_bit (pLlu ex_state) \<noteq> Llu_fmod (pLlu ex_state)"
    "Llu_mod_bit (pLlu ex_state) \<noteq> Llu_bmod (pLlu ex_state)"
    by (simp_all add: ex_state_simps)
  have c: "heap ex_state ! 0 = Some \<lparr>cname = ''Llu->fmod'', content = Ints [0, 1, 2, 2]\<rparr>"
    "heap ex_state ! 1 = Some \<lparr>cname = ''Llu->bmod'', content = Ints [2, 2, 1, 0]\<rparr>"
    by (simp_all add: ex_state_def ex_heap_def)
  from pdgstrs_keeps_counter_templates[OF r h] c r
  show ?thesis by (auto simp: ex_state_simps)
qed

text \<open>
  What the call does for the solve: the events of the two sweeps and of the
  two redistributions, and the waits for the sends of the backward sweep.
\<close>

fun solve_event :: "event \<Rightarrow> bool" where
  "solve_event MPI_Barrier = False"
| "solve_event (Printf msg) = False"
| "solve_event (pxerr_dist name i) = False"
| "solve_event e = True"

text \<open>
  Claim C2, amended.  The test of the arguments comes after the barrier on the
  grid at the entry of the call and before every step of the solve.  With
  \<open>n < 0\<close> or \<open>nrhs < 0\<close> the call returns with \<^verbatim>\<open>*info\<close> set to \<open>-1\<close> for \<open>n < 0\<close> and
  else to \<open>-9\<close>; the last thing it does is to report the argument through
  \<^verbatim>\<open>pxerr_dist\<close>, right after the barrier; it does no step of the solve, takes
  no message, and leaves the factor structure and the memory that existed at
  entry as they were.  With \<open>n \<ge> 0\<close> and \<open>nrhs \<ge> 0\<close> the test sets \<^verbatim>\<open>*info\<close> to \<open>0\<close>,
  and it is \<open>0\<close> when the call returns.
\<close>

theorem pdgstrs_illegal_argument:
  "(n < 0 \<or> nrhs < 0 \<longrightarrow>
      (\<exists>s' pre. pdgstrs E n nrhs s ms = Some (s', ms)
         \<and> info s' = (if n < 0 then - 1 else - 9)
         \<and> ptrace s' = ptrace s @ pre
                          @ [MPI_Barrier, pxerr_dist ''PDGSTRS'' (if n < 0 then 1 else 9)]
         \<and> list_all (\<lambda>e. \<not> solve_event e) pre
         \<and> pLlu s' = pLlu s
         \<and> take (length (heap s)) (heap s') = heap s
         \<and> fmod_loc s' = fmod_loc s \<and> bmod_loc s' = bmod_loc s))
   \<and> (0 \<le> n \<and> 0 \<le> nrhs \<longrightarrow>
        test_input n nrhs = 0
      \<and> (\<forall>s' rest. pdgstrs E n nrhs s ms = Some (s', rest) \<longrightarrow> info s' = 0))"
proof (intro conjI impI allI)
  assume i: "n < 0 \<or> nrhs < 0"
  let ?pre = "if iam_before_init E = 0 then [Printf ''num_thread''] else []"
  let ?s' = "s\<lparr>heap := heap s @ [Some \<lparr>cname = ''msgcnt'', content = Ints (replicate 4 0)\<rparr>],
                info := (if n < 0 then - 1 else - 9),
                ptrace := ptrace s @ ?pre
                  @ [MPI_Barrier, pxerr_dist ''PDGSTRS'' (if n < 0 then 1 else 9)]\<rparr>"
  have "pdgstrs E n nrhs s ms = Some (?s', ms)
         \<and> info ?s' = (if n < 0 then - 1 else - 9)
         \<and> ptrace ?s' = ptrace s @ ?pre
                          @ [MPI_Barrier, pxerr_dist ''PDGSTRS'' (if n < 0 then 1 else 9)]
         \<and> list_all (\<lambda>e. \<not> solve_event e) ?pre
         \<and> pLlu ?s' = pLlu s
         \<and> take (length (heap s)) (heap ?s') = heap s
         \<and> fmod_loc ?s' = fmod_loc s \<and> bmod_loc ?s' = bmod_loc s"
    using pdgstrs_illegal[OF i, of E s ms] by simp
  then show "\<exists>s' pre. pdgstrs E n nrhs s ms = Some (s', ms)
         \<and> info s' = (if n < 0 then - 1 else - 9)
         \<and> ptrace s' = ptrace s @ pre
                          @ [MPI_Barrier, pxerr_dist ''PDGSTRS'' (if n < 0 then 1 else 9)]
         \<and> list_all (\<lambda>e. \<not> solve_event e) pre
         \<and> pLlu s' = pLlu s
         \<and> take (length (heap s)) (heap s') = heap s
         \<and> fmod_loc s' = fmod_loc s \<and> bmod_loc s' = bmod_loc s"
    by blast
next
  assume "0 \<le> n \<and> 0 \<le> nrhs"
  then show "test_input n nrhs = 0" by (simp add: test_input_def)
next
  fix s' rest
  assume n: "0 \<le> n \<and> 0 \<le> nrhs" and r: "pdgstrs E n nrhs s ms = Some (s', rest)"
  obtain fr s3 ms1 where
    f: "forward_part E (nat n) (nat nrhs) ((pdgstrs_entry E s)\<lparr>info := 0\<rparr>) ms
          = Some (fr, s3, ms1)" and
    b: "backward_part E (nat n) (nat nrhs) fr s3 ms1 = Some (s', rest)"
    using pdgstrs_legal[OF r] n by blast
  have "info s3 = 0" using forward_part_frame(7)[OF f] by simp
  moreover have "info s' = info s3"
    using b by (auto simp: backward_part_def Let_def split: option.splits prod.splits)
  ultimately show "info s' = 0" by simp
qed

theorem pdgstrs_illegal_argument_witness:
  "(\<exists>s'. pdgstrs ex_env (- 1) 1 ex_state ex_all = Some (s', ex_all)
         \<and> info s' = - 1 \<and> info ex_state = 5
         \<and> last (ptrace s') = pxerr_dist ''PDGSTRS'' 1
         \<and> pLlu s' = ex_Llu \<and> take 3 (heap s') = ex_heap)
   \<and> (\<exists>s'. pdgstrs ex_env 7 (- 2) ex_state ex_all = Some (s', ex_all)
         \<and> info s' = - 9
         \<and> last (ptrace s') = pxerr_dist ''PDGSTRS'' 9
         \<and> pLlu s' = ex_Llu \<and> take 3 (heap s') = ex_heap)
   \<and> (\<exists>s' rest. pdgstrs ex_env 7 1 ex_state ex_all = Some (s', rest) \<and> info s' = 0)"
proof -
  have e: "pLlu ex_state = ex_Llu" "heap ex_state = ex_heap" "length ex_heap = 3"
    "info ex_state = 5"
    by (simp_all add: ex_state_def ex_heap_def)
  obtain s' rest where r: "pdgstrs ex_env 7 1 ex_state ex_all = Some (s', rest)"
    using ex_call_returns by blast
  have 1: "\<exists>s'. pdgstrs ex_env (- 1) 1 ex_state ex_all = Some (s', ex_all)
         \<and> info s' = - 1 \<and> info ex_state = 5
         \<and> last (ptrace s') = pxerr_dist ''PDGSTRS'' 1
         \<and> pLlu s' = ex_Llu \<and> take 3 (heap s') = ex_heap"
    using pdgstrs_illegal_argument[of "- 1" 1 ex_env ex_state ex_all] by (auto simp: e)
  have 2: "\<exists>s'. pdgstrs ex_env 7 (- 2) ex_state ex_all = Some (s', ex_all)
         \<and> info s' = - 9
         \<and> last (ptrace s') = pxerr_dist ''PDGSTRS'' 9
         \<and> pLlu s' = ex_Llu \<and> take 3 (heap s') = ex_heap"
    using pdgstrs_illegal_argument[of 7 "- 2" ex_env ex_state ex_all] by (auto simp: e)
  have 3: "\<exists>s' rest. pdgstrs ex_env 7 1 ex_state ex_all = Some (s', rest) \<and> info s' = 0"
    using pdgstrs_illegal_argument[of 7 1 ex_env ex_state ex_all] r by auto
  show ?thesis using 1 2 3 by blast
qed

text \<open>
  Claim C2 as it is worded fails: with \<open>n = -1\<close> the call returns with
  \<^verbatim>\<open>*info = -1\<close>, but memory holds one block more than at entry, the block
  \<^verbatim>\<open>msgcnt\<close>, and before the report the process has printed a line and has
  been through the barrier of the grid.
\<close>

theorem illegal_argument_allocates:
  "info (fst (the (pdgstrs ex_env (- 1) 1 ex_state ex_all))) = - 1
   \<and> length (heap (fst (the (pdgstrs ex_env (- 1) 1 ex_state ex_all))))
       = length (heap ex_state) + 1
   \<and> last (heap (fst (the (pdgstrs ex_env (- 1) 1 ex_state ex_all))))
       = Some \<lparr>cname = ''msgcnt'', content = Ints [0, 0, 0, 0]\<rparr>
   \<and> ptrace ex_state = []
   \<and> ptrace (fst (the (pdgstrs ex_env (- 1) 1 ex_state ex_all)))
       = [Printf ''num_thread'', MPI_Barrier, pxerr_dist ''PDGSTRS'' 1]"
proof -
  have e: "iam_before_init ex_env = 0" "ptrace ex_state = []"
    "replicate 4 (0::int) = [0, 0, 0, 0]"
    by (simp_all add: ex_env_def ex_state_def eval_nat_numeral)
  have "(- 1::int) < 0 \<or> (1::int) < 0" by simp
  from pdgstrs_illegal[OF this, of ex_env ex_state ex_all] show ?thesis
    by (simp add: e)
qed

section \<open>Redistribution of the right-hand side\<close>

text \<open>
  \<^verbatim>\<open>pdReDistribute_B_to_X\<close> moves the rows of \<open>B\<close>, which every process holds for
  its own range of rows, into the blocks of \<open>x\<close> on the diagonal processes;
  \<^verbatim>\<open>pdReDistribute_X_to_B\<close> moves the blocks of \<open>x\<close> back into \<open>B\<close>.  Both are
  written for one process and meet the other processes in two calls of
  \<^verbatim>\<open>MPI_Alltoallv\<close>.  An array that the code writes is a function from
  positions to values here; the arrays that it only reads are lists.  The
  buffers that the code allocates hold zeros at first in the model (the code
  reads no cell that it has not received).  The counts and displacements
  are the eight pieces of the array \<^verbatim>\<open>B_to_X_SendCnt\<close> (and of \<^verbatim>\<open>X_to_B_SendCnt\<close>)
  that \<^verbatim>\<open>pxgstrs_init\<close>, which is not in the source file, sets up.  The macros
  \<^verbatim>\<open>X_BLK\<close> and \<^verbatim>\<open>XK_H\<close> come from a header outside the source file: \<^verbatim>\<open>X_BLK\<close> is
  a function given with the process, \<^verbatim>\<open>XK_H\<close> a number.  Counts, displacements
  and positions are natural numbers: what is stated holds where they fit the
  types \<^verbatim>\<open>int\<close> and \<^verbatim>\<open>int_t\<close> of the code and the arrays are as long as the code
  takes them to be.
\<close>

record comm_counts =
  SendCnt :: "nat list"
  SendCnt_nrhs :: "nat list"
  RecvCnt :: "nat list"
  RecvCnt_nrhs :: "nat list"
  sdispls :: "nat list"
  sdispls_nrhs :: "nat list"
  rdispls :: "nat list"
  rdispls_nrhs :: "nat list"

record ScalePermstruct_t =
  perm_r :: "nat list"
  perm_c :: "nat list"

record SOLVEstruct_t =
  row_to_proc :: "nat list"
  diag_procs :: "nat list"
  num_diag_procs :: nat
  B_to_X_SendCnt :: comm_counts
  X_to_B_SendCnt :: comm_counts

text \<open>What all processes share, and what one process is called with.\<close>

record system_t =
  sys_nrhs :: nat
  sys_XK_H :: nat
  ScalePermstruct :: ScalePermstruct_t
  Glu_persist :: Glu_persist_t

record local_t =
  loc_grid :: gridinfo_t
  m_loc :: nat
  ldb :: nat
  fst_row :: nat
  X_BLK :: "nat \<Rightarrow> nat"
  SOLVEstruct :: SOLVEstruct_t

record sendbufs =
  ptr_to_ibuf :: "nat \<Rightarrow> nat"
  ptr_to_dbuf :: "nat \<Rightarrow> nat"
  send_ibuf :: "nat \<Rightarrow> nat"
  send_dbuf :: "nat \<Rightarrow> real"

text \<open>\<^verbatim>\<open>RHS_ITERATE(j) { buf[k++] = v(j); }\<close> from position \<open>k\<close>.\<close>

definition RHS_fill :: "nat \<Rightarrow> nat \<Rightarrow> (nat \<Rightarrow> real) \<Rightarrow> (nat \<Rightarrow> real) \<Rightarrow> (nat \<Rightarrow> real)" where
  "RHS_fill nrhs k v buf = fold (\<lambda>j b. b(k + j := v j)) [0..<nrhs] buf"

text \<open>
  One turn of the loop that copies the row indices and the values to the send
  buffers, \<^verbatim>\<open>for (i = 0, l = fst_row; i < m_loc; ++i, ++l)\<close>.
\<close>

definition B_to_X_copy_row ::
  "system_t \<Rightarrow> local_t \<Rightarrow> (nat \<Rightarrow> real) \<Rightarrow> nat \<Rightarrow> sendbufs \<Rightarrow> sendbufs" where
  "B_to_X_copy_row S P B i st =
     (let l = fst_row P + i;
          irow = perm_c (ScalePermstruct S) ! (perm_r (ScalePermstruct S) ! l);
          gbi = BlockNum (Glu_persist S) irow;
          p = PNUM (PROW gbi (loc_grid P)) (PCOL gbi (loc_grid P)) (loc_grid P);
          k = ptr_to_ibuf st p;
          ib = (send_ibuf st)(k := irow);
          k2 = ptr_to_dbuf st p;
          db = RHS_fill (sys_nrhs S) k2 (\<lambda>j. B (i + j * ldb P)) (send_dbuf st)
      in st\<lparr>send_ibuf := ib, send_dbuf := db,
            ptr_to_ibuf := (ptr_to_ibuf st)(p := ptr_to_ibuf st p + 1),
            ptr_to_dbuf := (ptr_to_dbuf st)(p := ptr_to_dbuf st p + sys_nrhs S)\<rparr>)"

definition B_to_X_fill :: "system_t \<Rightarrow> local_t \<Rightarrow> (nat \<Rightarrow> real) \<Rightarrow> sendbufs" where
  "B_to_X_fill S P B =
     (let c = B_to_X_SendCnt (SOLVEstruct P)
      in fold (B_to_X_copy_row S P B) [0..<m_loc P]
           \<lparr>ptr_to_ibuf = (\<lambda>p. sdispls c ! p),
            ptr_to_dbuf = (\<lambda>p. sdispls c ! p * sys_nrhs S),
            send_ibuf = (\<lambda>k. 0), send_dbuf = (\<lambda>k. 0)\<rparr>)"

text \<open>
  \<^verbatim>\<open>MPI_Alltoallv\<close> as the receiver \<open>me\<close> sees it: from every process \<open>q\<close> the
  block of \<open>rc ! q\<close> items that \<open>q\<close> keeps for \<open>me\<close> at its displacement
  \<open>sd q ! me\<close> arrives at the displacement \<open>rd ! q\<close>.
\<close>

definition MPI_Alltoallv ::
  "(nat \<Rightarrow> nat \<Rightarrow> 'a) \<Rightarrow> (nat \<Rightarrow> nat list) \<Rightarrow> nat list \<Rightarrow> nat list \<Rightarrow> nat \<Rightarrow> nat \<Rightarrow>
   (nat \<Rightarrow> 'a) \<Rightarrow> (nat \<Rightarrow> 'a)" where
  "MPI_Alltoallv sendbuf sd rc rd procs me recvbuf =
     fold (\<lambda>q r. (\<lambda>k. if rd ! q \<le> k \<and> k < rd ! q + rc ! q
                       then sendbuf q (sd q ! me + (k - rd ! q)) else r k))
       [0..<procs] recvbuf"

text \<open>
  One turn of the inner loop that copies the receive buffer into \<open>x\<close>; the
  state is \<open>ii\<close>, \<open>jj\<close> and \<open>x\<close>.  Positions are natural numbers: the
  differences \<^verbatim>\<open>l - XK_H\<close> and \<^verbatim>\<open>irow - FstBlockC(k)\<close> are those of the code
  where \<open>XK_H \<le> l\<close> and \<open>FstBlockC(k) \<le> irow\<close>, and nothing is stated about
  this turn elsewhere.
\<close>

definition X_put_row ::
  "system_t \<Rightarrow> local_t \<Rightarrow> (nat \<Rightarrow> nat) \<Rightarrow> (nat \<Rightarrow> real) \<Rightarrow>
   nat \<times> nat \<times> (nat \<Rightarrow> real) \<Rightarrow> nat \<times> nat \<times> (nat \<Rightarrow> real)" where
  "X_put_row S P recv_ibuf recv_dbuf st =
     (case st of (ii, jj, x) \<Rightarrow>
        let irow = recv_ibuf ii;
            k = BlockNum (Glu_persist S) irow;
            knsupc = SuperSize (Glu_persist S) k;
            lk = LBi k (loc_grid P);
            l = X_BLK P lk;
            x1 = x(l - sys_XK_H S := real k);
            rel = irow - FstBlockC (Glu_persist S) k;
            x2 = fold (\<lambda>j x. x(l + rel + j * knsupc := recv_dbuf (jj + j))) [0..<sys_nrhs S] x1
        in (ii + 1, jj + sys_nrhs S, x2))"

definition B_to_X_scatter ::
  "system_t \<Rightarrow> local_t \<Rightarrow> (nat \<Rightarrow> nat) \<Rightarrow> (nat \<Rightarrow> real) \<Rightarrow> (nat \<Rightarrow> real) \<Rightarrow> (nat \<Rightarrow> real)" where
  "B_to_X_scatter S P recv_ibuf recv_dbuf x =
     (let c = B_to_X_SendCnt (SOLVEstruct P);
          procs = nprow (loc_grid P) * npcol (loc_grid P)
      in snd (fold (\<lambda>p (ii, x).
                 case fold (\<lambda>i. X_put_row S P recv_ibuf recv_dbuf) [0..<RecvCnt c ! p]
                        (ii, rdispls_nrhs c ! p, x)
                 of (ii', jj', x') \<Rightarrow> (ii', x'))
               [0..<procs] (0, x)))"

text \<open>
  The call on all processes: \<open>Ps ! q\<close>, \<open>Bs ! q\<close> and \<open>xs ! q\<close> are what process \<open>q\<close>
  is called with; the result is the \<open>x\<close> of every process.
\<close>

definition pdReDistribute_B_to_X ::
  "system_t \<Rightarrow> local_t list \<Rightarrow> (nat \<Rightarrow> real) list \<Rightarrow> (nat \<Rightarrow> real) list \<Rightarrow> (nat \<Rightarrow> real) list" where
  "pdReDistribute_B_to_X S Ps Bs xs =
     (let procs = length Ps;
          sb = (\<lambda>q. B_to_X_fill S (Ps ! q) (Bs ! q));
          c = (\<lambda>q. B_to_X_SendCnt (SOLVEstruct (Ps ! q)))
      in map (\<lambda>me.
           B_to_X_scatter S (Ps ! me)
             (MPI_Alltoallv (\<lambda>q. send_ibuf (sb q)) (\<lambda>q. sdispls (c q))
                (RecvCnt (c me)) (rdispls (c me)) procs me (\<lambda>k. 0))
             (MPI_Alltoallv (\<lambda>q. send_dbuf (sb q)) (\<lambda>q. sdispls_nrhs (c q))
                (RecvCnt_nrhs (c me)) (rdispls_nrhs (c me)) procs me (\<lambda>k. 0))
             (xs ! me))
         [0..<procs])"

text \<open>
  \<^verbatim>\<open>pdReDistribute_X_to_B\<close>.  One turn of the loop over the rows of a block
  \<open>k\<close> that the process owns on the diagonal (\<open>ii = irow\<close>: the branch with
  \<^verbatim>\<open>inv_perm_c\<close> is compiled out).
\<close>

definition X_to_B_copy_row ::
  "system_t \<Rightarrow> local_t \<Rightarrow> (nat \<Rightarrow> real) \<Rightarrow> nat \<Rightarrow> nat \<Rightarrow> sendbufs \<Rightarrow> sendbufs" where
  "X_to_B_copy_row S P x k i st =
     (let knsupc = SuperSize (Glu_persist S) k;
          lk = LBi k (loc_grid P);
          irow = FstBlockC (Glu_persist S) k + i;
          l = X_BLK P lk;
          ii = irow;
          q = row_to_proc (SOLVEstruct P) ! ii;
          jj = ptr_to_ibuf st q;
          ib = (send_ibuf st)(jj := ii);
          jj2 = ptr_to_dbuf st q;
          db = RHS_fill (sys_nrhs S) jj2 (\<lambda>j. x (l + i + j * knsupc)) (send_dbuf st)
      in st\<lparr>send_ibuf := ib, send_dbuf := db,
            ptr_to_ibuf := (ptr_to_ibuf st)(q := ptr_to_ibuf st q + 1),
            ptr_to_dbuf := (ptr_to_dbuf st)(q := ptr_to_dbuf st q + sys_nrhs S)\<rparr>)"

text \<open>
  \<^verbatim>\<open>for (k = p; k < nsupers; k += num_diag_procs)\<close>: the values of \<open>k\<close>, in
  rising order (the loop is inside one over \<open>p < num_diag_procs\<close>, so
  \<^verbatim>\<open>num_diag_procs\<close> is positive where it runs).  The number of supernodes is
  \<^verbatim>\<open>supno[n-1] + 1\<close>, which the code reads before the array for \<open>n = 0\<close>; \<open>n - 1\<close>
  is that of the code for \<open>0 < n\<close>.
\<close>

definition diag_blocks :: "nat \<Rightarrow> nat \<Rightarrow> nat \<Rightarrow> nat list" where
  "diag_blocks p ns ndp = filter (\<lambda>k. p \<le> k \<and> (k - p) mod ndp = 0) [0..<ns]"

definition X_to_B_fill :: "system_t \<Rightarrow> local_t \<Rightarrow> nat \<Rightarrow> (nat \<Rightarrow> real) \<Rightarrow> sendbufs" where
  "X_to_B_fill S P n x =
     (let c = X_to_B_SendCnt (SOLVEstruct P);
          ns = supno (Glu_persist S) ! (n - 1) + 1;
          ndp = num_diag_procs (SOLVEstruct P)
      in fold (\<lambda>p st.
                 if iam (loc_grid P) = diag_procs (SOLVEstruct P) ! p then
                   fold (\<lambda>k st. fold (X_to_B_copy_row S P x k)
                                   [0..<SuperSize (Glu_persist S) k] st)
                     (diag_blocks p ns ndp) st
                 else st)
           [0..<ndp]
           \<lparr>ptr_to_ibuf = (\<lambda>p. sdispls c ! p),
            ptr_to_dbuf = (\<lambda>p. sdispls_nrhs c ! p),
            send_ibuf = (\<lambda>k. 0), send_dbuf = (\<lambda>k. 0)\<rparr>)"

text \<open>
  The loop that copies the receive buffer into \<open>B\<close>: one turn, on the state
  \<open>k\<close> and \<open>B\<close>.  The relative row number \<^verbatim>\<open>irow - fst_row\<close> is a natural
  number here, and that of the code where \<open>fst_row \<le> irow\<close>.
\<close>

definition B_put_row ::
  "system_t \<Rightarrow> local_t \<Rightarrow> (nat \<Rightarrow> nat) \<Rightarrow> (nat \<Rightarrow> real) \<Rightarrow> nat \<Rightarrow>
   nat \<times> (nat \<Rightarrow> real) \<Rightarrow> nat \<times> (nat \<Rightarrow> real)" where
  "B_put_row S P recv_ibuf recv_dbuf i st =
     (case st of (k, B) \<Rightarrow>
        let irow = recv_ibuf i - fst_row P
        in (k + sys_nrhs S,
            fold (\<lambda>j B. B(irow + j * ldb P := recv_dbuf (k + j))) [0..<sys_nrhs S] B))"

definition X_to_B_scatter ::
  "system_t \<Rightarrow> local_t \<Rightarrow> (nat \<Rightarrow> nat) \<Rightarrow> (nat \<Rightarrow> real) \<Rightarrow> (nat \<Rightarrow> real) \<Rightarrow> (nat \<Rightarrow> real)" where
  "X_to_B_scatter S P recv_ibuf recv_dbuf B =
     snd (fold (B_put_row S P recv_ibuf recv_dbuf) [0..<m_loc P] (0, B))"

definition pdReDistribute_X_to_B ::
  "system_t \<Rightarrow> nat \<Rightarrow> local_t list \<Rightarrow> (nat \<Rightarrow> real) list \<Rightarrow> (nat \<Rightarrow> real) list \<Rightarrow> (nat \<Rightarrow> real) list" where
  "pdReDistribute_X_to_B S n Ps Bs xs =
     (let procs = length Ps;
          sb = (\<lambda>q. X_to_B_fill S (Ps ! q) n (xs ! q));
          c = (\<lambda>q. X_to_B_SendCnt (SOLVEstruct (Ps ! q)))
      in map (\<lambda>me.
           X_to_B_scatter S (Ps ! me)
             (MPI_Alltoallv (\<lambda>q. send_ibuf (sb q)) (\<lambda>q. sdispls (c q))
                (RecvCnt (c me)) (rdispls (c me)) procs me (\<lambda>k. 0))
             (MPI_Alltoallv (\<lambda>q. send_dbuf (sb q)) (\<lambda>q. sdispls_nrhs (c q))
                (RecvCnt_nrhs (c me)) (rdispls_nrhs (c me)) procs me (\<lambda>k. 0))
             (Bs ! me))
         [0..<procs])"

subsection \<open>Filling and copying\<close>

lemma RHS_fill_apply:
  "RHS_fill n k v buf a = (if k \<le> a \<and> a < k + n then v (a - k) else buf a)"
proof (induction n)
  case 0 show ?case by (simp add: RHS_fill_def)
next
  case (Suc n)
  have "RHS_fill (Suc n) k v buf = (RHS_fill n k v buf)(k + n := v n)"
    by (simp add: RHS_fill_def)
  then show ?case using Suc by auto
qed

definition strided_fill :: "nat \<Rightarrow> nat \<Rightarrow> nat \<Rightarrow> (nat \<Rightarrow> real) \<Rightarrow> (nat \<Rightarrow> real) \<Rightarrow> (nat \<Rightarrow> real)" where
  "strided_fill n a0 s f x = fold (\<lambda>j x. x(a0 + j * s := f j)) [0..<n] x"

lemma strided_fill_miss:
  "\<forall>j<n. a \<noteq> a0 + j * s \<Longrightarrow> strided_fill n a0 s f x a = x a"
  by (induction n) (simp_all add: strided_fill_def)

lemma strided_fill_hit:
  "0 < s \<Longrightarrow> j < n \<Longrightarrow> strided_fill n a0 s f x (a0 + j * s) = f j"
proof (induction n)
  case 0 then show ?case by simp
next
  case (Suc n)
  have e: "strided_fill (Suc n) a0 s f x = (strided_fill n a0 s f x)(a0 + n * s := f n)"
    by (simp add: strided_fill_def)
  show ?case
  proof (cases "j = n")
    case True then show ?thesis by (simp add: e)
  next
    case False
    then have "j < n" using Suc.prems by simp
    moreover have "a0 + j * s \<noteq> a0 + n * s" using False Suc.prems(1) by simp
    ultimately show ?thesis using Suc by (simp add: e)
  qed
qed

lemma MPI_Alltoallv_apply:
  assumes "q < procs" "c < rc ! q"
    and "\<forall>q'<procs. q' \<noteq> q \<longrightarrow> \<not> (rd ! q' \<le> rd ! q + c \<and> rd ! q + c < rd ! q' + rc ! q')"
  shows "MPI_Alltoallv sendbuf sd rc rd procs me recvbuf (rd ! q + c) = sendbuf q (sd q ! me + c)"
proof -
  have "n \<le> procs \<Longrightarrow> q < n \<Longrightarrow>
        MPI_Alltoallv sendbuf sd rc rd n me recvbuf (rd ! q + c) = sendbuf q (sd q ! me + c)" for n
  proof (induction n)
    case 0 then show ?case by simp
  next
    case (Suc n)
    show ?case
    proof (cases "q = n")
      case True
      then show ?thesis using assms(2) by (simp add: MPI_Alltoallv_def)
    next
      case False
      then have "q < n" using Suc.prems by simp
      moreover have "\<not> (rd ! n \<le> rd ! q + c \<and> rd ! q + c < rd ! n + rc ! n)"
        using assms(3) False Suc.prems by auto
      ultimately show ?thesis using Suc by (auto simp: MPI_Alltoallv_def)
    qed
  qed
  then show ?thesis using assms(1) by blast
qed

subsection \<open>Filling the send buffers by destination\<close>

text \<open>
  Both packing loops take a record (a row index and its \<open>nrhs\<close> values) at a
  time and put it at the pointer of its destination.
\<close>

definition put_at_dest :: "nat \<Rightarrow> nat \<times> nat \<times> (nat \<Rightarrow> real) \<Rightarrow> sendbufs \<Rightarrow> sendbufs" where
  "put_at_dest nrhs r st =
     (case r of (d, idx, v) \<Rightarrow>
        st\<lparr>send_ibuf := (send_ibuf st)(ptr_to_ibuf st d := idx),
           send_dbuf := RHS_fill nrhs (ptr_to_dbuf st d) v (send_dbuf st),
           ptr_to_ibuf := (ptr_to_ibuf st)(d := ptr_to_ibuf st d + 1),
           ptr_to_dbuf := (ptr_to_dbuf st)(d := ptr_to_dbuf st d + nrhs)\<rparr>)"

definition to_dest :: "nat \<Rightarrow> (nat \<times> nat \<times> (nat \<Rightarrow> real)) list \<Rightarrow> (nat \<times> nat \<times> (nat \<Rightarrow> real)) list" where
  "to_dest d recs = filter (\<lambda>r. fst r = d) recs"

lemma put_at_dest_simps:
  "ptr_to_ibuf (put_at_dest nrhs (d, idx, v) st) = (ptr_to_ibuf st)(d := ptr_to_ibuf st d + 1)"
  "ptr_to_dbuf (put_at_dest nrhs (d, idx, v) st) = (ptr_to_dbuf st)(d := ptr_to_dbuf st d + nrhs)"
  "send_ibuf (put_at_dest nrhs (d, idx, v) st) = (send_ibuf st)(ptr_to_ibuf st d := idx)"
  "send_dbuf (put_at_dest nrhs (d, idx, v) st) = RHS_fill nrhs (ptr_to_dbuf st d) v (send_dbuf st)"
  by (simp_all add: put_at_dest_def)

lemma put_at_dest_fold:
  assumes "\<forall>d. ptr_to_dbuf st0 d = ptr_to_ibuf st0 d * nrhs"
    and "\<forall>d. length (to_dest d recs) \<le> N d"
    and "\<forall>d d' c c'. d \<noteq> d' \<longrightarrow> c < N d \<longrightarrow> c' < N d' \<longrightarrow>
           ptr_to_ibuf st0 d + c \<noteq> ptr_to_ibuf st0 d' + c'"
  shows "(\<forall>d. ptr_to_ibuf (fold (put_at_dest nrhs) recs st0) d
               = ptr_to_ibuf st0 d + length (to_dest d recs)) \<and>
         (\<forall>d. ptr_to_dbuf (fold (put_at_dest nrhs) recs st0) d
               = (ptr_to_ibuf st0 d + length (to_dest d recs)) * nrhs) \<and>
         (\<forall>d c. c < length (to_dest d recs) \<longrightarrow>
            send_ibuf (fold (put_at_dest nrhs) recs st0) (ptr_to_ibuf st0 d + c)
              = fst (snd (to_dest d recs ! c)) \<and>
            (\<forall>j<nrhs. send_dbuf (fold (put_at_dest nrhs) recs st0)
                         ((ptr_to_ibuf st0 d + c) * nrhs + j)
              = snd (snd (to_dest d recs ! c)) j))"
  using assms(2)
proof (induction recs rule: rev_induct)
  case Nil then show ?case using assms(1) by (simp add: to_dest_def)
next
  case (snoc r recs)
  obtain d0 idx v where r: "r = (d0, idx, v)" by (cases r) auto
  let ?st = "fold (put_at_dest nrhs) recs st0"
  let ?st' = "fold (put_at_dest nrhs) (recs @ [r]) st0"
  have le: "\<forall>d. length (to_dest d recs) \<le> N d"
    using snoc.prems by (auto simp: to_dest_def intro: le_trans[rotated])
  note IH = snoc.IH[OF le]
  have cnt: "length (to_dest d (recs @ [r])) = length (to_dest d recs) + (if d = d0 then 1 else 0)"
    for d by (simp add: to_dest_def r)
  have cnt2: "length (to_dest d (recs @ [(d0, idx, v)]))
                = length (to_dest d recs) + (if d = d0 then 1 else 0)"
    for d by (simp add: to_dest_def)
  have st': "?st' = put_at_dest nrhs r ?st" by simp
  have pi: "ptr_to_ibuf ?st d0 = ptr_to_ibuf st0 d0 + length (to_dest d0 recs)"
    and pd: "ptr_to_dbuf ?st d0 = (ptr_to_ibuf st0 d0 + length (to_dest d0 recs)) * nrhs"
    using IH by simp_all
  have n0: "length (to_dest d0 recs) < N d0"
    using snoc.prems[rule_format, of d0] cnt[of d0] by simp
  show ?case
  proof (intro conjI allI impI)
    fix d
    show "ptr_to_ibuf ?st' d = ptr_to_ibuf st0 d + length (to_dest d (recs @ [r]))"
      using IH by (simp add: st' put_at_dest_simps r cnt2)
    show "ptr_to_dbuf ?st' d = (ptr_to_ibuf st0 d + length (to_dest d (recs @ [r]))) * nrhs"
      using IH by (simp add: st' put_at_dest_simps r cnt2 algebra_simps)
  next
    fix d c assume c: "c < length (to_dest d (recs @ [r]))"
    show "send_ibuf ?st' (ptr_to_ibuf st0 d + c) = fst (snd (to_dest d (recs @ [r]) ! c))"
    proof (cases "d = d0 \<and> c = length (to_dest d0 recs)")
      case True
      then show ?thesis by (simp add: st' put_at_dest_simps r pi to_dest_def nth_append)
    next
      case False
      then have old: "c < length (to_dest d recs)" using c cnt[of d] by (auto split: if_splits)
      have ne: "ptr_to_ibuf st0 d + c \<noteq> ptr_to_ibuf st0 d0 + length (to_dest d0 recs)"
      proof (cases "d = d0")
        case True then show ?thesis using old by simp
      next
        case False
        have "c < N d" using old le by (meson less_le_trans)
        then show ?thesis using assms(3) False n0 by blast
      qed
      have "to_dest d (recs @ [r]) ! c = to_dest d recs ! c"
        using old by (simp add: to_dest_def nth_append)
      then show ?thesis using IH old ne by (simp add: st' put_at_dest_simps r pi)
    qed
  next
    fix d c j assume c: "c < length (to_dest d (recs @ [r]))" and j: "j < nrhs"
    show "send_dbuf ?st' ((ptr_to_ibuf st0 d + c) * nrhs + j)
            = snd (snd (to_dest d (recs @ [r]) ! c)) j"
    proof (cases "d = d0 \<and> c = length (to_dest d0 recs)")
      case True
      then show ?thesis using j
        by (simp add: st' put_at_dest_simps r pd to_dest_def nth_append RHS_fill_apply)
    next
      case False
      then have old: "c < length (to_dest d recs)" using c cnt[of d] by (auto split: if_splits)
      have ne: "ptr_to_ibuf st0 d + c \<noteq> ptr_to_ibuf st0 d0 + length (to_dest d0 recs)"
      proof (cases "d = d0")
        case True then show ?thesis using old by simp
      next
        case False
        have "c < N d" using old le by (meson less_le_trans)
        then show ?thesis using assms(3) False n0 by blast
      qed
      let ?a = "ptr_to_ibuf st0 d + c" and ?b = "ptr_to_ibuf st0 d0 + length (to_dest d0 recs)"
      have out: "\<not> (?b * nrhs \<le> ?a * nrhs + j \<and> ?a * nrhs + j < ?b * nrhs + nrhs)"
      proof
        assume h: "?b * nrhs \<le> ?a * nrhs + j \<and> ?a * nrhs + j < ?b * nrhs + nrhs"
        have "(?a * nrhs + j) div nrhs = ?a" using j by simp
        moreover have "(?a * nrhs + j) div nrhs = ?b"
        proof -
          have "?b * nrhs \<le> ?a * nrhs + j" "?a * nrhs + j < (?b + 1) * nrhs"
            using h by (simp_all add: algebra_simps)
          then show ?thesis
            by (metis (no_types, lifting) Suc_eq_plus1 add.commute div_nat_eqI mult.commute)
        qed
        ultimately show False using ne by simp
      qed
      have e: "to_dest d (recs @ [r]) ! c = to_dest d recs ! c"
        using old by (simp add: to_dest_def nth_append)
      have "send_dbuf ?st' (?a * nrhs + j) = send_dbuf ?st (?a * nrhs + j)"
        using out by (auto simp: st' r put_at_dest_simps pd RHS_fill_apply)
      also have "\<dots> = snd (snd (to_dest d recs ! c)) j"
        using IH old j by blast
      finally show ?thesis using e by simp
    qed
  qed
qed

subsection \<open>Displacements that are running sums of the counts\<close>

definition prefix_sums :: "nat list \<Rightarrow> nat list" where
  "prefix_sums cs = map (\<lambda>p. sum_list (take p cs)) [0..<length cs]"

lemma prefix_sums_nth: "q < length cs \<Longrightarrow> prefix_sums cs ! q = sum_list (take q cs)"
  by (simp add: prefix_sums_def)

lemma prefix_sums_next:
  assumes "q < q'" "q' < length cs"
  shows "prefix_sums cs ! q + cs ! q \<le> prefix_sums cs ! q'"
proof -
  have q: "q < length cs" using assms by simp
  have "take q' cs = take (Suc q) cs @ take (q' - Suc q) (drop (Suc q) cs)"
    using assms(1) by (metis Suc_leI le_add_diff_inverse take_add)
  then have "sum_list (take (Suc q) cs) \<le> sum_list (take q' cs)" by simp
  moreover have "sum_list (take (Suc q) cs) = sum_list (take q cs) + cs ! q"
    using q by (simp add: take_Suc_conv_app_nth)
  ultimately show ?thesis using assms q by (simp add: prefix_sums_nth)
qed

lemma prefix_sums_disjoint:
  assumes "q < length cs" "q' < length cs" "q \<noteq> q'" "c < cs ! q" "c' < cs ! q'"
  shows "prefix_sums cs ! q + c \<noteq> prefix_sums cs ! q' + c'"
proof (cases "q < q'")
  case True
  from prefix_sums_next[OF True assms(2)] assms(4) show ?thesis by simp
next
  case False
  then have "q' < q" using assms(3) by simp
  from prefix_sums_next[OF this assms(1)] assms(5) show ?thesis by simp
qed

lemma prefix_sums_scaled_disjoint:
  assumes "q < length cs" "q' < length cs" "q \<noteq> q'" "c < cs ! q * m"
  shows "\<not> (prefix_sums cs ! q' * m \<le> prefix_sums cs ! q * m + c \<and>
           prefix_sums cs ! q * m + c < prefix_sums cs ! q' * m + cs ! q' * m)"
proof (cases "q < q'")
  case True
  from prefix_sums_next[OF True assms(2)]
  have "(prefix_sums cs ! q + cs ! q) * m \<le> prefix_sums cs ! q' * m" by (rule mult_le_mono1)
  then show ?thesis using assms(4) by (simp add: algebra_simps)
next
  case False
  then have "q' < q" using assms(3) by simp
  from prefix_sums_next[OF this assms(1)]
  have "(prefix_sums cs ! q' + cs ! q') * m \<le> prefix_sums cs ! q * m" by (rule mult_le_mono1)
  then show ?thesis by (simp add: algebra_simps)
qed

text \<open>The items of all blocks in the order of arrival, and where an item is.\<close>

lemma concat_blocks_length:
  assumes "\<forall>q<n. length (xs q) = cs ! q" "n \<le> length cs"
  shows "length (concat (map xs [0..<n])) = sum_list (take n cs)"
  using assms
proof (induction n)
  case 0 then show ?case by simp
next
  case (Suc n)
  then show ?case by (simp add: take_Suc_conv_app_nth)
qed

lemma concat_blocks_nth:
  assumes "\<forall>q<length cs. length (xs q) = cs ! q" "q < length cs" "c < cs ! q"
  shows "prefix_sums cs ! q + c < length (concat (map xs [0..<length cs]))"
    and "concat (map xs [0..<length cs]) ! (prefix_sums cs ! q + c) = xs q ! c"
proof -
  have *: "q < n \<Longrightarrow> n \<le> length cs \<Longrightarrow>
        prefix_sums cs ! q + c < length (concat (map xs [0..<n])) \<and>
        concat (map xs [0..<n]) ! (prefix_sums cs ! q + c) = xs q ! c" for n
  proof (induction n)
    case 0 then show ?case by simp
  next
    case (Suc n)
    have len: "length (concat (map xs [0..<n])) = sum_list (take n cs)"
      using concat_blocks_length[of n xs cs] assms(1) Suc.prems by simp
    show ?case
    proof (cases "q = n")
      case True
      then show ?thesis using assms len Suc.prems
        by (simp add: prefix_sums_nth nth_append)
    next
      case False
      then have "q < n" using Suc.prems by simp
      then show ?thesis using Suc by (simp add: nth_append)
    qed
  qed
  from *[of "length cs"] assms(2)
  show "prefix_sums cs ! q + c < length (concat (map xs [0..<length cs]))"
    and "concat (map xs [0..<length cs]) ! (prefix_sums cs ! q + c) = xs q ! c" by simp_all
qed

lemma concat_blocks_decomp:
  assumes "\<forall>q<length cs. length (xs q) = cs ! q"
    and "r < length (concat (map xs [0..<length cs]))"
  shows "\<exists>q c. q < length cs \<and> c < cs ! q \<and> r = prefix_sums cs ! q + c"
proof -
  have *: "n \<le> length cs \<Longrightarrow> r < length (concat (map xs [0..<n])) \<Longrightarrow>
        \<exists>q c. q < n \<and> c < cs ! q \<and> r = prefix_sums cs ! q + c" for n
  proof (induction n)
    case 0 then show ?case by simp
  next
    case (Suc n)
    have len: "length (concat (map xs [0..<n])) = sum_list (take n cs)"
      using concat_blocks_length[of n xs cs] assms(1) Suc.prems by simp
    show ?case
    proof (cases "r < length (concat (map xs [0..<n]))")
      case True
      then obtain q c where "q < n" "c < cs ! q" "r = prefix_sums cs ! q + c"
        using Suc by auto
      then show ?thesis using less_SucI by blast
    next
      case False
      have ln: "length (xs n) = cs ! n" using assms(1) Suc.prems by simp
      have "r - sum_list (take n cs) < cs ! n" using False Suc.prems(2) len ln by simp
      moreover have "r = prefix_sums cs ! n + (r - sum_list (take n cs))"
        using False len Suc.prems by (simp add: prefix_sums_nth)
      ultimately show ?thesis by blast
    qed
  qed
  from *[of "length cs"] assms(2) show ?thesis by blast
qed

subsection \<open>Counts and displacements that fit together\<close>

text \<open>
  What \<^verbatim>\<open>pxgstrs_init\<close> is to have set up on a process: the displacements are
  the running sums of the counts, and the arrays for the values are those for
  the indices times \<open>nrhs\<close>.
\<close>

definition counts_ok :: "nat \<Rightarrow> nat \<Rightarrow> comm_counts \<Rightarrow> bool" where
  "counts_ok procs nrhs c \<longleftrightarrow>
     length (SendCnt c) = procs \<and> length (RecvCnt c) = procs \<and>
     sdispls c = prefix_sums (SendCnt c) \<and> rdispls c = prefix_sums (RecvCnt c) \<and>
     SendCnt_nrhs c = map (\<lambda>v. v * nrhs) (SendCnt c) \<and>
     RecvCnt_nrhs c = map (\<lambda>v. v * nrhs) (RecvCnt c) \<and>
     sdispls_nrhs c = map (\<lambda>v. v * nrhs) (sdispls c) \<and>
     rdispls_nrhs c = map (\<lambda>v. v * nrhs) (rdispls c)"

text \<open>What a process is to receive from another is what that one sends to it.\<close>

definition counts_match :: "comm_counts list \<Rightarrow> bool" where
  "counts_match cs \<longleftrightarrow>
     list_all (\<lambda>p. list_all (\<lambda>q. RecvCnt (cs ! p) ! q = SendCnt (cs ! q) ! p) [0..<length cs])
       [0..<length cs]"

lemma counts_matchD:
  "counts_match cs \<Longrightarrow> p < length cs \<Longrightarrow> q < length cs \<Longrightarrow>
   RecvCnt (cs ! p) ! q = SendCnt (cs ! q) ! p"
  by (simp add: counts_match_def list_all_iff)

lemma exchange:
  fixes xs :: "nat \<Rightarrow> (nat \<times> (nat \<Rightarrow> real)) list"
  assumes ok: "\<forall>q<procs. counts_ok procs nrhs (c q)"
    and me: "me < procs"
    and rc: "\<forall>q<procs. RecvCnt (c me) ! q = SendCnt (c q) ! me"
    and len: "\<forall>q<procs. length (xs q) = SendCnt (c q) ! me"
    and snd_i: "\<forall>q<procs. \<forall>k<SendCnt (c q) ! me.
                  si q (sdispls (c q) ! me + k) = fst (xs q ! k)"
    and snd_d: "\<forall>q<procs. \<forall>k<SendCnt (c q) ! me. \<forall>j<nrhs.
                  sd q ((sdispls (c q) ! me + k) * nrhs + j) = snd (xs q ! k) j"
  shows "length (concat (map xs [0..<procs])) = sum_list (RecvCnt (c me))"
    and "\<forall>r<length (concat (map xs [0..<procs])).
           MPI_Alltoallv si (\<lambda>q. sdispls (c q)) (RecvCnt (c me)) (rdispls (c me)) procs me zi r
             = fst (concat (map xs [0..<procs]) ! r) \<and>
           (\<forall>j<nrhs.
              MPI_Alltoallv sd (\<lambda>q. sdispls_nrhs (c q)) (RecvCnt_nrhs (c me))
                (rdispls_nrhs (c me)) procs me zd (r * nrhs + j)
              = snd (concat (map xs [0..<procs]) ! r) j)"
proof -
  let ?rc = "RecvCnt (c me)"
  have okme: "counts_ok procs nrhs (c me)" using ok me by simp
  have lrc: "length ?rc = procs" using okme by (simp add: counts_ok_def)
  have rd: "rdispls (c me) = prefix_sums ?rc" using okme by (simp add: counts_ok_def)
  have rdn: "rdispls_nrhs (c me) = map (\<lambda>v. v * nrhs) (prefix_sums ?rc)"
    using okme by (simp add: counts_ok_def)
  have rcn: "RecvCnt_nrhs (c me) = map (\<lambda>v. v * nrhs) ?rc"
    using okme by (simp add: counts_ok_def)
  have lps: "length (prefix_sums ?rc) = procs" by (simp add: prefix_sums_def lrc)
  have lx: "\<forall>q<length ?rc. length (xs q) = ?rc ! q" using len rc lrc by simp
  show "length (concat (map xs [0..<procs])) = sum_list ?rc"
    using concat_blocks_length[of procs xs ?rc] lx lrc by simp
  show "\<forall>r<length (concat (map xs [0..<procs])).
           MPI_Alltoallv si (\<lambda>q. sdispls (c q)) ?rc (rdispls (c me)) procs me zi r
             = fst (concat (map xs [0..<procs]) ! r) \<and>
           (\<forall>j<nrhs.
              MPI_Alltoallv sd (\<lambda>q. sdispls_nrhs (c q)) (RecvCnt_nrhs (c me))
                (rdispls_nrhs (c me)) procs me zd (r * nrhs + j)
              = snd (concat (map xs [0..<procs]) ! r) j)"
  proof (intro allI impI conjI)
    fix r assume r: "r < length (concat (map xs [0..<procs]))"
    then obtain q k where q: "q < procs" and k: "k < ?rc ! q"
      and rq: "r = prefix_sums ?rc ! q + k"
      using concat_blocks_decomp[of ?rc xs r] lx lrc by auto
    have at: "concat (map xs [0..<procs]) ! r = xs q ! k"
      using concat_blocks_nth(2)[of ?rc xs q k] lx q k lrc rq by simp
    have ks: "k < SendCnt (c q) ! me" using k rc q by simp
    have okq: "counts_ok procs nrhs (c q)" using ok q by simp
    have dis: "\<forall>q'<procs. q' \<noteq> q \<longrightarrow>
        \<not> (prefix_sums ?rc ! q' \<le> prefix_sums ?rc ! q + k \<and>
           prefix_sums ?rc ! q + k < prefix_sums ?rc ! q' + ?rc ! q')"
    proof (intro allI impI)
      fix q' assume "q' < procs" "q' \<noteq> q"
      then show "\<not> (prefix_sums ?rc ! q' \<le> prefix_sums ?rc ! q + k \<and>
           prefix_sums ?rc ! q + k < prefix_sums ?rc ! q' + ?rc ! q')"
        using prefix_sums_scaled_disjoint[of q ?rc q' k 1] q k lrc by simp
    qed
    show "MPI_Alltoallv si (\<lambda>q. sdispls (c q)) ?rc (rdispls (c me)) procs me zi r
             = fst (concat (map xs [0..<procs]) ! r)"
      using MPI_Alltoallv_apply[of q procs k ?rc "prefix_sums ?rc" si "\<lambda>q. sdispls (c q)" me zi]
        q k dis snd_i ks
      by (simp add: rd rq at[unfolded rq])
    fix j assume j: "j < nrhs"
    let ?k = "k * nrhs + j"
    have kn: "?k < ?rc ! q * nrhs"
    proof -
      have "k * nrhs + j < (k + 1) * nrhs" using j by simp
      also have "\<dots> \<le> ?rc ! q * nrhs" using k by (intro mult_le_mono1) simp
      finally show ?thesis .
    qed
    have disn: "\<forall>q'<procs. q' \<noteq> q \<longrightarrow>
        \<not> (rdispls_nrhs (c me) ! q' \<le> rdispls_nrhs (c me) ! q + ?k \<and>
           rdispls_nrhs (c me) ! q + ?k < rdispls_nrhs (c me) ! q' + RecvCnt_nrhs (c me) ! q')"
    proof (intro allI impI)
      fix q' assume "q' < procs" "q' \<noteq> q"
      then show "\<not> (rdispls_nrhs (c me) ! q' \<le> rdispls_nrhs (c me) ! q + ?k \<and>
           rdispls_nrhs (c me) ! q + ?k < rdispls_nrhs (c me) ! q' + RecvCnt_nrhs (c me) ! q')"
        using prefix_sums_scaled_disjoint[of q ?rc q' ?k nrhs] q kn lrc lps
        by (simp add: rdn rcn)
    qed
    have "MPI_Alltoallv sd (\<lambda>q. sdispls_nrhs (c q)) (RecvCnt_nrhs (c me))
                (rdispls_nrhs (c me)) procs me zd (rdispls_nrhs (c me) ! q + ?k)
          = sd q (sdispls_nrhs (c q) ! me + ?k)"
      using MPI_Alltoallv_apply[of q procs ?k "RecvCnt_nrhs (c me)" "rdispls_nrhs (c me)"
          sd "\<lambda>q. sdispls_nrhs (c q)" me zd] q kn disn lrc
      by (simp add: rcn)
    moreover have "rdispls_nrhs (c me) ! q + ?k = r * nrhs + j"
      using q lps by (simp add: rdn rq algebra_simps)
    moreover have "sdispls_nrhs (c q) ! me + ?k = (sdispls (c q) ! me + k) * nrhs + j"
    proof -
      have "length (sdispls (c q)) = procs"
        using okq by (simp add: counts_ok_def prefix_sums_def)
      then show ?thesis using okq me by (simp add: counts_ok_def algebra_simps)
    qed
    ultimately show "MPI_Alltoallv sd (\<lambda>q. sdispls_nrhs (c q)) (RecvCnt_nrhs (c me))
                (rdispls_nrhs (c me)) procs me zd (r * nrhs + j)
              = snd (concat (map xs [0..<procs]) ! r) j"
      using snd_d q ks j by (simp add: at)
  qed
qed

subsection \<open>From \<open>B\<close> to the send buffers\<close>

definition perm_row :: "system_t \<Rightarrow> local_t \<Rightarrow> nat \<Rightarrow> nat" where
  "perm_row S P i = perm_c (ScalePermstruct S) ! (perm_r (ScalePermstruct S) ! (fst_row P + i))"

definition diag_proc :: "system_t \<Rightarrow> gridinfo_t \<Rightarrow> nat \<Rightarrow> nat" where
  "diag_proc S g irow =
     PNUM (PROW (BlockNum (Glu_persist S) irow) g) (PCOL (BlockNum (Glu_persist S) irow) g) g"

text \<open>The local rows of a process that go to the process \<open>p\<close>, in rising order.\<close>

definition B_rows_to :: "system_t \<Rightarrow> local_t \<Rightarrow> nat \<Rightarrow> nat list" where
  "B_rows_to S P p =
     filter (\<lambda>i. diag_proc S (loc_grid P) (perm_row S P i) = p) [0..<m_loc P]"

lemma diag_proc_less:
  assumes "0 < nprow g" "0 < npcol g"
  shows "diag_proc S g irow < nprow g * npcol g"
proof -
  let ?k = "BlockNum (Glu_persist S) irow"
  have "?k mod nprow g < nprow g" "?k mod npcol g < npcol g" using assms by simp_all
  then have "?k mod nprow g * npcol g + ?k mod npcol g < (?k mod nprow g + 1) * npcol g"
    by simp
  also have "\<dots> \<le> nprow g * npcol g"
    using \<open>?k mod nprow g < nprow g\<close> by (intro mult_le_mono1) simp
  finally show ?thesis by (simp add: diag_proc_def PNUM_def PROW_def PCOL_def)
qed

lemma B_to_X_copy_row_eq:
  "B_to_X_copy_row S P B i st =
     put_at_dest (sys_nrhs S)
       (diag_proc S (loc_grid P) (perm_row S P i), perm_row S P i, \<lambda>j. B (i + j * ldb P)) st"
  by (simp add: B_to_X_copy_row_def put_at_dest_def Let_def diag_proc_def perm_row_def)

lemma B_to_X_fill_eq:
  "B_to_X_fill S P B =
     fold (put_at_dest (sys_nrhs S))
       (map (\<lambda>i. (diag_proc S (loc_grid P) (perm_row S P i), perm_row S P i,
                   \<lambda>j. B (i + j * ldb P))) [0..<m_loc P])
       \<lparr>ptr_to_ibuf = (\<lambda>p. sdispls (B_to_X_SendCnt (SOLVEstruct P)) ! p),
        ptr_to_dbuf = (\<lambda>p. sdispls (B_to_X_SendCnt (SOLVEstruct P)) ! p * sys_nrhs S),
        send_ibuf = (\<lambda>k. 0), send_dbuf = (\<lambda>k. 0)\<rparr>"
proof -
  have "B_to_X_copy_row S P B =
        put_at_dest (sys_nrhs S) \<circ>
          (\<lambda>i. (diag_proc S (loc_grid P) (perm_row S P i), perm_row S P i,
                 \<lambda>j. B (i + j * ldb P)))"
    by (rule ext)+ (simp add: B_to_X_copy_row_eq)
  then show ?thesis by (simp add: B_to_X_fill_def Let_def fold_map)
qed

lemma fill_by_dest:
  fixes recs :: "(nat \<times> nat \<times> (nat \<Rightarrow> real)) list"
  assumes ok: "counts_ok procs nrhs c"
    and cnt: "\<forall>p<procs. SendCnt c ! p = length (to_dest p recs)"
    and dst: "\<forall>r\<in>set recs. fst r < procs"
    and p: "p < procs" and k: "k < SendCnt c ! p"
  shows "send_ibuf (fold (put_at_dest nrhs) recs
            \<lparr>ptr_to_ibuf = (\<lambda>p. sdispls c ! p), ptr_to_dbuf = (\<lambda>p. sdispls c ! p * nrhs),
             send_ibuf = zi, send_dbuf = zd\<rparr>) (sdispls c ! p + k)
         = fst (snd (to_dest p recs ! k))"
    and "j < nrhs \<Longrightarrow>
         send_dbuf (fold (put_at_dest nrhs) recs
            \<lparr>ptr_to_ibuf = (\<lambda>p. sdispls c ! p), ptr_to_dbuf = (\<lambda>p. sdispls c ! p * nrhs),
             send_ibuf = zi, send_dbuf = zd\<rparr>) ((sdispls c ! p + k) * nrhs + j)
         = snd (snd (to_dest p recs ! k)) j"
proof -
  let ?st0 = "\<lparr>ptr_to_ibuf = (\<lambda>p. sdispls c ! p), ptr_to_dbuf = (\<lambda>p. sdispls c ! p * nrhs),
             send_ibuf = zi, send_dbuf = zd\<rparr>"
  let ?N = "\<lambda>d. if d < procs then SendCnt c ! d else 0"
  have ls: "length (SendCnt c) = procs" and sd: "sdispls c = prefix_sums (SendCnt c)"
    using ok by (simp_all add: counts_ok_def)
  have a1: "\<forall>d. ptr_to_dbuf ?st0 d = ptr_to_ibuf ?st0 d * nrhs" by simp
  have a2: "\<forall>d. length (to_dest d recs) \<le> ?N d"
  proof
    fix d
    show "length (to_dest d recs) \<le> ?N d"
    proof (cases "d < procs")
      case True then show ?thesis using cnt by simp
    next
      case False
      then have "to_dest d recs = []" using dst by (auto simp: to_dest_def filter_empty_conv)
      then show ?thesis by simp
    qed
  qed
  have a3: "\<forall>d d' c1 c2. d \<noteq> d' \<longrightarrow> c1 < ?N d \<longrightarrow> c2 < ?N d' \<longrightarrow>
           ptr_to_ibuf ?st0 d + c1 \<noteq> ptr_to_ibuf ?st0 d' + c2"
  proof (intro allI impI)
    fix d d' c1 c2 assume h: "d \<noteq> d'" "c1 < ?N d" "c2 < ?N d'"
    then have "d < procs" "d' < procs" by (auto split: if_splits)
    then show "ptr_to_ibuf ?st0 d + c1 \<noteq> ptr_to_ibuf ?st0 d' + c2"
      using prefix_sums_disjoint[of d "SendCnt c" d' c1 c2] h ls by (simp add: sd)
  qed
  note F = put_at_dest_fold[OF a1 a2 a3]
  have kk: "k < length (to_dest p recs)" using k cnt p by simp
  show "send_ibuf (fold (put_at_dest nrhs) recs ?st0) (sdispls c ! p + k)
         = fst (snd (to_dest p recs ! k))"
    using F kk by simp
  show "j < nrhs \<Longrightarrow>
         send_dbuf (fold (put_at_dest nrhs) recs ?st0) ((sdispls c ! p + k) * nrhs + j)
         = snd (snd (to_dest p recs ! k)) j"
    using F kk by simp
qed

lemma B_to_X_fill_spec:
  assumes ok: "counts_ok procs (sys_nrhs S) (B_to_X_SendCnt (SOLVEstruct P))"
    and cnt: "\<forall>p<procs. SendCnt (B_to_X_SendCnt (SOLVEstruct P)) ! p = length (B_rows_to S P p)"
    and g: "0 < nprow (loc_grid P)" "0 < npcol (loc_grid P)"
           "nprow (loc_grid P) * npcol (loc_grid P) = procs"
    and p: "p < procs" and k: "k < SendCnt (B_to_X_SendCnt (SOLVEstruct P)) ! p"
  shows "send_ibuf (B_to_X_fill S P B) (sdispls (B_to_X_SendCnt (SOLVEstruct P)) ! p + k)
           = perm_row S P (B_rows_to S P p ! k)"
    and "j < sys_nrhs S \<Longrightarrow>
         send_dbuf (B_to_X_fill S P B)
           ((sdispls (B_to_X_SendCnt (SOLVEstruct P)) ! p + k) * sys_nrhs S + j)
           = B (B_rows_to S P p ! k + j * ldb P)"
proof -
  let ?rec = "\<lambda>i. (diag_proc S (loc_grid P) (perm_row S P i), perm_row S P i,
                   \<lambda>j. B (i + j * ldb P))"
  let ?recs = "map ?rec [0..<m_loc P]"
  let ?c = "B_to_X_SendCnt (SOLVEstruct P)"
  have td: "to_dest d ?recs = map ?rec (B_rows_to S P d)" for d
    by (simp add: to_dest_def B_rows_to_def filter_map comp_def)
  have cnt': "\<forall>p<procs. SendCnt ?c ! p = length (to_dest p ?recs)"
    using cnt by (simp add: td)
  have dst: "\<forall>r\<in>set ?recs. fst r < procs"
    using diag_proc_less[OF g(1,2)] g(3) by auto
  have kk: "k < length (B_rows_to S P p)" using k cnt p by simp
  note F = fill_by_dest[OF ok cnt' dst p k, where zi = "\<lambda>k. 0" and zd = "\<lambda>k. 0"]
  show "send_ibuf (B_to_X_fill S P B) (sdispls ?c ! p + k) = perm_row S P (B_rows_to S P p ! k)"
    using F(1) kk unfolding B_to_X_fill_eq by (simp add: td)
  show "j < sys_nrhs S \<Longrightarrow>
         send_dbuf (B_to_X_fill S P B) ((sdispls ?c ! p + k) * sys_nrhs S + j)
           = B (B_rows_to S P p ! k + j * ldb P)"
    using F(2) kk unfolding B_to_X_fill_eq by (simp add: td)
qed

subsection \<open>From the receive buffers to \<open>x\<close>\<close>

text \<open>Where row \<open>irow\<close> of right-hand side \<open>j\<close> lies in \<open>x\<close>, and the header cell of its block.\<close>

definition X_pos :: "system_t \<Rightarrow> local_t \<Rightarrow> nat \<Rightarrow> nat \<Rightarrow> nat" where
  "X_pos S P irow j =
     X_BLK P (LBi (BlockNum (Glu_persist S) irow) (loc_grid P))
       + (irow - FstBlockC (Glu_persist S) (BlockNum (Glu_persist S) irow))
       + j * SuperSize (Glu_persist S) (BlockNum (Glu_persist S) irow)"

definition X_hdr :: "system_t \<Rightarrow> local_t \<Rightarrow> nat \<Rightarrow> nat" where
  "X_hdr S P irow = X_BLK P (LBi (BlockNum (Glu_persist S) irow) (loc_grid P)) - sys_XK_H S"

definition put_record :: "system_t \<Rightarrow> local_t \<Rightarrow> nat \<times> (nat \<Rightarrow> real) \<Rightarrow> (nat \<Rightarrow> real) \<Rightarrow> (nat \<Rightarrow> real)" where
  "put_record S P r x =
     strided_fill (sys_nrhs S) (X_pos S P (fst r) 0)
       (SuperSize (Glu_persist S) (BlockNum (Glu_persist S) (fst r))) (snd r)
       (x(X_hdr S P (fst r) := real (BlockNum (Glu_persist S) (fst r))))"

lemma X_put_row_eq:
  "X_put_row S P ri rd (ii, jj, x) =
     (ii + 1, jj + sys_nrhs S, put_record S P (ri ii, \<lambda>j. rd (jj + j)) x)"
  by (simp add: X_put_row_def put_record_def Let_def strided_fill_def X_pos_def X_hdr_def)

lemma X_put_rows:
  "fold (\<lambda>i. X_put_row S P ri rd) [0..<n] (ii, jj, x) =
     (ii + n, jj + n * sys_nrhs S,
      fold (\<lambda>t. put_record S P (ri (ii + t), \<lambda>j. rd (jj + t * sys_nrhs S + j))) [0..<n] x)"
  by (induction n) (simp_all add: X_put_row_eq algebra_simps)

lemma fold_upt_add:
  "fold f [0..<a + b] x = fold (\<lambda>t. f (a + t)) [0..<b] (fold f [0..<a] x)"
proof -
  have 1: "[0..<a + b] = [0..<a] @ [a..<a + b]"
    by (rule upt_add_eq_append) simp
  have "map (\<lambda>t. t + a) [0..<b] = [a..<b + a]" by (rule map_add_upt)
  then have 2: "[a..<a + b] = map (\<lambda>t. a + t) [0..<b]"
    by (simp only: add.commute[of a])
  show ?thesis unfolding 1 2 by (simp add: fold_map comp_def)
qed

lemma B_to_X_scatter_eq:
  assumes ok: "counts_ok procs (sys_nrhs S) (B_to_X_SendCnt (SOLVEstruct P))"
    and g: "nprow (loc_grid P) * npcol (loc_grid P) = procs"
  shows "B_to_X_scatter S P ri rd x =
     fold (\<lambda>r. put_record S P (ri r, \<lambda>j. rd (r * sys_nrhs S + j)))
       [0..<sum_list (RecvCnt (B_to_X_SendCnt (SOLVEstruct P)))] x"
proof -
  let ?c = "B_to_X_SendCnt (SOLVEstruct P)"
  let ?rc = "RecvCnt ?c"
  let ?n = "sys_nrhs S"
  let ?f = "\<lambda>r. put_record S P (ri r, \<lambda>j. rd (r * ?n + j))"
  let ?step = "\<lambda>p (ii, x).
                 case fold (\<lambda>i. X_put_row S P ri rd) [0..<?rc ! p]
                        (ii, rdispls_nrhs ?c ! p, x)
                 of (ii', jj', x') \<Rightarrow> (ii', x')"
  have lrc: "length ?rc = procs" using ok by (simp add: counts_ok_def)
  have rdn: "m < procs \<Longrightarrow> rdispls_nrhs ?c ! m = sum_list (take m ?rc) * ?n" for m
    using ok by (simp add: counts_ok_def prefix_sums_def)
  have "m \<le> procs \<Longrightarrow>
        fold ?step [0..<m] (0, x) = (sum_list (take m ?rc), fold ?f [0..<sum_list (take m ?rc)] x)"
    for m
  proof (induction m)
    case 0 then show ?case by simp
  next
    case (Suc m)
    have m: "m < procs" using Suc.prems by simp
    let ?a = "sum_list (take m ?rc)"
    have t: "sum_list (take (Suc m) ?rc) = ?a + ?rc ! m"
      using m lrc by (simp add: take_Suc_conv_app_nth)
    have IH: "fold ?step [0..<m] (0, x) = (?a, fold ?f [0..<?a] x)"
      using Suc by simp
    have "fold ?step [0..<Suc m] (0, x) = ?step m (?a, fold ?f [0..<?a] x)"
      by (simp add: IH)
    also have "\<dots> = (?a + ?rc ! m,
        fold (\<lambda>t. put_record S P (ri (?a + t), \<lambda>j. rd (?a * ?n + t * ?n + j)))
          [0..<?rc ! m] (fold ?f [0..<?a] x))"
      by (simp add: X_put_rows rdn[OF m])
    also have "(\<lambda>t. put_record S P (ri (?a + t), \<lambda>j. rd (?a * ?n + t * ?n + j)))
               = (\<lambda>t. ?f (?a + t))"
      by (simp add: algebra_simps)
    also have "fold (\<lambda>t. ?f (?a + t)) [0..<?rc ! m] (fold ?f [0..<?a] x)
               = fold ?f [0..<?a + ?rc ! m] x"
      by (rule fold_upt_add[symmetric])
    finally show ?case by (simp add: t)
  qed
  from this[of procs] show ?thesis
    using lrc g by (simp add: B_to_X_scatter_def Let_def)
qed

lemma strided_fill_cong:
  "\<forall>j<n. f j = g j \<Longrightarrow> strided_fill n a s f x = strided_fill n a s g x"
  by (induction n) (simp_all add: strided_fill_def)

lemma put_record_cong:
  "\<forall>j<sys_nrhs S. v j = w j \<Longrightarrow> put_record S P (i, v) x = put_record S P (i, w) x"
  by (simp add: put_record_def strided_fill_cong)

lemma fold_records:
  assumes "\<forall>r<length recs. ri r = fst (recs ! r) \<and>
              (\<forall>j<sys_nrhs S. rd (r * sys_nrhs S + j) = snd (recs ! r) j)"
  shows "fold (\<lambda>r. put_record S P (ri r, \<lambda>j. rd (r * sys_nrhs S + j))) [0..<length recs] x
           = fold (put_record S P) recs x"
proof -
  have "\<forall>r\<in>set [0..<length recs].
          (\<lambda>r. put_record S P (ri r, \<lambda>j. rd (r * sys_nrhs S + j))) r
          = (put_record S P \<circ> (\<lambda>r. recs ! r)) r"
  proof
    fix r assume "r \<in> set [0..<length recs]"
    then have r: "r < length recs" by simp
    have "ri r = fst (recs ! r)" "\<forall>j<sys_nrhs S. rd (r * sys_nrhs S + j) = snd (recs ! r) j"
      using assms r by simp_all
    then have "put_record S P (ri r, \<lambda>j. rd (r * sys_nrhs S + j))
          = put_record S P (fst (recs ! r), snd (recs ! r))"
      using put_record_cong[of S "\<lambda>j. rd (r * sys_nrhs S + j)" "snd (recs ! r)" P "fst (recs ! r)"]
      by (intro ext) simp
    then show "(\<lambda>r. put_record S P (ri r, \<lambda>j. rd (r * sys_nrhs S + j))) r
          = (put_record S P \<circ> (\<lambda>r. recs ! r)) r" by simp
  qed
  then have "fold (\<lambda>r. put_record S P (ri r, \<lambda>j. rd (r * sys_nrhs S + j))) [0..<length recs] x
           = fold (put_record S P \<circ> (\<lambda>r. recs ! r)) [0..<length recs] x"
    by (intro fold_cong) auto
  also have "\<dots> = fold (put_record S P) (map (\<lambda>r. recs ! r) [0..<length recs]) x"
    by (simp add: fold_map)
  also have "map (\<lambda>r. recs ! r) [0..<length recs] = recs" by (rule map_nth)
  finally show ?thesis .
qed

text \<open>
  The cells of the rows \<open>rows\<close> in the \<open>x\<close> of a process lie in \<open>x\<close> and do not
  overlap: the header cell \<^verbatim>\<open>X_BLK(lk) - XK_H\<close> and the offset
  \<^verbatim>\<open>irow - FstBlockC(k)\<close> are not negative (so that the differences of natural
  numbers in \<open>X_put_row\<close> are those of the code), two different cells for
  values are apart, no header cell is a cell for a value, and blocks with the
  same header cell are the same block.
\<close>

definition X_layout_ok :: "system_t \<Rightarrow> local_t \<Rightarrow> nat list \<Rightarrow> bool" where
  "X_layout_ok S P rows \<longleftrightarrow>
     list_all (\<lambda>a.
       sys_XK_H S \<le> X_BLK P (LBi (BlockNum (Glu_persist S) a) (loc_grid P)) \<and>
       FstBlockC (Glu_persist S) (BlockNum (Glu_persist S) a) \<le> a) rows \<and>
     list_all (\<lambda>a.
       0 < SuperSize (Glu_persist S) (BlockNum (Glu_persist S) a) \<and>
       list_all (\<lambda>b.
         (X_hdr S P a = X_hdr S P b \<longrightarrow>
            BlockNum (Glu_persist S) a = BlockNum (Glu_persist S) b) \<and>
         list_all (\<lambda>j.
           X_hdr S P a \<noteq> X_pos S P b j \<and>
           list_all (\<lambda>j'. X_pos S P a j = X_pos S P b j' \<longrightarrow> a = b \<and> j = j')
             [0..<sys_nrhs S])
           [0..<sys_nrhs S])
         rows)
       rows"

lemma X_layout_okD:
  assumes "X_layout_ok S P rows" "a \<in> set rows" "b \<in> set rows"
  shows "0 < SuperSize (Glu_persist S) (BlockNum (Glu_persist S) a)"
    and "X_hdr S P a = X_hdr S P b \<Longrightarrow> BlockNum (Glu_persist S) a = BlockNum (Glu_persist S) b"
    and "j < sys_nrhs S \<Longrightarrow> X_hdr S P a \<noteq> X_pos S P b j"
    and "j < sys_nrhs S \<Longrightarrow> j' < sys_nrhs S \<Longrightarrow> X_pos S P a j = X_pos S P b j' \<Longrightarrow>
         a = b \<and> j = j'"
proof -
  have 1: "0 < SuperSize (Glu_persist S) (BlockNum (Glu_persist S) a) \<and>
       list_all (\<lambda>b.
         (X_hdr S P a = X_hdr S P b \<longrightarrow>
            BlockNum (Glu_persist S) a = BlockNum (Glu_persist S) b) \<and>
         list_all (\<lambda>j.
           X_hdr S P a \<noteq> X_pos S P b j \<and>
           list_all (\<lambda>j'. X_pos S P a j = X_pos S P b j' \<longrightarrow> a = b \<and> j = j')
             [0..<sys_nrhs S])
           [0..<sys_nrhs S])
         rows"
    using assms(1,2) unfolding X_layout_ok_def list_all_iff[of _ rows] by blast
  then show "0 < SuperSize (Glu_persist S) (BlockNum (Glu_persist S) a)" by simp
  have 2: "(X_hdr S P a = X_hdr S P b \<longrightarrow>
            BlockNum (Glu_persist S) a = BlockNum (Glu_persist S) b) \<and>
         list_all (\<lambda>j.
           X_hdr S P a \<noteq> X_pos S P b j \<and>
           list_all (\<lambda>j'. X_pos S P a j = X_pos S P b j' \<longrightarrow> a = b \<and> j = j')
             [0..<sys_nrhs S])
           [0..<sys_nrhs S]"
    using 1 assms(3) unfolding list_all_iff[of _ rows] by blast
  then show "X_hdr S P a = X_hdr S P b \<Longrightarrow>
             BlockNum (Glu_persist S) a = BlockNum (Glu_persist S) b" by simp
  have 3: "X_hdr S P a \<noteq> X_pos S P b j \<and>
           list_all (\<lambda>j'. X_pos S P a j = X_pos S P b j' \<longrightarrow> a = b \<and> j = j')
             [0..<sys_nrhs S]" if "j < sys_nrhs S" for j
    using 2 that by (simp add: list_all_length)
  show "j < sys_nrhs S \<Longrightarrow> X_hdr S P a \<noteq> X_pos S P b j" using 3 by simp
  show "j < sys_nrhs S \<Longrightarrow> j' < sys_nrhs S \<Longrightarrow> X_pos S P a j = X_pos S P b j' \<Longrightarrow>
         a = b \<and> j = j'"
    using 3[of j] by (simp add: list_all_length)
qed

lemma put_record_apply:
  assumes "0 < SuperSize (Glu_persist S) (BlockNum (Glu_persist S) i)"
  shows "j < sys_nrhs S \<Longrightarrow> put_record S P (i, v) x (X_pos S P i j) = v j"
    and "\<forall>j<sys_nrhs S. a \<noteq> X_pos S P i j \<Longrightarrow> a \<noteq> X_hdr S P i \<Longrightarrow>
         put_record S P (i, v) x a = x a"
    and "\<forall>j<sys_nrhs S. X_hdr S P i \<noteq> X_pos S P i j \<Longrightarrow>
         put_record S P (i, v) x (X_hdr S P i) = real (BlockNum (Glu_persist S) i)"
proof -
  have pos: "X_pos S P i j = X_pos S P i 0 + j * SuperSize (Glu_persist S) (BlockNum (Glu_persist S) i)"
    for j by (simp add: X_pos_def)
  show "j < sys_nrhs S \<Longrightarrow> put_record S P (i, v) x (X_pos S P i j) = v j"
    using assms unfolding put_record_def fst_conv snd_conv pos[of j]
    by (rule strided_fill_hit)
  have miss: "put_record S P (i, v) x a
               = (x(X_hdr S P i := real (BlockNum (Glu_persist S) i))) a"
    if "\<forall>j<sys_nrhs S. a \<noteq> X_pos S P i j" for a
  proof -
    have "\<forall>j<sys_nrhs S. a \<noteq> X_pos S P i 0
            + j * SuperSize (Glu_persist S) (BlockNum (Glu_persist S) i)"
      using that pos by metis
    then show ?thesis
      unfolding put_record_def fst_conv snd_conv by (rule strided_fill_miss)
  qed
  show "\<forall>j<sys_nrhs S. a \<noteq> X_pos S P i j \<Longrightarrow> a \<noteq> X_hdr S P i \<Longrightarrow>
         put_record S P (i, v) x a = x a"
    using miss[of a] by simp
  show "\<forall>j<sys_nrhs S. X_hdr S P i \<noteq> X_pos S P i j \<Longrightarrow>
         put_record S P (i, v) x (X_hdr S P i) = real (BlockNum (Glu_persist S) i)"
    using miss[of "X_hdr S P i"] by simp
qed

lemma fold_put_record_keeps:
  assumes L: "X_layout_ok S P rows" and sub: "fst ` set recs \<subseteq> set rows" and a: "i \<in> set rows"
    and ni: "i \<notin> fst ` set recs"
  shows "j < sys_nrhs S \<Longrightarrow> x (X_pos S P i j) = v \<Longrightarrow>
         fold (put_record S P) recs x (X_pos S P i j) = v"
  using sub ni
proof (induction recs arbitrary: x)
  case Nil then show ?case by simp
next
  case (Cons r recs)
  obtain i' v' where r: "r = (i', v')" by (cases r) auto
  have i': "i' \<in> set rows" "i' \<noteq> i" using Cons.prems r by auto
  have s: "0 < SuperSize (Glu_persist S) (BlockNum (Glu_persist S) i')"
    using X_layout_okD(1)[OF L i'(1) i'(1)] .
  have "put_record S P (i', v') x (X_pos S P i j) = x (X_pos S P i j)"
  proof (rule put_record_apply(2)[OF s])
    show "\<forall>j'<sys_nrhs S. X_pos S P i j \<noteq> X_pos S P i' j'"
      using X_layout_okD(4)[OF L a i'(1)] Cons.prems(1) i'(2) by blast
    show "X_pos S P i j \<noteq> X_hdr S P i'"
      using X_layout_okD(3)[OF L i'(1) a] Cons.prems(1) by metis
  qed
  then show ?case using Cons r by simp
qed

lemma fold_put_record_hdr:
  assumes L: "X_layout_ok S P rows" and sub: "fst ` set recs \<subseteq> set rows" and a: "i \<in> set rows"
  shows "x (X_hdr S P i) = real (BlockNum (Glu_persist S) i) \<Longrightarrow>
         fold (put_record S P) recs x (X_hdr S P i) = real (BlockNum (Glu_persist S) i)"
  using sub
proof (induction recs arbitrary: x)
  case Nil then show ?case by simp
next
  case (Cons r recs)
  obtain i' v' where r: "r = (i', v')" by (cases r) auto
  have i': "i' \<in> set rows" using Cons.prems r by auto
  have s: "0 < SuperSize (Glu_persist S) (BlockNum (Glu_persist S) i')"
    using X_layout_okD(1)[OF L i' i'] .
  have np: "\<forall>j<sys_nrhs S. X_hdr S P i \<noteq> X_pos S P i' j"
    using X_layout_okD(3)[OF L a i'] by blast
  have "put_record S P (i', v') x (X_hdr S P i) = real (BlockNum (Glu_persist S) i)"
  proof (cases "X_hdr S P i = X_hdr S P i'")
    case True
    have "BlockNum (Glu_persist S) i = BlockNum (Glu_persist S) i'"
      using X_layout_okD(2)[OF L a i' True] .
    moreover have "put_record S P (i', v') x (X_hdr S P i') = real (BlockNum (Glu_persist S) i')"
      using put_record_apply(3)[OF s] np True by simp
    ultimately show ?thesis using True by simp
  next
    case False
    then show ?thesis using put_record_apply(2)[OF s, of "X_hdr S P i" P v' x] np Cons.prems(1)
      by simp
  qed
  then show ?case using Cons r by simp
qed

lemma fold_put_record_apply:
  assumes L: "X_layout_ok S P rows" and sub: "fst ` set recs \<subseteq> set rows"
    and d: "distinct (map fst recs)" and m: "(i, v) \<in> set recs"
  shows "j < sys_nrhs S \<Longrightarrow> fold (put_record S P) recs x (X_pos S P i j) = v j"
    and "fold (put_record S P) recs x (X_hdr S P i) = real (BlockNum (Glu_persist S) i)"
proof -
  have i: "i \<in> set rows" using sub m by force
  have s: "0 < SuperSize (Glu_persist S) (BlockNum (Glu_persist S) i)"
    using X_layout_okD(1)[OF L i i] .
  obtain pre post where sp: "recs = pre @ (i, v) # post"
    using m by (meson split_list)
  have ni: "i \<notin> fst ` set post" using d by (simp add: sp)
  have subp: "fst ` set post \<subseteq> set rows" using sub by (auto simp: sp)
  let ?x1 = "put_record S P (i, v) (fold (put_record S P) pre x)"
  have f: "fold (put_record S P) recs x = fold (put_record S P) post ?x1" by (simp add: sp)
  show "j < sys_nrhs S \<Longrightarrow> fold (put_record S P) recs x (X_pos S P i j) = v j"
    unfolding f
    using fold_put_record_keeps[OF L subp i ni] put_record_apply(1)[OF s] by blast
  have "?x1 (X_hdr S P i) = real (BlockNum (Glu_persist S) i)"
    using put_record_apply(3)[OF s] X_layout_okD(3)[OF L i i] by blast
  then show "fold (put_record S P) recs x (X_hdr S P i) = real (BlockNum (Glu_persist S) i)"
    unfolding f by (rule fold_put_record_hdr[OF L subp i])
qed

subsection \<open>The whole redistribution from \<open>B\<close> to \<open>x\<close>\<close>

text \<open>
  The permuted indices of the rows that arrive at the process \<open>p\<close>, in the
  order of the sending processes.
\<close>

definition incoming_rows :: "system_t \<Rightarrow> local_t list \<Rightarrow> nat \<Rightarrow> nat list" where
  "incoming_rows S Ps p =
     concat (map (\<lambda>q. map (perm_row S (Ps ! q)) (B_rows_to S (Ps ! q) p)) [0..<length Ps])"

text \<open>
  A setup of the redistribution that fits the distribution of the rows: the
  processes are those of one grid, the counts of every process are the numbers
  of its rows per diagonal process with displacements that fit, what a
  process is to receive is what is sent to it, the cells of the rows that
  arrive at a process do not overlap in its \<open>x\<close>, and different rows have
  different permuted indices.
\<close>

definition B_to_X_setup :: "system_t \<Rightarrow> local_t list \<Rightarrow> bool" where
  "B_to_X_setup S Ps \<longleftrightarrow>
     0 < length Ps \<and>
     list_all (\<lambda>q.
        nprow (loc_grid (Ps ! q)) * npcol (loc_grid (Ps ! q)) = length Ps \<and>
        nprow (loc_grid (Ps ! q)) = nprow (loc_grid (Ps ! 0)) \<and>
        npcol (loc_grid (Ps ! q)) = npcol (loc_grid (Ps ! 0)) \<and>
        counts_ok (length Ps) (sys_nrhs S) (B_to_X_SendCnt (SOLVEstruct (Ps ! q))) \<and>
        list_all (\<lambda>p. SendCnt (B_to_X_SendCnt (SOLVEstruct (Ps ! q))) ! p
                        = length (B_rows_to S (Ps ! q) p)) [0..<length Ps] \<and>
        X_layout_ok S (Ps ! q) (incoming_rows S Ps q))
       [0..<length Ps] \<and>
     counts_match (map (\<lambda>P. B_to_X_SendCnt (SOLVEstruct P)) Ps) \<and>
     distinct (concat (map (\<lambda>q. map (perm_row S (Ps ! q)) [0..<m_loc (Ps ! q)])
                         [0..<length Ps]))"

lemma list_all_uptD: "list_all P [0..<n] \<Longrightarrow> q < n \<Longrightarrow> P q"
  by (simp add: list_all_iff)

lemma B_to_X_setupD:
  assumes "B_to_X_setup S Ps" "q < length Ps"
  shows "nprow (loc_grid (Ps ! q)) * npcol (loc_grid (Ps ! q)) = length Ps"
    and "0 < nprow (loc_grid (Ps ! q))" and "0 < npcol (loc_grid (Ps ! q))"
    and "nprow (loc_grid (Ps ! q)) = nprow (loc_grid (Ps ! 0))"
    and "npcol (loc_grid (Ps ! q)) = npcol (loc_grid (Ps ! 0))"
    and "counts_ok (length Ps) (sys_nrhs S) (B_to_X_SendCnt (SOLVEstruct (Ps ! q)))"
    and "\<forall>p<length Ps. SendCnt (B_to_X_SendCnt (SOLVEstruct (Ps ! q))) ! p
                        = length (B_rows_to S (Ps ! q) p)"
    and "X_layout_ok S (Ps ! q) (incoming_rows S Ps q)"
proof -
  have L: "list_all (\<lambda>q.
        nprow (loc_grid (Ps ! q)) * npcol (loc_grid (Ps ! q)) = length Ps \<and>
        nprow (loc_grid (Ps ! q)) = nprow (loc_grid (Ps ! 0)) \<and>
        npcol (loc_grid (Ps ! q)) = npcol (loc_grid (Ps ! 0)) \<and>
        counts_ok (length Ps) (sys_nrhs S) (B_to_X_SendCnt (SOLVEstruct (Ps ! q))) \<and>
        list_all (\<lambda>p. SendCnt (B_to_X_SendCnt (SOLVEstruct (Ps ! q))) ! p
                        = length (B_rows_to S (Ps ! q) p)) [0..<length Ps] \<and>
        X_layout_ok S (Ps ! q) (incoming_rows S Ps q))
       [0..<length Ps]"
    using assms(1) unfolding B_to_X_setup_def by blast
  note a = list_all_uptD[OF L assms(2)]
  show 1: "nprow (loc_grid (Ps ! q)) * npcol (loc_grid (Ps ! q)) = length Ps"
    using a by blast
  show "nprow (loc_grid (Ps ! q)) = nprow (loc_grid (Ps ! 0))"
    "npcol (loc_grid (Ps ! q)) = npcol (loc_grid (Ps ! 0))"
    "counts_ok (length Ps) (sys_nrhs S) (B_to_X_SendCnt (SOLVEstruct (Ps ! q)))"
    "X_layout_ok S (Ps ! q) (incoming_rows S Ps q)"
    using a by blast+
  show "0 < nprow (loc_grid (Ps ! q))"
    using 1 assms(2) by (cases "nprow (loc_grid (Ps ! q)) = 0") simp_all
  show "0 < npcol (loc_grid (Ps ! q))"
    using 1 assms(2) by (cases "npcol (loc_grid (Ps ! q)) = 0") simp_all
  have "list_all (\<lambda>p. SendCnt (B_to_X_SendCnt (SOLVEstruct (Ps ! q))) ! p
                        = length (B_rows_to S (Ps ! q) p)) [0..<length Ps]"
    using a by blast
  then show "\<forall>p<length Ps. SendCnt (B_to_X_SendCnt (SOLVEstruct (Ps ! q))) ! p
                        = length (B_rows_to S (Ps ! q) p)"
    using list_all_uptD by blast
qed

text \<open>What arrives at a process: the records of the rows that are sent to it.\<close>

definition incoming ::
  "system_t \<Rightarrow> local_t list \<Rightarrow> (nat \<Rightarrow> real) list \<Rightarrow> nat \<Rightarrow> (nat \<times> (nat \<Rightarrow> real)) list" where
  "incoming S Ps Bs p =
     concat (map (\<lambda>q. map (\<lambda>i. (perm_row S (Ps ! q) i, \<lambda>j. (Bs ! q) (i + j * ldb (Ps ! q))))
                        (B_rows_to S (Ps ! q) p)) [0..<length Ps])"

lemma incoming_fst: "map fst (incoming S Ps Bs p) = incoming_rows S Ps p"
  by (simp add: incoming_def incoming_rows_def map_concat comp_def)

lemma pdReDistribute_B_to_X_nth:
  assumes V: "B_to_X_setup S Ps" and me: "me < length Ps"
  shows "pdReDistribute_B_to_X S Ps Bs xs ! me
           = fold (put_record S (Ps ! me)) (incoming S Ps Bs me) (xs ! me)"
proof -
  let ?procs = "length Ps"
  let ?n = "sys_nrhs S"
  let ?c = "\<lambda>q. B_to_X_SendCnt (SOLVEstruct (Ps ! q))"
  let ?sb = "\<lambda>q. B_to_X_fill S (Ps ! q) (Bs ! q)"
  let ?xs = "\<lambda>q. map (\<lambda>i. (perm_row S (Ps ! q) i, \<lambda>j. (Bs ! q) (i + j * ldb (Ps ! q))))
                    (B_rows_to S (Ps ! q) me)"
  let ?ri = "MPI_Alltoallv (\<lambda>q. send_ibuf (?sb q)) (\<lambda>q. sdispls (?c q))
                (RecvCnt (?c me)) (rdispls (?c me)) ?procs me (\<lambda>k. 0)"
  let ?rd = "MPI_Alltoallv (\<lambda>q. send_dbuf (?sb q)) (\<lambda>q. sdispls_nrhs (?c q))
                (RecvCnt_nrhs (?c me)) (rdispls_nrhs (?c me)) ?procs me (\<lambda>k. 0)"
  have ok: "\<forall>q<?procs. counts_ok ?procs ?n (?c q)"
    using B_to_X_setupD(6)[OF V] by blast
  have cm: "counts_match (map (\<lambda>P. B_to_X_SendCnt (SOLVEstruct P)) Ps)"
    using V by (simp add: B_to_X_setup_def)
  have rc: "\<forall>q<?procs. RecvCnt (?c me) ! q = SendCnt (?c q) ! me"
    using counts_matchD[OF cm, of me] me by simp
  have len: "\<forall>q<?procs. length (?xs q) = SendCnt (?c q) ! me"
    using B_to_X_setupD(7)[OF V] me by simp
  have si: "\<forall>q<?procs. \<forall>k<SendCnt (?c q) ! me.
              send_ibuf (?sb q) (sdispls (?c q) ! me + k) = fst (?xs q ! k)"
  proof (intro allI impI)
    fix q k assume q: "q < ?procs" and k: "k < SendCnt (?c q) ! me"
    have kk: "k < length (B_rows_to S (Ps ! q) me)" using len q k by simp
    show "send_ibuf (?sb q) (sdispls (?c q) ! me + k) = fst (?xs q ! k)"
      using B_to_X_fill_spec(1)[OF B_to_X_setupD(6)[OF V q] B_to_X_setupD(7)[OF V q]
          B_to_X_setupD(2)[OF V q] B_to_X_setupD(3)[OF V q] B_to_X_setupD(1)[OF V q] me k]
        kk by simp
  qed
  have sd: "\<forall>q<?procs. \<forall>k<SendCnt (?c q) ! me. \<forall>j<?n.
              send_dbuf (?sb q) ((sdispls (?c q) ! me + k) * ?n + j) = snd (?xs q ! k) j"
  proof (intro allI impI)
    fix q k j assume q: "q < ?procs" and k: "k < SendCnt (?c q) ! me" and j: "j < ?n"
    have kk: "k < length (B_rows_to S (Ps ! q) me)" using len q k by simp
    show "send_dbuf (?sb q) ((sdispls (?c q) ! me + k) * ?n + j) = snd (?xs q ! k) j"
      using B_to_X_fill_spec(2)[OF B_to_X_setupD(6)[OF V q] B_to_X_setupD(7)[OF V q]
          B_to_X_setupD(2)[OF V q] B_to_X_setupD(3)[OF V q] B_to_X_setupD(1)[OF V q] me k j]
        kk by simp
  qed
  note E1 = exchange(1)[where c = ?c and xs = ?xs and si = "\<lambda>q. send_ibuf (?sb q)"
      and sd = "\<lambda>q. send_dbuf (?sb q)", OF ok me rc len si sd]
  note E2 = exchange(2)[where c = ?c and xs = ?xs and si = "\<lambda>q. send_ibuf (?sb q)"
      and sd = "\<lambda>q. send_dbuf (?sb q)" and zi = "\<lambda>k. 0" and zd = "\<lambda>k. 0",
      OF ok me rc len si sd]
  have inc: "incoming S Ps Bs me = concat (map ?xs [0..<?procs])"
    by (simp add: incoming_def)
  have "pdReDistribute_B_to_X S Ps Bs xs ! me = B_to_X_scatter S (Ps ! me) ?ri ?rd (xs ! me)"
    using me by (simp add: pdReDistribute_B_to_X_def Let_def)
  also have "\<dots> = fold (\<lambda>r. put_record S (Ps ! me) (?ri r, \<lambda>j. ?rd (r * ?n + j)))
                      [0..<sum_list (RecvCnt (?c me))] (xs ! me)"
    by (rule B_to_X_scatter_eq[OF B_to_X_setupD(6)[OF V me] B_to_X_setupD(1)[OF V me]])
  also have "sum_list (RecvCnt (?c me)) = length (incoming S Ps Bs me)"
    using E1 by (simp add: inc)
  also have "fold (\<lambda>r. put_record S (Ps ! me) (?ri r, \<lambda>j. ?rd (r * ?n + j)))
                      [0..<length (incoming S Ps Bs me)] (xs ! me)
             = fold (put_record S (Ps ! me)) (incoming S Ps Bs me) (xs ! me)"
    by (rule fold_records) (use E2 in \<open>simp add: inc\<close>)
  finally show ?thesis .
qed

lemma distinct_concat_filter:
  assumes "distinct (concat (map (\<lambda>q. map (f q) (xs q)) qs))"
  shows "distinct (concat (map (\<lambda>q. map (f q) (filter (P q) (xs q))) qs))"
  using assms
proof (induction qs)
  case Nil then show ?case by simp
next
  case (Cons q qs)
  have "set (concat (map (\<lambda>q. map (f q) (filter (P q) (xs q))) qs))
          \<subseteq> set (concat (map (\<lambda>q. map (f q) (xs q)) qs))" by auto
  moreover have "set (map (f q) (filter (P q) (xs q))) \<subseteq> set (map (f q) (xs q))" by auto
  moreover have "set (map (f q) (xs q)) \<inter> set (concat (map (\<lambda>q. map (f q) (xs q)) qs)) = {}"
    using Cons.prems by simp
  ultimately have dj: "set (map (f q) (filter (P q) (xs q)))
      \<inter> set (concat (map (\<lambda>q. map (f q) (filter (P q) (xs q))) qs)) = {}"
    by blast
  have d1: "distinct (map (f q) (filter (P q) (xs q)))"
    using Cons.prems by (simp add: distinct_map_filter)
  have d2: "distinct (concat (map (\<lambda>q. map (f q) (filter (P q) (xs q))) qs))"
    using Cons by simp
  show ?case using d1 d2 dj by (simp del: set_map set_concat)
qed

lemma incoming_rows_distinct:
  assumes "B_to_X_setup S Ps"
  shows "distinct (incoming_rows S Ps p)"
proof -
  have "distinct (concat (map (\<lambda>q. map (perm_row S (Ps ! q)) [0..<m_loc (Ps ! q)])
                         [0..<length Ps]))"
    using assms by (simp add: B_to_X_setup_def)
  from distinct_concat_filter[OF this,
      of "\<lambda>q i. diag_proc S (loc_grid (Ps ! q)) (perm_row S (Ps ! q) i) = p"]
  show ?thesis by (simp add: incoming_rows_def B_rows_to_def)
qed

lemma B_to_X_row:
  assumes V: "B_to_X_setup S Ps" and q: "q < length Ps" and i: "i < m_loc (Ps ! q)"
    and j: "j < sys_nrhs S"
    and p: "p = diag_proc S (loc_grid (Ps ! q)) (perm_row S (Ps ! q) i)"
  shows "p < length Ps"
    and "(pdReDistribute_B_to_X S Ps Bs xs ! p) (X_pos S (Ps ! p) (perm_row S (Ps ! q) i) j)
           = (Bs ! q) (i + j * ldb (Ps ! q))"
    and "(pdReDistribute_B_to_X S Ps Bs xs ! p) (X_hdr S (Ps ! p) (perm_row S (Ps ! q) i))
           = real (BlockNum (Glu_persist S) (perm_row S (Ps ! q) i))"
proof -
  let ?irow = "perm_row S (Ps ! q) i"
  let ?v = "\<lambda>j. (Bs ! q) (i + j * ldb (Ps ! q))"
  show pl: "p < length Ps"
    using diag_proc_less[OF B_to_X_setupD(2)[OF V q] B_to_X_setupD(3)[OF V q], of S ?irow]
      B_to_X_setupD(1)[OF V q] p by simp
  have iin: "i \<in> set (B_rows_to S (Ps ! q) p)" using i p by (simp add: B_rows_to_def)
  have m: "(?irow, ?v) \<in> set (incoming S Ps Bs p)"
    unfolding incoming_def using q iin by (auto intro!: bexI[of _ q])
  have d: "distinct (map fst (incoming S Ps Bs p))"
    using incoming_rows_distinct[OF V] by (simp add: incoming_fst)
  have sub: "fst ` set (incoming S Ps Bs p) \<subseteq> set (incoming_rows S Ps p)"
    using incoming_fst[of S Ps Bs p] by (metis set_map subset_refl)
  note L = B_to_X_setupD(8)[OF V pl]
  note A = fold_put_record_apply[OF L sub d m]
  show "(pdReDistribute_B_to_X S Ps Bs xs ! p) (X_pos S (Ps ! p) ?irow j) = ?v j"
    using A(1)[OF j] by (simp add: pdReDistribute_B_to_X_nth[OF V pl])
  show "(pdReDistribute_B_to_X S Ps Bs xs ! p) (X_hdr S (Ps ! p) ?irow)
           = real (BlockNum (Glu_persist S) ?irow)"
    using A(2) by (simp add: pdReDistribute_B_to_X_nth[OF V pl])
qed

lemma B_to_X_copy_row_turn:
  "send_ibuf (B_to_X_copy_row S P B i st)
     (ptr_to_ibuf st (diag_proc S (loc_grid P) (perm_row S P i))) = perm_row S P i"
  "j < sys_nrhs S \<Longrightarrow>
   send_dbuf (B_to_X_copy_row S P B i st)
     (ptr_to_dbuf st (diag_proc S (loc_grid P) (perm_row S P i)) + j) = B (i + j * ldb P)"
  "ptr_to_ibuf (B_to_X_copy_row S P B i st) (diag_proc S (loc_grid P) (perm_row S P i))
     = ptr_to_ibuf st (diag_proc S (loc_grid P) (perm_row S P i)) + 1"
  "ptr_to_dbuf (B_to_X_copy_row S P B i st) (diag_proc S (loc_grid P) (perm_row S P i))
     = ptr_to_dbuf st (diag_proc S (loc_grid P) (perm_row S P i)) + sys_nrhs S"
  by (simp_all add: B_to_X_copy_row_eq put_at_dest_simps RHS_fill_apply)

lemma X_put_row_turn:
  assumes "0 < SuperSize (Glu_persist S) (BlockNum (Glu_persist S) (ri ii))"
  shows "j < sys_nrhs S \<Longrightarrow>
         snd (snd (X_put_row S P ri rd (ii, jj, x))) (X_pos S P (ri ii) j) = rd (jj + j)"
    and "\<forall>j<sys_nrhs S. X_hdr S P (ri ii) \<noteq> X_pos S P (ri ii) j \<Longrightarrow>
         snd (snd (X_put_row S P ri rd (ii, jj, x))) (X_hdr S P (ri ii))
           = real (BlockNum (Glu_persist S) (ri ii))"
  using put_record_apply(1)[OF assms, where j = j and P = P and x = x]
    put_record_apply(3)[OF assms, where P = P and x = x]
  by (simp_all add: X_put_row_eq)

lemma X_put_row_turn_let:
  "let irow = ri ii;
       k = BlockNum (Glu_persist S) irow;
       lx = X_BLK P (LBi k (loc_grid P));
       off = irow - FstBlockC (Glu_persist S) k;
       x' = snd (snd (X_put_row S P ri rd (ii, jj, x)))
   in 0 < SuperSize (Glu_persist S) k \<longrightarrow>
        (\<forall>j<sys_nrhs S. x' (lx + off + j * SuperSize (Glu_persist S) k) = rd (jj + j))
      \<and> ((\<forall>j<sys_nrhs S. lx - sys_XK_H S \<noteq> lx + off + j * SuperSize (Glu_persist S) k)
           \<longrightarrow> x' (lx - sys_XK_H S) = real k)"
  using X_put_row_turn[where S = S and ri = ri and ii = ii and P = P and rd = rd
      and jj = jj and x = x]
  by (simp add: Let_def X_pos_def X_hdr_def)

text \<open>
  Claim C4.  The turn of the packing loop for the local row \<open>i\<close>, with global
  row \<open>l = fst_row + i\<close>, puts the index \<open>irow = perm_c[perm_r[l]]\<close> and the values
  \<open>B[i + j*ldb]\<close> at the pointers of the diagonal process
  \<open>p = PNUM(PROW(k), PCOL(k))\<close> of the supernode \<open>k\<close> that contains \<open>irow\<close>, and moves
  these pointers on.  The turn of the receiving loop for an index \<open>irow\<close> of a
  supernode \<open>k\<close> (which has a column, begins at or before \<open>irow\<close> and has its
  header cell in \<open>x\<close>) writes the values into the block of \<open>k\<close>
  in \<open>x\<close> at the offset \<open>irow - FstBlockC(k)\<close>, one right-hand side every
  \<open>SuperSize(k)\<close> cells, and the number \<open>k\<close> into the header cell of the block.
  In a setup that fits (the routine is to be called after \<^verbatim>\<open>pxgstrs_init\<close> has
  set up the counts), the two loops and the exchange between them bring every
  row to its place: afterwards the \<open>x\<close> of \<open>p\<close> holds, in the block of \<open>k\<close> at the
  offset \<open>irow - FstBlockC(k)\<close> of right-hand side \<open>j\<close>, the value \<open>B[i + j*ldb]\<close> of
  the process that had the row, and in the header cell of the block the number \<open>k\<close>.
\<close>

theorem pdReDistribute_B_to_X_places_rows:
  "(let l = fst_row P + i;
        irow = perm_c (ScalePermstruct S) ! (perm_r (ScalePermstruct S) ! l);
        k = BlockNum (Glu_persist S) irow;
        p = PNUM (PROW k (loc_grid P)) (PCOL k (loc_grid P)) (loc_grid P);
        st' = B_to_X_copy_row S P B i st
    in send_ibuf st' (ptr_to_ibuf st p) = irow
     \<and> (\<forall>j<sys_nrhs S. send_dbuf st' (ptr_to_dbuf st p + j) = B (i + j * ldb P))
     \<and> ptr_to_ibuf st' p = ptr_to_ibuf st p + 1
     \<and> ptr_to_dbuf st' p = ptr_to_dbuf st p + sys_nrhs S)
   \<and> (let irow = ri ii;
          k = BlockNum (Glu_persist S) irow;
          lx = X_BLK P (LBi k (loc_grid P));
          off = irow - FstBlockC (Glu_persist S) k;
          x' = snd (snd (X_put_row S P ri rd (ii, jj, x)))
      in sys_XK_H S \<le> lx \<and> FstBlockC (Glu_persist S) k \<le> irow
           \<and> 0 < SuperSize (Glu_persist S) k \<longrightarrow>
           (\<forall>j<sys_nrhs S. x' (lx + off + j * SuperSize (Glu_persist S) k) = rd (jj + j))
         \<and> ((\<forall>j<sys_nrhs S. lx - sys_XK_H S \<noteq> lx + off + j * SuperSize (Glu_persist S) k)
              \<longrightarrow> x' (lx - sys_XK_H S) = real k))
   \<and> (B_to_X_setup S Ps \<and> q < length Ps \<and> i' < m_loc (Ps ! q) \<and> j' < sys_nrhs S \<longrightarrow>
        (let l = fst_row (Ps ! q) + i';
             irow = perm_c (ScalePermstruct S) ! (perm_r (ScalePermstruct S) ! l);
             k = BlockNum (Glu_persist S) irow;
             p = PNUM (PROW k (loc_grid (Ps ! q))) (PCOL k (loc_grid (Ps ! q)))
                   (loc_grid (Ps ! q));
             x' = pdReDistribute_B_to_X S Ps Bs xs ! p;
             lx = X_BLK (Ps ! p) (LBi k (loc_grid (Ps ! p)))
         in p < length Ps
          \<and> x' (lx + (irow - FstBlockC (Glu_persist S) k) + j' * SuperSize (Glu_persist S) k)
              = (Bs ! q) (i' + j' * ldb (Ps ! q))
          \<and> x' (lx - sys_XK_H S) = real k))"
proof (intro conjI)
  show "let l = fst_row P + i;
        irow = perm_c (ScalePermstruct S) ! (perm_r (ScalePermstruct S) ! l);
        k = BlockNum (Glu_persist S) irow;
        p = PNUM (PROW k (loc_grid P)) (PCOL k (loc_grid P)) (loc_grid P);
        st' = B_to_X_copy_row S P B i st
    in send_ibuf st' (ptr_to_ibuf st p) = irow
     \<and> (\<forall>j<sys_nrhs S. send_dbuf st' (ptr_to_dbuf st p + j) = B (i + j * ldb P))
     \<and> ptr_to_ibuf st' p = ptr_to_ibuf st p + 1
     \<and> ptr_to_dbuf st' p = ptr_to_dbuf st p + sys_nrhs S"
    using B_to_X_copy_row_turn[where S = S and P = P and B = B and i = i and st = st]
    by (simp add: Let_def perm_row_def diag_proc_def)
  show "let irow = ri ii;
          k = BlockNum (Glu_persist S) irow;
          lx = X_BLK P (LBi k (loc_grid P));
          off = irow - FstBlockC (Glu_persist S) k;
          x' = snd (snd (X_put_row S P ri rd (ii, jj, x)))
      in sys_XK_H S \<le> lx \<and> FstBlockC (Glu_persist S) k \<le> irow
           \<and> 0 < SuperSize (Glu_persist S) k \<longrightarrow>
           (\<forall>j<sys_nrhs S. x' (lx + off + j * SuperSize (Glu_persist S) k) = rd (jj + j))
         \<and> ((\<forall>j<sys_nrhs S. lx - sys_XK_H S \<noteq> lx + off + j * SuperSize (Glu_persist S) k)
              \<longrightarrow> x' (lx - sys_XK_H S) = real k)"
    using X_put_row_turn_let[where S = S and ri = ri and ii = ii and P = P and rd = rd
        and jj = jj and x = x]
    unfolding Let_def by blast
  show "B_to_X_setup S Ps \<and> q < length Ps \<and> i' < m_loc (Ps ! q) \<and> j' < sys_nrhs S \<longrightarrow>
        (let l = fst_row (Ps ! q) + i';
             irow = perm_c (ScalePermstruct S) ! (perm_r (ScalePermstruct S) ! l);
             k = BlockNum (Glu_persist S) irow;
             p = PNUM (PROW k (loc_grid (Ps ! q))) (PCOL k (loc_grid (Ps ! q)))
                   (loc_grid (Ps ! q));
             x' = pdReDistribute_B_to_X S Ps Bs xs ! p;
             lx = X_BLK (Ps ! p) (LBi k (loc_grid (Ps ! p)))
         in p < length Ps
          \<and> x' (lx + (irow - FstBlockC (Glu_persist S) k) + j' * SuperSize (Glu_persist S) k)
              = (Bs ! q) (i' + j' * ldb (Ps ! q))
          \<and> x' (lx - sys_XK_H S) = real k)"
  proof
    assume h: "B_to_X_setup S Ps \<and> q < length Ps \<and> i' < m_loc (Ps ! q) \<and> j' < sys_nrhs S"
    then have a: "B_to_X_setup S Ps" "q < length Ps" "i' < m_loc (Ps ! q)" "j' < sys_nrhs S"
      by simp_all
    show "let l = fst_row (Ps ! q) + i';
             irow = perm_c (ScalePermstruct S) ! (perm_r (ScalePermstruct S) ! l);
             k = BlockNum (Glu_persist S) irow;
             p = PNUM (PROW k (loc_grid (Ps ! q))) (PCOL k (loc_grid (Ps ! q)))
                   (loc_grid (Ps ! q));
             x' = pdReDistribute_B_to_X S Ps Bs xs ! p;
             lx = X_BLK (Ps ! p) (LBi k (loc_grid (Ps ! p)))
         in p < length Ps
          \<and> x' (lx + (irow - FstBlockC (Glu_persist S) k) + j' * SuperSize (Glu_persist S) k)
              = (Bs ! q) (i' + j' * ldb (Ps ! q))
          \<and> x' (lx - sys_XK_H S) = real k"
      using B_to_X_row(1)[OF a refl]
        B_to_X_row(2)[OF a refl, where Bs = Bs and xs = xs]
        B_to_X_row(3)[OF a refl, where Bs = Bs and xs = xs]
      by (simp add: Let_def perm_row_def diag_proc_def X_pos_def X_hdr_def)
  qed
qed

subsection \<open>Two processes\<close>

text \<open>
  A grid of two rows and one column, four rows of \<open>B\<close> with two right-hand
  sides, two on each process, and three supernodes of \<open>1\<close>, \<open>2\<close> and \<open>1\<close> columns:
  process \<open>0\<close> owns the supernodes \<open>0\<close> and \<open>2\<close>, process \<open>1\<close> the supernode \<open>1\<close>.
\<close>

definition ex2_sys :: system_t where
  "ex2_sys = \<lparr>sys_nrhs = 2, sys_XK_H = 2,
              ScalePermstruct = \<lparr>perm_r = [2, 0, 3, 1], perm_c = [1, 2, 3, 0]\<rparr>,
              Glu_persist = \<lparr>xsup = [0, 1, 3, 4], supno = [0, 1, 1, 2]\<rparr>\<rparr>"

definition ex2_cnt :: comm_counts where
  "ex2_cnt = \<lparr>SendCnt = [1, 1], SendCnt_nrhs = [2, 2], RecvCnt = [1, 1], RecvCnt_nrhs = [2, 2],
              sdispls = [0, 1], sdispls_nrhs = [0, 2], rdispls = [0, 1], rdispls_nrhs = [0, 2]\<rparr>"

definition ex2_solve :: SOLVEstruct_t where
  "ex2_solve = \<lparr>row_to_proc = [0, 0, 1, 1], diag_procs = [0, 1], num_diag_procs = 2,
                B_to_X_SendCnt = ex2_cnt, X_to_B_SendCnt = ex2_cnt\<rparr>"

definition ex2_locs :: "local_t list" where
  "ex2_locs = [\<lparr>loc_grid = \<lparr>iam = 0, nprow = 2, npcol = 1\<rparr>, m_loc = 2, ldb = 3, fst_row = 0,
                 X_BLK = (\<lambda>lk. [0, 1] ! lk * 2 + (lk + 1) * 2), SOLVEstruct = ex2_solve\<rparr>,
               \<lparr>loc_grid = \<lparr>iam = 1, nprow = 2, npcol = 1\<rparr>, m_loc = 2, ldb = 2, fst_row = 2,
                 X_BLK = (\<lambda>lk. [0] ! lk * 2 + (lk + 1) * 2), SOLVEstruct = ex2_solve\<rparr>]"

definition ex2_Bs :: "(nat \<Rightarrow> real) list" where
  "ex2_Bs = [(\<lambda>k. [10, 11, 0, 12, 13, 0] ! k), (\<lambda>k. [20, 21, 22, 23] ! k)]"

lemma ex2_setup: "B_to_X_setup ex2_sys ex2_locs"
  by code_simp

theorem pdReDistribute_B_to_X_places_rows_witness:
  "B_to_X_setup ex2_sys ex2_locs
   \<and> (pdReDistribute_B_to_X ex2_sys ex2_locs ex2_Bs [\<lambda>k. 0, \<lambda>k. 0] ! 1) 5 = 23
   \<and> (pdReDistribute_B_to_X ex2_sys ex2_locs ex2_Bs [\<lambda>k. 0, \<lambda>k. 0] ! 1) 0 = 1"
proof -
  have h: "1 < length ex2_locs" "1 < m_loc (ex2_locs ! 1)" "1 < sys_nrhs ex2_sys"
    by (simp_all add: ex2_locs_def ex2_sys_def)
  have e: "perm_c (ScalePermstruct ex2_sys)
             ! (perm_r (ScalePermstruct ex2_sys) ! (fst_row (ex2_locs ! 1) + 1)) = 2"
    "BlockNum (Glu_persist ex2_sys) 2 = 1"
    "PNUM (PROW 1 (loc_grid (ex2_locs ! 1))) (PCOL 1 (loc_grid (ex2_locs ! 1)))
       (loc_grid (ex2_locs ! 1)) = 1"
    "X_BLK (ex2_locs ! 1) (LBi 1 (loc_grid (ex2_locs ! 1))) = 2"
    "FstBlockC (Glu_persist ex2_sys) 1 = 1" "SuperSize (Glu_persist ex2_sys) 1 = 2"
    "sys_XK_H ex2_sys = 2" "ldb (ex2_locs ! 1) = 2" "(ex2_Bs ! 1) (1 + 1 * 2) = 23"
    by code_simp+
  have "B_to_X_setup ex2_sys ex2_locs \<and> 1 < length ex2_locs \<and> 1 < m_loc (ex2_locs ! 1)
          \<and> 1 < sys_nrhs ex2_sys"
    using ex2_setup h by simp
  with pdReDistribute_B_to_X_places_rows[where S = ex2_sys and Ps = ex2_locs and q = 1
      and i' = 1 and j' = 1 and Bs = ex2_Bs and xs = "[\<lambda>k. 0, \<lambda>k. 0]"]
  have "let l = fst_row (ex2_locs ! 1) + 1;
             irow = perm_c (ScalePermstruct ex2_sys) ! (perm_r (ScalePermstruct ex2_sys) ! l);
             k = BlockNum (Glu_persist ex2_sys) irow;
             p = PNUM (PROW k (loc_grid (ex2_locs ! 1))) (PCOL k (loc_grid (ex2_locs ! 1)))
                   (loc_grid (ex2_locs ! 1));
             x' = pdReDistribute_B_to_X ex2_sys ex2_locs ex2_Bs [\<lambda>k. 0, \<lambda>k. 0] ! p;
             lx = X_BLK (ex2_locs ! p) (LBi k (loc_grid (ex2_locs ! p)))
         in p < length ex2_locs
          \<and> x' (lx + (irow - FstBlockC (Glu_persist ex2_sys) k)
                  + 1 * SuperSize (Glu_persist ex2_sys) k)
              = (ex2_Bs ! 1) (1 + 1 * ldb (ex2_locs ! 1))
          \<and> x' (lx - sys_XK_H ex2_sys) = real k"
    by blast
  then show ?thesis unfolding Let_def e using ex2_setup by simp
qed

subsection \<open>From \<open>x\<close> to the send buffers\<close>

text \<open>
  The blocks that a process goes through in the loops over the diagonal
  processes and their blocks, in the order of the loops, and the rows of
  these blocks as pairs of a block and a row in it.
\<close>

definition X_blocks :: "system_t \<Rightarrow> local_t \<Rightarrow> nat \<Rightarrow> nat list" where
  "X_blocks S P n =
     concat (map (\<lambda>p. if iam (loc_grid P) = diag_procs (SOLVEstruct P) ! p
                      then diag_blocks p (supno (Glu_persist S) ! (n - 1) + 1)
                             (num_diag_procs (SOLVEstruct P))
                      else [])
               [0..<num_diag_procs (SOLVEstruct P)])"

definition X_rows :: "system_t \<Rightarrow> local_t \<Rightarrow> nat \<Rightarrow> (nat \<times> nat) list" where
  "X_rows S P n =
     concat (map (\<lambda>k. map (\<lambda>i. (k, i)) [0..<SuperSize (Glu_persist S) k]) (X_blocks S P n))"

definition X_irow :: "system_t \<Rightarrow> nat \<times> nat \<Rightarrow> nat" where
  "X_irow S r = FstBlockC (Glu_persist S) (fst r) + snd r"

definition X_record ::
  "system_t \<Rightarrow> local_t \<Rightarrow> (nat \<Rightarrow> real) \<Rightarrow> nat \<times> nat \<Rightarrow> nat \<times> nat \<times> (nat \<Rightarrow> real)" where
  "X_record S P x r =
     (row_to_proc (SOLVEstruct P) ! X_irow S r, X_irow S r,
      \<lambda>j. x (X_BLK P (LBi (fst r) (loc_grid P)) + snd r
               + j * SuperSize (Glu_persist S) (fst r)))"

text \<open>The rows that a process sends to the process \<open>p\<close>, in the order of the loops.\<close>

definition X_rows_to :: "system_t \<Rightarrow> local_t \<Rightarrow> nat \<Rightarrow> nat \<Rightarrow> (nat \<times> nat) list" where
  "X_rows_to S P n p =
     filter (\<lambda>r. row_to_proc (SOLVEstruct P) ! X_irow S r = p) (X_rows S P n)"

lemma X_to_B_copy_row_eq:
  "X_to_B_copy_row S P x k i st = put_at_dest (sys_nrhs S) (X_record S P x (k, i)) st"
  by (simp add: X_to_B_copy_row_def put_at_dest_def Let_def X_record_def X_irow_def)

lemma X_to_B_fill_eq:
  "X_to_B_fill S P n x =
     fold (put_at_dest (sys_nrhs S)) (map (X_record S P x) (X_rows S P n))
       \<lparr>ptr_to_ibuf = (\<lambda>p. sdispls (X_to_B_SendCnt (SOLVEstruct P)) ! p),
        ptr_to_dbuf = (\<lambda>p. sdispls_nrhs (X_to_B_SendCnt (SOLVEstruct P)) ! p),
        send_ibuf = (\<lambda>k. 0), send_dbuf = (\<lambda>k. 0)\<rparr>"
proof -
  let ?g = "put_at_dest (sys_nrhs S)"
  have row: "fold (X_to_B_copy_row S P x k) is st
               = fold ?g (map (\<lambda>i. X_record S P x (k, i)) is) st" for k "is" st
    by (induction "is" arbitrary: st) (simp_all add: X_to_B_copy_row_eq)
  have blocks: "fold (\<lambda>k st. fold (X_to_B_copy_row S P x k)
                                   [0..<SuperSize (Glu_persist S) k] st) ks st
                 = fold ?g (map (X_record S P x)
                     (concat (map (\<lambda>k. map (\<lambda>i. (k, i)) [0..<SuperSize (Glu_persist S) k]) ks))) st"
    for ks st
    by (induction ks arbitrary: st) (simp_all add: row comp_def)
  have procs: "fold (\<lambda>p st. if c p then
                   fold (\<lambda>k st. fold (X_to_B_copy_row S P x k)
                                   [0..<SuperSize (Glu_persist S) k] st) (b p) st
                 else st) ps st
               = fold ?g (map (X_record S P x)
                   (concat (map (\<lambda>k. map (\<lambda>i. (k, i)) [0..<SuperSize (Glu_persist S) k])
                      (concat (map (\<lambda>p. if c p then b p else []) ps))))) st"
    for c b ps st
    by (induction ps arbitrary: st) (simp_all add: blocks)
  show ?thesis
    unfolding X_to_B_fill_def Let_def X_rows_def X_blocks_def by (rule procs)
qed

text \<open>
  The buffers after packing depend on the pointers of the destinations that
  occur only.
\<close>

lemma put_at_dest_fold_cong:
  assumes "\<forall>r\<in>set recs. fst r < procs"
    and "\<forall>d<procs. ptr_to_ibuf st d = ptr_to_ibuf st' d \<and> ptr_to_dbuf st d = ptr_to_dbuf st' d"
    and "send_ibuf st = send_ibuf st'" and "send_dbuf st = send_dbuf st'"
  shows "send_ibuf (fold (put_at_dest nrhs) recs st) = send_ibuf (fold (put_at_dest nrhs) recs st')
       \<and> send_dbuf (fold (put_at_dest nrhs) recs st) = send_dbuf (fold (put_at_dest nrhs) recs st')"
  using assms
proof (induction recs arbitrary: st st')
  case Nil then show ?case by simp
next
  case (Cons r recs)
  obtain d idx v where r: "r = (d, idx, v)" by (cases r) auto
  have d: "d < procs" using Cons.prems(1) r by simp
  have 1: "\<forall>r\<in>set recs. fst r < procs" using Cons.prems(1) by simp
  have 2: "\<forall>e<procs. ptr_to_ibuf (put_at_dest nrhs r st) e = ptr_to_ibuf (put_at_dest nrhs r st') e
             \<and> ptr_to_dbuf (put_at_dest nrhs r st) e = ptr_to_dbuf (put_at_dest nrhs r st') e"
    using Cons.prems(2) d by (simp add: r put_at_dest_simps)
  have 3: "send_ibuf (put_at_dest nrhs r st) = send_ibuf (put_at_dest nrhs r st')"
    using Cons.prems(2,3) d by (simp add: r put_at_dest_simps)
  have 4: "send_dbuf (put_at_dest nrhs r st) = send_dbuf (put_at_dest nrhs r st')"
    using Cons.prems(2,4) d by (simp add: r put_at_dest_simps)
  show ?case using Cons.IH[OF 1 2 3 4] by simp
qed

lemma X_to_B_fill_spec:
  assumes ok: "counts_ok procs (sys_nrhs S) (X_to_B_SendCnt (SOLVEstruct P))"
    and cnt: "\<forall>p<procs. SendCnt (X_to_B_SendCnt (SOLVEstruct P)) ! p
                = length (X_rows_to S P n p)"
    and dst: "\<forall>r\<in>set (X_rows S P n). row_to_proc (SOLVEstruct P) ! X_irow S r < procs"
    and p: "p < procs" and k: "k < SendCnt (X_to_B_SendCnt (SOLVEstruct P)) ! p"
  shows "send_ibuf (X_to_B_fill S P n x) (sdispls (X_to_B_SendCnt (SOLVEstruct P)) ! p + k)
           = X_irow S (X_rows_to S P n p ! k)"
    and "j < sys_nrhs S \<Longrightarrow>
         send_dbuf (X_to_B_fill S P n x)
           ((sdispls (X_to_B_SendCnt (SOLVEstruct P)) ! p + k) * sys_nrhs S + j)
           = snd (snd (X_record S P x (X_rows_to S P n p ! k))) j"
proof -
  let ?c = "X_to_B_SendCnt (SOLVEstruct P)"
  let ?recs = "map (X_record S P x) (X_rows S P n)"
  let ?st = "\<lparr>ptr_to_ibuf = (\<lambda>p. sdispls ?c ! p), ptr_to_dbuf = (\<lambda>p. sdispls_nrhs ?c ! p),
             send_ibuf = (\<lambda>k. 0), send_dbuf = (\<lambda>k. 0::real)\<rparr>"
  let ?st' = "\<lparr>ptr_to_ibuf = (\<lambda>p. sdispls ?c ! p), ptr_to_dbuf = (\<lambda>p. sdispls ?c ! p * sys_nrhs S),
             send_ibuf = (\<lambda>k. 0), send_dbuf = (\<lambda>k. 0::real)\<rparr>"
  have td: "to_dest d ?recs = map (X_record S P x) (X_rows_to S P n d)" for d
    by (simp add: to_dest_def X_rows_to_def filter_map comp_def X_record_def)
  have cnt': "\<forall>p<procs. SendCnt ?c ! p = length (to_dest p ?recs)"
    using cnt by (simp add: td)
  have dst': "\<forall>r\<in>set ?recs. fst r < procs"
    using dst by (auto simp: X_record_def)
  have ls: "length (sdispls ?c) = procs"
    using ok by (simp add: counts_ok_def prefix_sums_def)
  have sdn: "\<forall>d<procs. sdispls_nrhs ?c ! d = sdispls ?c ! d * sys_nrhs S"
    using ok ls by (simp add: counts_ok_def)
  have ptr: "\<forall>d<procs. ptr_to_ibuf ?st d = ptr_to_ibuf ?st' d
               \<and> ptr_to_dbuf ?st d = ptr_to_dbuf ?st' d"
    using sdn by simp
  have eq: "send_ibuf (fold (put_at_dest (sys_nrhs S)) ?recs ?st)
              = send_ibuf (fold (put_at_dest (sys_nrhs S)) ?recs ?st')"
       "send_dbuf (fold (put_at_dest (sys_nrhs S)) ?recs ?st)
              = send_dbuf (fold (put_at_dest (sys_nrhs S)) ?recs ?st')"
    using put_at_dest_fold_cong[OF dst' ptr] by simp_all
  have kk: "k < length (X_rows_to S P n p)" using k cnt p by simp
  note F = fill_by_dest[OF ok cnt' dst' p k, where zi = "\<lambda>k. 0" and zd = "\<lambda>k. 0"]
  show "send_ibuf (X_to_B_fill S P n x) (sdispls ?c ! p + k) = X_irow S (X_rows_to S P n p ! k)"
    using F(1) kk unfolding X_to_B_fill_eq eq by (simp add: td X_record_def)
  show "j < sys_nrhs S \<Longrightarrow>
         send_dbuf (X_to_B_fill S P n x) ((sdispls ?c ! p + k) * sys_nrhs S + j)
           = snd (snd (X_record S P x (X_rows_to S P n p ! k))) j"
    using F(2) kk unfolding X_to_B_fill_eq eq by (simp add: td)
qed

subsection \<open>From the receive buffers to \<open>B\<close>\<close>

text \<open>
  What one turn of the last loop does with the row index and the values that
  it takes from the receive buffers.  Positions are natural numbers: the
  difference \<^verbatim>\<open>irow - fst_row\<close> is that of the code where \<open>fst_row \<le> irow\<close>, and
  nothing is stated about this turn elsewhere.
\<close>

definition B_put_record :: "system_t \<Rightarrow> local_t \<Rightarrow> nat \<times> (nat \<Rightarrow> real) \<Rightarrow> (nat \<Rightarrow> real) \<Rightarrow> (nat \<Rightarrow> real)" where
  "B_put_record S P r B = strided_fill (sys_nrhs S) (fst r - fst_row P) (ldb P) (snd r) B"

lemma B_put_row_eq:
  "B_put_row S P ri rd i (k, B) =
     (k + sys_nrhs S, B_put_record S P (ri i, \<lambda>j. rd (k + j)) B)"
  by (simp add: B_put_row_def B_put_record_def Let_def strided_fill_def)

lemma B_put_rows:
  "fold (B_put_row S P ri rd) [0..<m] (0, B) =
     (m * sys_nrhs S,
      fold (\<lambda>i. B_put_record S P (ri i, \<lambda>j. rd (i * sys_nrhs S + j))) [0..<m] B)"
  by (induction m) (simp_all add: B_put_row_eq algebra_simps)

lemma X_to_B_scatter_eq:
  "X_to_B_scatter S P ri rd B =
     fold (\<lambda>i. B_put_record S P (ri i, \<lambda>j. rd (i * sys_nrhs S + j))) [0..<m_loc P] B"
  by (simp add: X_to_B_scatter_def B_put_rows)

lemma B_put_record_cong:
  "\<forall>j<sys_nrhs S. v j = w j \<Longrightarrow> B_put_record S P (i, v) B = B_put_record S P (i, w) B"
  by (simp add: B_put_record_def strided_fill_cong)

lemma fold_B_records:
  assumes "\<forall>r<length recs. ri r = fst (recs ! r) \<and>
              (\<forall>j<sys_nrhs S. rd (r * sys_nrhs S + j) = snd (recs ! r) j)"
  shows "fold (\<lambda>r. B_put_record S P (ri r, \<lambda>j. rd (r * sys_nrhs S + j))) [0..<length recs] B
           = fold (B_put_record S P) recs B"
proof -
  have "\<forall>r\<in>set [0..<length recs].
          (\<lambda>r. B_put_record S P (ri r, \<lambda>j. rd (r * sys_nrhs S + j))) r
          = (B_put_record S P \<circ> (\<lambda>r. recs ! r)) r"
  proof
    fix r assume "r \<in> set [0..<length recs]"
    then have r: "r < length recs" by simp
    have "ri r = fst (recs ! r)" "\<forall>j<sys_nrhs S. rd (r * sys_nrhs S + j) = snd (recs ! r) j"
      using assms r by simp_all
    then have "B_put_record S P (ri r, \<lambda>j. rd (r * sys_nrhs S + j))
          = B_put_record S P (fst (recs ! r), snd (recs ! r))"
      using B_put_record_cong[of S "\<lambda>j. rd (r * sys_nrhs S + j)" "snd (recs ! r)" P "fst (recs ! r)"]
      by (intro ext) simp
    then show "(\<lambda>r. B_put_record S P (ri r, \<lambda>j. rd (r * sys_nrhs S + j))) r
          = (B_put_record S P \<circ> (\<lambda>r. recs ! r)) r" by simp
  qed
  then have "fold (\<lambda>r. B_put_record S P (ri r, \<lambda>j. rd (r * sys_nrhs S + j))) [0..<length recs] B
           = fold (B_put_record S P \<circ> (\<lambda>r. recs ! r)) [0..<length recs] B"
    by (intro fold_cong) auto
  also have "\<dots> = fold (B_put_record S P) (map (\<lambda>r. recs ! r) [0..<length recs]) B"
    by (simp add: fold_map)
  also have "map (\<lambda>r. recs ! r) [0..<length recs] = recs" by (rule map_nth)
  finally show ?thesis .
qed

lemma strided_cells_apart:
  fixes a b L :: nat
  assumes "a < L" "b < L" "a + j * L = b + j' * L"
  shows "a = b"
proof -
  have "(a + j * L) mod L = a" "(b + j' * L) mod L = b" using assms(1,2) by simp_all
  then show ?thesis using assms(3) by simp
qed

text \<open>
  Rows with different indices in the range of the process, whose leading
  dimension is not below the number of its rows: every row is in \<open>B\<close> at the
  end.
\<close>

lemma fold_B_put_record_apply:
  assumes d: "distinct (map fst recs)"
    and rg: "\<forall>r\<in>set recs. fst_row P \<le> fst r \<and> fst r - fst_row P < ldb P"
    and m: "(i, v) \<in> set recs" and j: "j < sys_nrhs S"
  shows "fold (B_put_record S P) recs B (i - fst_row P + j * ldb P) = v j"
  using d rg m
proof (induction recs rule: rev_induct)
  case Nil then show ?case by simp
next
  case (snoc r recs)
  have L: "0 < ldb P" using snoc.prems(2,3) by fastforce
  have f: "fold (B_put_record S P) (recs @ [r]) B
             = strided_fill (sys_nrhs S) (fst r - fst_row P) (ldb P) (snd r)
                 (fold (B_put_record S P) recs B)"
    by (simp add: B_put_record_def)
  show ?case
  proof (cases "r = (i, v)")
    case True
    show ?thesis unfolding f using strided_fill_hit[OF L j] by (simp add: True)
  next
    case False
    then have in': "(i, v) \<in> set recs" using snoc.prems(3) by simp
    have ne: "fst r \<noteq> i"
    proof
      assume "fst r = i"
      moreover have "i \<in> fst ` set recs" using in' by force
      ultimately show False using snoc.prems(1) by simp
    qed
    have ri: "fst_row P \<le> i" "i - fst_row P < ldb P" using snoc.prems(2) in' by fastforce+
    have rr: "fst_row P \<le> fst r" "fst r - fst_row P < ldb P" using snoc.prems(2) by simp_all
    have ne': "i - fst_row P \<noteq> fst r - fst_row P" using ne ri(1) rr(1) by simp
    have miss: "\<forall>j'<sys_nrhs S. i - fst_row P + j * ldb P \<noteq> fst r - fst_row P + j' * ldb P"
      using strided_cells_apart[OF ri(2) rr(2)] ne' by blast
    have IH: "fold (B_put_record S P) recs B (i - fst_row P + j * ldb P) = v j"
      using snoc.IH snoc.prems(1,2) in' by simp
    show ?thesis unfolding f using strided_fill_miss[OF miss] IH by simp
  qed
qed

subsection \<open>The whole redistribution from \<open>x\<close> to \<open>B\<close>\<close>

text \<open>
  The indices of the rows that arrive at the process \<open>me\<close>, and the rows with
  their values, in the order of the sending processes.
\<close>

definition X_incoming_rows :: "system_t \<Rightarrow> nat \<Rightarrow> local_t list \<Rightarrow> nat \<Rightarrow> nat list" where
  "X_incoming_rows S n Ps me =
     concat (map (\<lambda>q. map (X_irow S) (X_rows_to S (Ps ! q) n me)) [0..<length Ps])"

definition X_incoming ::
  "system_t \<Rightarrow> nat \<Rightarrow> local_t list \<Rightarrow> (nat \<Rightarrow> real) list \<Rightarrow> nat \<Rightarrow> (nat \<times> (nat \<Rightarrow> real)) list" where
  "X_incoming S n Ps xs me =
     concat (map (\<lambda>q. map (\<lambda>r. (X_irow S r, snd (snd (X_record S (Ps ! q) (xs ! q) r))))
                        (X_rows_to S (Ps ! q) n me)) [0..<length Ps])"

text \<open>
  A setup of the redistribution back that fits: the matrix has a row (the
  code reads \<^verbatim>\<open>supno[n-1]\<close>), the counts of every process are the numbers of the
  rows of its blocks per owner of the row with displacements that fit, every
  row of a block has an owner, what a process is to receive is what is sent to
  it, and the rows that arrive at a process are the rows
  \<open>fst_row, \<dots>, fst_row + m_loc - 1\<close> of its part of \<open>B\<close>, each once, where the
  leading dimension of \<open>B\<close> is not below \<open>m_loc\<close>.
\<close>

definition X_to_B_setup :: "system_t \<Rightarrow> nat \<Rightarrow> local_t list \<Rightarrow> bool" where
  "X_to_B_setup S n Ps \<longleftrightarrow>
     0 < n \<and>
     list_all (\<lambda>q.
        counts_ok (length Ps) (sys_nrhs S) (X_to_B_SendCnt (SOLVEstruct (Ps ! q))) \<and>
        list_all (\<lambda>p. SendCnt (X_to_B_SendCnt (SOLVEstruct (Ps ! q))) ! p
                        = length (X_rows_to S (Ps ! q) n p)) [0..<length Ps] \<and>
        list_all (\<lambda>r. row_to_proc (SOLVEstruct (Ps ! q)) ! X_irow S r < length Ps)
          (X_rows S (Ps ! q) n) \<and>
        m_loc (Ps ! q) \<le> ldb (Ps ! q) \<and>
        sort (X_incoming_rows S n Ps q)
          = [fst_row (Ps ! q)..<fst_row (Ps ! q) + m_loc (Ps ! q)])
       [0..<length Ps] \<and>
     counts_match (map (\<lambda>P. X_to_B_SendCnt (SOLVEstruct P)) Ps)"

lemma X_to_B_setupD:
  assumes "X_to_B_setup S n Ps" "q < length Ps"
  shows "counts_ok (length Ps) (sys_nrhs S) (X_to_B_SendCnt (SOLVEstruct (Ps ! q)))"
    and "\<forall>p<length Ps. SendCnt (X_to_B_SendCnt (SOLVEstruct (Ps ! q))) ! p
                        = length (X_rows_to S (Ps ! q) n p)"
    and "\<forall>r\<in>set (X_rows S (Ps ! q) n).
           row_to_proc (SOLVEstruct (Ps ! q)) ! X_irow S r < length Ps"
    and "m_loc (Ps ! q) \<le> ldb (Ps ! q)"
    and "sort (X_incoming_rows S n Ps q)
          = [fst_row (Ps ! q)..<fst_row (Ps ! q) + m_loc (Ps ! q)]"
proof -
  have L: "list_all (\<lambda>q.
        counts_ok (length Ps) (sys_nrhs S) (X_to_B_SendCnt (SOLVEstruct (Ps ! q))) \<and>
        list_all (\<lambda>p. SendCnt (X_to_B_SendCnt (SOLVEstruct (Ps ! q))) ! p
                        = length (X_rows_to S (Ps ! q) n p)) [0..<length Ps] \<and>
        list_all (\<lambda>r. row_to_proc (SOLVEstruct (Ps ! q)) ! X_irow S r < length Ps)
          (X_rows S (Ps ! q) n) \<and>
        m_loc (Ps ! q) \<le> ldb (Ps ! q) \<and>
        sort (X_incoming_rows S n Ps q)
          = [fst_row (Ps ! q)..<fst_row (Ps ! q) + m_loc (Ps ! q)])
       [0..<length Ps]"
    using assms(1) unfolding X_to_B_setup_def by blast
  note a = list_all_uptD[OF L assms(2)]
  show "counts_ok (length Ps) (sys_nrhs S) (X_to_B_SendCnt (SOLVEstruct (Ps ! q)))"
    "m_loc (Ps ! q) \<le> ldb (Ps ! q)"
    "sort (X_incoming_rows S n Ps q)
          = [fst_row (Ps ! q)..<fst_row (Ps ! q) + m_loc (Ps ! q)]"
    using a by blast+
  have "list_all (\<lambda>p. SendCnt (X_to_B_SendCnt (SOLVEstruct (Ps ! q))) ! p
                        = length (X_rows_to S (Ps ! q) n p)) [0..<length Ps]"
    using a by blast
  then show "\<forall>p<length Ps. SendCnt (X_to_B_SendCnt (SOLVEstruct (Ps ! q))) ! p
                        = length (X_rows_to S (Ps ! q) n p)"
    using list_all_uptD by blast
  have "list_all (\<lambda>r. row_to_proc (SOLVEstruct (Ps ! q)) ! X_irow S r < length Ps)
          (X_rows S (Ps ! q) n)"
    using a by blast
  then show "\<forall>r\<in>set (X_rows S (Ps ! q) n).
           row_to_proc (SOLVEstruct (Ps ! q)) ! X_irow S r < length Ps"
    unfolding list_all_iff .
qed

lemma X_incoming_fst: "map fst (X_incoming S n Ps xs me) = X_incoming_rows S n Ps me"
  by (simp add: X_incoming_def X_incoming_rows_def map_concat comp_def)

lemma X_incoming_rows_props:
  assumes V: "X_to_B_setup S n Ps" and me: "me < length Ps"
  shows "distinct (X_incoming_rows S n Ps me)"
    and "set (X_incoming_rows S n Ps me)
           = {fst_row (Ps ! me)..<fst_row (Ps ! me) + m_loc (Ps ! me)}"
    and "length (X_incoming_rows S n Ps me) = m_loc (Ps ! me)"
proof -
  let ?xs = "X_incoming_rows S n Ps me"
  let ?ys = "[fst_row (Ps ! me)..<fst_row (Ps ! me) + m_loc (Ps ! me)]"
  have s: "sort ?xs = ?ys" by (rule X_to_B_setupD(5)[OF V me])
  have "distinct (sort ?xs)" unfolding s by simp
  then show "distinct ?xs" by simp
  have "set (sort ?xs) = {fst_row (Ps ! me)..<fst_row (Ps ! me) + m_loc (Ps ! me)}"
    unfolding s by simp
  then show "set ?xs = {fst_row (Ps ! me)..<fst_row (Ps ! me) + m_loc (Ps ! me)}" by simp
  have "length (sort ?xs) = m_loc (Ps ! me)" unfolding s by simp
  then show "length ?xs = m_loc (Ps ! me)" by simp
qed

lemma pdReDistribute_X_to_B_nth:
  assumes V: "X_to_B_setup S n Ps" and me: "me < length Ps"
  shows "pdReDistribute_X_to_B S n Ps Bs xs ! me
           = fold (B_put_record S (Ps ! me)) (X_incoming S n Ps xs me) (Bs ! me)"
proof -
  let ?procs = "length Ps"
  let ?n = "sys_nrhs S"
  let ?c = "\<lambda>q. X_to_B_SendCnt (SOLVEstruct (Ps ! q))"
  let ?sb = "\<lambda>q. X_to_B_fill S (Ps ! q) n (xs ! q)"
  let ?xs = "\<lambda>q. map (\<lambda>r. (X_irow S r, snd (snd (X_record S (Ps ! q) (xs ! q) r))))
                    (X_rows_to S (Ps ! q) n me)"
  let ?ri = "MPI_Alltoallv (\<lambda>q. send_ibuf (?sb q)) (\<lambda>q. sdispls (?c q))
                (RecvCnt (?c me)) (rdispls (?c me)) ?procs me (\<lambda>k. 0)"
  let ?rd = "MPI_Alltoallv (\<lambda>q. send_dbuf (?sb q)) (\<lambda>q. sdispls_nrhs (?c q))
                (RecvCnt_nrhs (?c me)) (rdispls_nrhs (?c me)) ?procs me (\<lambda>k. 0)"
  have ok: "\<forall>q<?procs. counts_ok ?procs ?n (?c q)"
    using X_to_B_setupD(1)[OF V] by blast
  have cm: "counts_match (map (\<lambda>P. X_to_B_SendCnt (SOLVEstruct P)) Ps)"
    using V by (simp add: X_to_B_setup_def)
  have rc: "\<forall>q<?procs. RecvCnt (?c me) ! q = SendCnt (?c q) ! me"
    using counts_matchD[OF cm, of me] me by simp
  have len: "\<forall>q<?procs. length (?xs q) = SendCnt (?c q) ! me"
    using X_to_B_setupD(2)[OF V] me by simp
  have si: "\<forall>q<?procs. \<forall>k<SendCnt (?c q) ! me.
              send_ibuf (?sb q) (sdispls (?c q) ! me + k) = fst (?xs q ! k)"
  proof (intro allI impI)
    fix q k assume q: "q < ?procs" and k: "k < SendCnt (?c q) ! me"
    have kk: "k < length (X_rows_to S (Ps ! q) n me)" using len q k by simp
    show "send_ibuf (?sb q) (sdispls (?c q) ! me + k) = fst (?xs q ! k)"
      using X_to_B_fill_spec(1)[OF X_to_B_setupD(1)[OF V q] X_to_B_setupD(2)[OF V q]
          X_to_B_setupD(3)[OF V q] me k] kk by simp
  qed
  have sd: "\<forall>q<?procs. \<forall>k<SendCnt (?c q) ! me. \<forall>j<?n.
              send_dbuf (?sb q) ((sdispls (?c q) ! me + k) * ?n + j) = snd (?xs q ! k) j"
  proof (intro allI impI)
    fix q k j assume q: "q < ?procs" and k: "k < SendCnt (?c q) ! me" and j: "j < ?n"
    have kk: "k < length (X_rows_to S (Ps ! q) n me)" using len q k by simp
    show "send_dbuf (?sb q) ((sdispls (?c q) ! me + k) * ?n + j) = snd (?xs q ! k) j"
      using X_to_B_fill_spec(2)[OF X_to_B_setupD(1)[OF V q] X_to_B_setupD(2)[OF V q]
          X_to_B_setupD(3)[OF V q] me k j] kk by simp
  qed
  note E2 = exchange(2)[where c = ?c and xs = ?xs and si = "\<lambda>q. send_ibuf (?sb q)"
      and sd = "\<lambda>q. send_dbuf (?sb q)" and zi = "\<lambda>k. 0" and zd = "\<lambda>k. 0",
      OF ok me rc len si sd]
  have inc: "X_incoming S n Ps xs me = concat (map ?xs [0..<?procs])"
    by (simp add: X_incoming_def)
  have ml: "m_loc (Ps ! me) = length (X_incoming S n Ps xs me)"
    using X_incoming_rows_props(3)[OF V me] X_incoming_fst[of S n Ps xs me]
    by (metis length_map)
  have "pdReDistribute_X_to_B S n Ps Bs xs ! me = X_to_B_scatter S (Ps ! me) ?ri ?rd (Bs ! me)"
    using me by (simp add: pdReDistribute_X_to_B_def Let_def)
  also have "\<dots> = fold (\<lambda>r. B_put_record S (Ps ! me) (?ri r, \<lambda>j. ?rd (r * ?n + j)))
                      [0..<length (X_incoming S n Ps xs me)] (Bs ! me)"
    unfolding X_to_B_scatter_eq ml ..
  also have "\<dots> = fold (B_put_record S (Ps ! me)) (X_incoming S n Ps xs me) (Bs ! me)"
    by (rule fold_B_records) (use E2 in \<open>simp add: inc\<close>)
  finally show ?thesis .
qed

lemma X_to_B_row:
  assumes V: "X_to_B_setup S n Ps" and q: "q < length Ps"
    and r: "r \<in> set (X_rows S (Ps ! q) n)" and j: "j < sys_nrhs S"
    and me: "me = row_to_proc (SOLVEstruct (Ps ! q)) ! X_irow S r"
  shows "me < length Ps"
    and "fst_row (Ps ! me) \<le> X_irow S r"
    and "X_irow S r < fst_row (Ps ! me) + m_loc (Ps ! me)"
    and "(pdReDistribute_X_to_B S n Ps Bs xs ! me)
           (X_irow S r - fst_row (Ps ! me) + j * ldb (Ps ! me))
           = (xs ! q) (X_BLK (Ps ! q) (LBi (fst r) (loc_grid (Ps ! q))) + snd r
                        + j * SuperSize (Glu_persist S) (fst r))"
proof -
  let ?v = "snd (snd (X_record S (Ps ! q) (xs ! q) r))"
  show ml: "me < length Ps" using X_to_B_setupD(3)[OF V q] r me by blast
  have rin: "r \<in> set (X_rows_to S (Ps ! q) n me)" using r me by (simp add: X_rows_to_def)
  have m: "(X_irow S r, ?v) \<in> set (X_incoming S n Ps xs me)"
    unfolding X_incoming_def using q rin by (auto intro!: bexI[of _ q])
  have inr: "X_irow S r \<in> set (X_incoming_rows S n Ps me)"
    unfolding X_incoming_rows_def using q rin by (auto intro!: bexI[of _ q])
  then show lo: "fst_row (Ps ! me) \<le> X_irow S r"
    and hi: "X_irow S r < fst_row (Ps ! me) + m_loc (Ps ! me)"
    unfolding X_incoming_rows_props(2)[OF V ml] by simp_all
  have d: "distinct (map fst (X_incoming S n Ps xs me))"
    using X_incoming_rows_props(1)[OF V ml] by (simp add: X_incoming_fst)
  have rg: "\<forall>r\<in>set (X_incoming S n Ps xs me).
              fst_row (Ps ! me) \<le> fst r \<and> fst r - fst_row (Ps ! me) < ldb (Ps ! me)"
  proof
    fix r' assume "r' \<in> set (X_incoming S n Ps xs me)"
    then have "fst r' \<in> set (map fst (X_incoming S n Ps xs me))" by simp
    then have "fst r' \<in> {fst_row (Ps ! me)..<fst_row (Ps ! me) + m_loc (Ps ! me)}"
      unfolding X_incoming_fst X_incoming_rows_props(2)[OF V ml] .
    then show "fst_row (Ps ! me) \<le> fst r' \<and> fst r' - fst_row (Ps ! me) < ldb (Ps ! me)"
      using X_to_B_setupD(4)[OF V ml] by auto
  qed
  have "fold (B_put_record S (Ps ! me)) (X_incoming S n Ps xs me) (Bs ! me)
          (X_irow S r - fst_row (Ps ! me) + j * ldb (Ps ! me)) = ?v j"
    by (rule fold_B_put_record_apply[OF d rg m j])
  then show "(pdReDistribute_X_to_B S n Ps Bs xs ! me)
           (X_irow S r - fst_row (Ps ! me) + j * ldb (Ps ! me))
           = (xs ! q) (X_BLK (Ps ! q) (LBi (fst r) (loc_grid (Ps ! q))) + snd r
                        + j * SuperSize (Glu_persist S) (fst r))"
    by (simp add: pdReDistribute_X_to_B_nth[OF V ml] X_record_def)
qed

subsection \<open>There and back\<close>

text \<open>
  A setup that fits in both directions: both setups fit, and every permuted
  row index, of a row of \<open>B\<close> on any process, is not before the first column of
  its supernode and is a row of a block that the diagonal process of this
  supernode goes through in its loops on the way back.
\<close>

definition redistribution_setup :: "system_t \<Rightarrow> nat \<Rightarrow> local_t list \<Rightarrow> bool" where
  "redistribution_setup S n Ps \<longleftrightarrow>
     B_to_X_setup S Ps \<and> X_to_B_setup S n Ps \<and>
     list_all (\<lambda>q.
        list_all (\<lambda>i.
           FstBlockC (Glu_persist S) (BlockNum (Glu_persist S) (perm_row S (Ps ! q) i))
             \<le> perm_row S (Ps ! q) i \<and>
           (BlockNum (Glu_persist S) (perm_row S (Ps ! q) i),
              perm_row S (Ps ! q) i
                - FstBlockC (Glu_persist S) (BlockNum (Glu_persist S) (perm_row S (Ps ! q) i)))
             \<in> set (X_rows S (Ps ! diag_proc S (loc_grid (Ps ! q)) (perm_row S (Ps ! q) i)) n))
          [0..<m_loc (Ps ! q)])
       [0..<length Ps]"

lemma redistribution_setupD:
  assumes "redistribution_setup S n Ps"
  shows "B_to_X_setup S Ps" and "X_to_B_setup S n Ps"
    and "q < length Ps \<Longrightarrow> i < m_loc (Ps ! q) \<Longrightarrow>
         FstBlockC (Glu_persist S) (BlockNum (Glu_persist S) (perm_row S (Ps ! q) i))
           \<le> perm_row S (Ps ! q) i"
    and "q < length Ps \<Longrightarrow> i < m_loc (Ps ! q) \<Longrightarrow>
         (BlockNum (Glu_persist S) (perm_row S (Ps ! q) i),
          perm_row S (Ps ! q) i
            - FstBlockC (Glu_persist S) (BlockNum (Glu_persist S) (perm_row S (Ps ! q) i)))
         \<in> set (X_rows S (Ps ! diag_proc S (loc_grid (Ps ! q)) (perm_row S (Ps ! q) i)) n)"
proof -
  show "B_to_X_setup S Ps" "X_to_B_setup S n Ps"
    using assms unfolding redistribution_setup_def by blast+
  have L: "list_all (\<lambda>q.
        list_all (\<lambda>i.
           FstBlockC (Glu_persist S) (BlockNum (Glu_persist S) (perm_row S (Ps ! q) i))
             \<le> perm_row S (Ps ! q) i \<and>
           (BlockNum (Glu_persist S) (perm_row S (Ps ! q) i),
              perm_row S (Ps ! q) i
                - FstBlockC (Glu_persist S) (BlockNum (Glu_persist S) (perm_row S (Ps ! q) i)))
             \<in> set (X_rows S (Ps ! diag_proc S (loc_grid (Ps ! q)) (perm_row S (Ps ! q) i)) n))
          [0..<m_loc (Ps ! q)])
       [0..<length Ps]"
    using assms unfolding redistribution_setup_def by blast
  have a: "FstBlockC (Glu_persist S) (BlockNum (Glu_persist S) (perm_row S (Ps ! q) i))
             \<le> perm_row S (Ps ! q) i \<and>
           (BlockNum (Glu_persist S) (perm_row S (Ps ! q) i),
              perm_row S (Ps ! q) i
                - FstBlockC (Glu_persist S) (BlockNum (Glu_persist S) (perm_row S (Ps ! q) i)))
             \<in> set (X_rows S (Ps ! diag_proc S (loc_grid (Ps ! q)) (perm_row S (Ps ! q) i)) n)"
    if "q < length Ps" "i < m_loc (Ps ! q)"
    using list_all_uptD[OF list_all_uptD[OF L that(1)] that(2)] .
  show "q < length Ps \<Longrightarrow> i < m_loc (Ps ! q) \<Longrightarrow>
         FstBlockC (Glu_persist S) (BlockNum (Glu_persist S) (perm_row S (Ps ! q) i))
           \<le> perm_row S (Ps ! q) i"
    using a by blast
  show "q < length Ps \<Longrightarrow> i < m_loc (Ps ! q) \<Longrightarrow>
         (BlockNum (Glu_persist S) (perm_row S (Ps ! q) i),
          perm_row S (Ps ! q) i
            - FstBlockC (Glu_persist S) (BlockNum (Glu_persist S) (perm_row S (Ps ! q) i)))
         \<in> set (X_rows S (Ps ! diag_proc S (loc_grid (Ps ! q)) (perm_row S (Ps ! q) i)) n)"
    using a by blast
qed

lemma round_trip_row:
  assumes V: "redistribution_setup S n Ps" and q: "q < length Ps" and i: "i < m_loc (Ps ! q)"
    and j: "j < sys_nrhs S"
    and p: "p = diag_proc S (loc_grid (Ps ! q)) (perm_row S (Ps ! q) i)"
    and me: "me = row_to_proc (SOLVEstruct (Ps ! p)) ! perm_row S (Ps ! q) i"
  shows "me < length Ps"
    and "fst_row (Ps ! me) \<le> perm_row S (Ps ! q) i"
    and "perm_row S (Ps ! q) i < fst_row (Ps ! me) + m_loc (Ps ! me)"
    and "(pdReDistribute_X_to_B S n Ps Bs' (pdReDistribute_B_to_X S Ps Bs xs) ! me)
           (perm_row S (Ps ! q) i - fst_row (Ps ! me) + j * ldb (Ps ! me))
           = (Bs ! q) (i + j * ldb (Ps ! q))"
proof -
  let ?irow = "perm_row S (Ps ! q) i"
  let ?k = "BlockNum (Glu_persist S) ?irow"
  let ?r = "(?k, ?irow - FstBlockC (Glu_persist S) ?k)"
  let ?x = "pdReDistribute_B_to_X S Ps Bs xs"
  note VB = redistribution_setupD(1)[OF V] and VX = redistribution_setupD(2)[OF V]
  have pl: "p < length Ps" by (rule B_to_X_row(1)[OF VB q i j p])
  have x: "(?x ! p) (X_pos S (Ps ! p) ?irow j) = (Bs ! q) (i + j * ldb (Ps ! q))"
    by (rule B_to_X_row(2)[OF VB q i j p])
  have r: "?r \<in> set (X_rows S (Ps ! p) n)"
    using redistribution_setupD(4)[OF V q i] p by simp
  have ir: "X_irow S ?r = ?irow"
    using redistribution_setupD(3)[OF V q i] by (simp add: X_irow_def)
  have me': "me = row_to_proc (SOLVEstruct (Ps ! p)) ! X_irow S ?r" using me ir by simp
  note R = X_to_B_row[OF VX pl r j me']
  show "me < length Ps" by (rule R(1))
  show "fst_row (Ps ! me) \<le> ?irow" using R(2) ir by simp
  show "?irow < fst_row (Ps ! me) + m_loc (Ps ! me)" using R(3) ir by simp
  have "(pdReDistribute_X_to_B S n Ps Bs' ?x ! me) (?irow - fst_row (Ps ! me) + j * ldb (Ps ! me))
          = (?x ! p) (X_pos S (Ps ! p) ?irow j)"
    using R(4)[where Bs = Bs' and xs = ?x] unfolding ir by (simp add: X_pos_def)
  then show "(pdReDistribute_X_to_B S n Ps Bs' ?x ! me)
           (?irow - fst_row (Ps ! me) + j * ldb (Ps ! me)) = (Bs ! q) (i + j * ldb (Ps ! q))"
    using x by simp
qed

lemma ex2_round_trip_setup: "redistribution_setup ex2_sys 4 ex2_locs"
  by code_simp

text \<open>
  Claim C1, amended.  In a setup that fits in both directions,
  \<^verbatim>\<open>pdReDistribute_B_to_X\<close> followed by \<^verbatim>\<open>pdReDistribute_X_to_B\<close> on the \<open>x\<close> that
  the first has left gives \<open>B\<close> with its rows permuted: the values
  \<open>B[i + j*ldb]\<close> of the row \<open>i\<close> of a process, with the global row
  \<open>l = fst_row + i\<close>, are afterwards in the row \<open>irow = perm_c[perm_r[l]]\<close> of the
  distribution of \<open>B\<close>, that is on the process \<open>me = row_to_proc[irow]\<close>, whose
  range of rows contains \<open>irow\<close>, at \<open>B[irow - fst_row + j*ldb]\<close> with the
  \<open>fst_row\<close> and \<open>ldb\<close> of \<open>me\<close> (the way back applies no inverse permutation).  A
  row with \<open>perm_c[perm_r[l]] = l\<close> that its own process owns is as it was.
\<close>

theorem pdReDistribute_round_trip:
  "redistribution_setup S n Ps \<and> q < length Ps \<and> i < m_loc (Ps ! q) \<and> j < sys_nrhs S \<longrightarrow>
     (let l = fst_row (Ps ! q) + i;
          irow = perm_c (ScalePermstruct S) ! (perm_r (ScalePermstruct S) ! l);
          k = BlockNum (Glu_persist S) irow;
          p = PNUM (PROW k (loc_grid (Ps ! q))) (PCOL k (loc_grid (Ps ! q))) (loc_grid (Ps ! q));
          me = row_to_proc (SOLVEstruct (Ps ! p)) ! irow;
          Bs' = pdReDistribute_X_to_B S n Ps Bs (pdReDistribute_B_to_X S Ps Bs xs)
      in me < length Ps
       \<and> fst_row (Ps ! me) \<le> irow \<and> irow < fst_row (Ps ! me) + m_loc (Ps ! me)
       \<and> (Bs' ! me) (irow - fst_row (Ps ! me) + j * ldb (Ps ! me))
           = (Bs ! q) (i + j * ldb (Ps ! q))
       \<and> (irow = l \<and> me = q \<longrightarrow>
            (Bs' ! q) (i + j * ldb (Ps ! q)) = (Bs ! q) (i + j * ldb (Ps ! q))))"
proof
  assume h: "redistribution_setup S n Ps \<and> q < length Ps \<and> i < m_loc (Ps ! q)
               \<and> j < sys_nrhs S"
  then have a: "redistribution_setup S n Ps" "q < length Ps" "i < m_loc (Ps ! q)"
      "j < sys_nrhs S"
    by simp_all
  let ?irow = "perm_row S (Ps ! q) i"
  let ?p = "diag_proc S (loc_grid (Ps ! q)) ?irow"
  let ?me = "row_to_proc (SOLVEstruct (Ps ! ?p)) ! ?irow"
  let ?Bs' = "pdReDistribute_X_to_B S n Ps Bs (pdReDistribute_B_to_X S Ps Bs xs)"
  note R = round_trip_row[OF a refl refl]
  have 4: "(?Bs' ! ?me) (?irow - fst_row (Ps ! ?me) + j * ldb (Ps ! ?me))
             = (Bs ! q) (i + j * ldb (Ps ! q))"
    by (rule R(4))
  have 5: "?irow = fst_row (Ps ! q) + i \<and> ?me = q \<longrightarrow>
            (?Bs' ! q) (i + j * ldb (Ps ! q)) = (Bs ! q) (i + j * ldb (Ps ! q))"
  proof
    assume e: "?irow = fst_row (Ps ! q) + i \<and> ?me = q"
    then have m: "?me = q" and ir: "?irow = fst_row (Ps ! q) + i" by blast+
    have "(?Bs' ! q) (?irow - fst_row (Ps ! q) + j * ldb (Ps ! q))
            = (Bs ! q) (i + j * ldb (Ps ! q))"
      using 4 unfolding m .
    then show "(?Bs' ! q) (i + j * ldb (Ps ! q)) = (Bs ! q) (i + j * ldb (Ps ! q))"
      unfolding ir by simp
  qed
  show "let l = fst_row (Ps ! q) + i;
          irow = perm_c (ScalePermstruct S) ! (perm_r (ScalePermstruct S) ! l);
          k = BlockNum (Glu_persist S) irow;
          p = PNUM (PROW k (loc_grid (Ps ! q))) (PCOL k (loc_grid (Ps ! q))) (loc_grid (Ps ! q));
          me = row_to_proc (SOLVEstruct (Ps ! p)) ! irow;
          Bs' = pdReDistribute_X_to_B S n Ps Bs (pdReDistribute_B_to_X S Ps Bs xs)
      in me < length Ps
       \<and> fst_row (Ps ! me) \<le> irow \<and> irow < fst_row (Ps ! me) + m_loc (Ps ! me)
       \<and> (Bs' ! me) (irow - fst_row (Ps ! me) + j * ldb (Ps ! me))
           = (Bs ! q) (i + j * ldb (Ps ! q))
       \<and> (irow = l \<and> me = q \<longrightarrow>
            (Bs' ! q) (i + j * ldb (Ps ! q)) = (Bs ! q) (i + j * ldb (Ps ! q)))"
    using R(1) R(2) R(3) 4 5
    unfolding Let_def perm_row_def diag_proc_def by blast
qed

theorem pdReDistribute_round_trip_witness:
  "redistribution_setup ex2_sys 4 ex2_locs
   \<and> (pdReDistribute_X_to_B ex2_sys 4 ex2_locs ex2_Bs
        (pdReDistribute_B_to_X ex2_sys ex2_locs ex2_Bs [\<lambda>k. 0, \<lambda>k. 0]) ! 1) 2 = 23
   \<and> (ex2_Bs ! 1) 3 = 23
   \<and> (pdReDistribute_X_to_B ex2_sys 4 ex2_locs ex2_Bs
        (pdReDistribute_B_to_X ex2_sys ex2_locs ex2_Bs [\<lambda>k. 0, \<lambda>k. 0]) ! 0) 4 = 13
   \<and> (ex2_Bs ! 0) 4 = 13"
proof -
  let ?Bs' = "pdReDistribute_X_to_B ex2_sys 4 ex2_locs ex2_Bs
        (pdReDistribute_B_to_X ex2_sys ex2_locs ex2_Bs [\<lambda>k. 0, \<lambda>k. 0])"
  have e: "perm_c (ScalePermstruct ex2_sys) ! (perm_r (ScalePermstruct ex2_sys) ! (2 + 1)) = 2"
    "BlockNum (Glu_persist ex2_sys) 2 = 1"
    "PNUM (PROW 1 (loc_grid (ex2_locs ! 1))) (PCOL 1 (loc_grid (ex2_locs ! 1)))
       (loc_grid (ex2_locs ! 1)) = 1"
    "row_to_proc (SOLVEstruct (ex2_locs ! 1)) ! 2 = 1"
    "fst_row (ex2_locs ! 1) = 2" "ldb (ex2_locs ! 1) = 2" "(ex2_Bs ! 1) (1 + 1 * 2) = 23"
    by code_simp+
  have v1: "(ex2_Bs ! 1) 3 = 23" by code_simp
  have f: "perm_c (ScalePermstruct ex2_sys) ! (perm_r (ScalePermstruct ex2_sys) ! (0 + 1)) = 1"
    "BlockNum (Glu_persist ex2_sys) 1 = 1"
    "PNUM (PROW 1 (loc_grid (ex2_locs ! 0))) (PCOL 1 (loc_grid (ex2_locs ! 0)))
       (loc_grid (ex2_locs ! 0)) = 1"
    "row_to_proc (SOLVEstruct (ex2_locs ! 1)) ! 1 = 0"
    "fst_row (ex2_locs ! 0) = 0" "ldb (ex2_locs ! 0) = 3" "(ex2_Bs ! 0) (1 + 1 * 3) = 13"
    by code_simp+
  have v0: "(ex2_Bs ! 0) 4 = 13" by code_simp
  have h1: "redistribution_setup ex2_sys 4 ex2_locs \<and> 1 < length ex2_locs
              \<and> 1 < m_loc (ex2_locs ! 1) \<and> 1 < sys_nrhs ex2_sys"
    using ex2_round_trip_setup by (simp add: ex2_locs_def ex2_sys_def)
  have h0: "redistribution_setup ex2_sys 4 ex2_locs \<and> 0 < length ex2_locs
              \<and> 1 < m_loc (ex2_locs ! 0) \<and> 1 < sys_nrhs ex2_sys"
    using ex2_round_trip_setup by (simp add: ex2_locs_def ex2_sys_def)
  have 1: "(?Bs' ! 1) 2 = 23"
    using pdReDistribute_round_trip[where S = ex2_sys and n = 4 and Ps = ex2_locs and q = 1
        and i = 1 and j = 1 and Bs = ex2_Bs and xs = "[\<lambda>k. 0, \<lambda>k. 0]"] h1
    unfolding Let_def e by (simp add: numeral_2_eq_2)
  have 0: "(?Bs' ! 0) 4 = 13"
    using pdReDistribute_round_trip[where S = ex2_sys and n = 4 and Ps = ex2_locs and q = 0
        and i = 1 and j = 1 and Bs = ex2_Bs and xs = "[\<lambda>k. 0, \<lambda>k. 0]"] h0
    unfolding Let_def f by simp
  show ?thesis using ex2_round_trip_setup 1 0 v1 v0 by simp
qed

subsection \<open>One process\<close>

text \<open>
  One process with two rows of one right-hand side and one supernode of two
  columns; the row permutation swaps the two rows.
\<close>

definition ex1_sys :: system_t where
  "ex1_sys = \<lparr>sys_nrhs = 1, sys_XK_H = 2,
              ScalePermstruct = \<lparr>perm_r = [1, 0], perm_c = [0, 1]\<rparr>,
              Glu_persist = \<lparr>xsup = [0, 2], supno = [0, 0]\<rparr>\<rparr>"

definition ex1_cnt :: comm_counts where
  "ex1_cnt = \<lparr>SendCnt = [2], SendCnt_nrhs = [2], RecvCnt = [2], RecvCnt_nrhs = [2],
              sdispls = [0], sdispls_nrhs = [0], rdispls = [0], rdispls_nrhs = [0]\<rparr>"

definition ex1_loc :: local_t where
  "ex1_loc = \<lparr>loc_grid = \<lparr>iam = 0, nprow = 1, npcol = 1\<rparr>, m_loc = 2, ldb = 2, fst_row = 0,
              X_BLK = (\<lambda>lk. 2),
              SOLVEstruct = \<lparr>row_to_proc = [0, 0], diag_procs = [0], num_diag_procs = 1,
                             B_to_X_SendCnt = ex1_cnt, X_to_B_SendCnt = ex1_cnt\<rparr>\<rparr>"

definition ex1_B :: "nat \<Rightarrow> real" where
  "ex1_B = (\<lambda>k. [10, 20] ! k)"

lemma ex1_round_trip_setup: "redistribution_setup ex1_sys 2 [ex1_loc]"
  by code_simp

text \<open>
  The setup fits, and after the way there and back the first row of \<open>B\<close> holds
  the \<open>20\<close> of the second row, not its \<open>10\<close>.
\<close>

theorem round_trip_permutes_rows:
  "redistribution_setup ex1_sys 2 [ex1_loc]
   \<and> ex1_B 0 = 10
   \<and> (pdReDistribute_X_to_B ex1_sys 2 [ex1_loc] [ex1_B]
        (pdReDistribute_B_to_X ex1_sys [ex1_loc] [ex1_B] [\<lambda>k. 0]) ! 0) 0 = 20"
proof -
  have e: "perm_row ex1_sys ([ex1_loc] ! 0) 1 = 0"
    "diag_proc ex1_sys (loc_grid ([ex1_loc] ! 0)) 0 = 0"
    "row_to_proc (SOLVEstruct ([ex1_loc] ! 0)) ! 0 = 0"
    "fst_row ([ex1_loc] ! 0) = 0" "ldb ([ex1_loc] ! 0) = 2" "([ex1_B] ! 0) (1 + 0 * 2) = 20"
    by code_simp+
  have v: "ex1_B 0 = 10" by code_simp
  have h: "0 < length [ex1_loc]" "1 < m_loc ([ex1_loc] ! 0)" "0 < sys_nrhs ex1_sys"
    by (simp_all add: ex1_loc_def ex1_sys_def)
  have p: "0 = diag_proc ex1_sys (loc_grid ([ex1_loc] ! 0)) (perm_row ex1_sys ([ex1_loc] ! 0) 1)"
    unfolding e by simp
  have me: "0 = row_to_proc (SOLVEstruct ([ex1_loc] ! 0)) ! perm_row ex1_sys ([ex1_loc] ! 0) 1"
    unfolding e by simp
  from round_trip_row(4)[OF ex1_round_trip_setup h p me, where Bs = "[ex1_B]"
      and Bs' = "[ex1_B]" and xs = "[\<lambda>k. 0]"]
  have "(pdReDistribute_X_to_B ex1_sys 2 [ex1_loc] [ex1_B]
        (pdReDistribute_B_to_X ex1_sys [ex1_loc] [ex1_B] [\<lambda>k. 0]) ! 0) 0 = 20"
    unfolding e by simp
  then show ?thesis using ex1_round_trip_setup v by simp
qed

end
